(* ===== verification/Prelude.thy ===== *)
theory Prelude
  imports Main "HOL-Library.Word"
begin

unbundle bit_operations_syntax

text \<open>
  Shared vocabulary of the development: the machine types of the sources, the exceptions and
  undefined behaviours an operation can end in, the errno values the sources test, C++20 three-way
  comparison results, and the generic facts on lists and words that the component theories use.
\<close>

named_theorems bits_simps \<open>characteristic facts of the flag words\<close>

section \<open>Machine types\<close>

type_synonym byte = "8 word"

type_synonym size_t = "64 word"

type_synonym short = "16 word"

text \<open>
  A file descriptor is the value of a C \<^verbatim>\<open>int\<close>; it is kept as a mathematical integer because the
  sources only compare it, index with it and add one to it.
\<close>

type_synonym native_socket_type = int

section \<open>Errors\<close>

text \<open>
  What ends an operation other than a return value: the exceptions the sources throw (or let the
  standard library throw), a failed \<^verbatim>\<open>assert\<close> of a debug build, \<^verbatim>\<open>std::terminate\<close> when an exception
  would leave a \<^verbatim>\<open>noexcept\<close> function, and, as \<open>Undefined\<close>, the places where the C++ program has no
  defined behaviour (a null or empty target is called or dereferenced, an index or a span is out of
  range).
\<close>

datatype exn =
    System_error int
  | Invalid_argument
  | Out_of_range
  | Length_error
  | Assertion_failed
  | Undefined string
  | Terminated

text \<open>What is seen of an exception that would leave a \<^verbatim>\<open>noexcept\<close> function.\<close>

fun under_noexcept :: "exn \<Rightarrow> exn" where
  "under_noexcept (Undefined u) = Undefined u"
| "under_noexcept Assertion_failed = Assertion_failed"
| "under_noexcept x = Terminated"

definition EINTR :: int where "EINTR = 4"
definition EBADF :: int where "EBADF = 9"
definition EAGAIN :: int where "EAGAIN = 11"
definition ENOTSOCK :: int where "ENOTSOCK = 88"
definition EISCONN :: int where "EISCONN = 106"
definition EALREADY :: int where "EALREADY = 114"
definition EINPROGRESS :: int where "EINPROGRESS = 115"

lemmas errno_defs = EINTR_def EBADF_def EAGAIN_def ENOTSOCK_def EISCONN_def EALREADY_def
  EINPROGRESS_def

section \<open>Three-way comparison\<close>

datatype strong_ordering = Less | Equal | Greater

fun flip_ordering :: "strong_ordering \<Rightarrow> strong_ordering" where
  "flip_ordering Less = Greater"
| "flip_ordering Equal = Equal"
| "flip_ordering Greater = Less"

lemma flip_ordering_simps [simp]:
  "flip_ordering r = Less \<longleftrightarrow> r = Greater"
  "flip_ordering r = Equal \<longleftrightarrow> r = Equal"
  "flip_ordering r = Greater \<longleftrightarrow> r = Less"
  by (cases r; simp)+

section \<open>Lists\<close>

lemma last_Cons_append_single [simp]: "last (q # xs @ [t]) = t"
  by simp

lemma takeWhile_length_split:
  "xs = takeWhile P xs @ drop (length (takeWhile P xs)) xs"
  by (metis append_eq_conv_conj takeWhile_dropWhile_id)

lemma nth_length_takeWhile_not:
  "length (takeWhile P xs) < length xs \<Longrightarrow> \<not> P (xs ! length (takeWhile P xs))"
  by (rule nth_length_takeWhile)

section \<open>Words\<close>

lemma bit_mask_neq_0 [bits_simps]: "(w AND 2 ^ n \<noteq> 0) \<longleftrightarrow> bit w n"
  for w :: "'a::len word"
proof
  assume "w AND 2 ^ n \<noteq> 0"
  then obtain k where "bit (w AND 2 ^ n) k"
    using bit_word_eqI [of "w AND 2 ^ n" 0] by auto
  then show "bit w n"
    by (auto simp: bit_and_iff bit_exp_iff)
next
  assume w: "bit w n"
  then have "n < LENGTH('a)" by (rule bit_imp_le_length)
  with w have "bit (w AND 2 ^ n) n"
    by (simp add: bit_and_iff bit_exp_iff)
  then show "w AND 2 ^ n \<noteq> 0" by (metis bit_0_eq bot_apply bot_bool_def)
qed

text \<open>Conversion of a wider integer to a C \<^verbatim>\<open>int\<close>, and the range of \<^verbatim>\<open>int\<close>.\<close>

definition to_int32 :: "int \<Rightarrow> int" where
  "to_int32 x = signed_take_bit 31 x"

definition in_int32 :: "int \<Rightarrow> bool" where
  "in_int32 x \<longleftrightarrow> - (2 ^ 31) \<le> x \<and> x < 2 ^ 31"

lemma to_int32_id: "in_int32 x \<Longrightarrow> to_int32 x = x"
  by (simp add: to_int32_def in_int32_def signed_take_bit_int_eq_self)

lemma to_int32_in: "in_int32 (to_int32 x)"
  using signed_take_bit_int_less_exp [of 31 x] signed_take_bit_int_greater_eq_minus_exp [of 31 x]
  by (simp add: to_int32_def in_int32_def)

section \<open>Loops that may not end\<close>

text \<open>A loop whose body either ends it with a result or gives the next state; \<open>None\<close> is "never ends".\<close>

partial_function (option) iterate :: "('s \<Rightarrow> 'r + 's) \<Rightarrow> 's \<Rightarrow> 'r option" where
  "iterate body s = (case body s of Inl r \<Rightarrow> Some r | Inr s' \<Rightarrow> iterate body s')"

fun rounds :: "('s \<Rightarrow> 'r + 's) \<Rightarrow> nat \<Rightarrow> 's \<Rightarrow> 's option" where
  "rounds body 0 s = Some s"
| "rounds body (Suc n) s = (case body s of Inl r \<Rightarrow> None | Inr s' \<Rightarrow> rounds body n s')"

lemma iterate_ends:
  "rounds body n s = Some s' \<Longrightarrow> body s' = Inl r \<Longrightarrow> iterate body s = Some r"
proof (induction n arbitrary: s)
  case 0
  then show ?case by (subst iterate.simps) simp
next
  case (Suc n)
  then show ?case by (subst iterate.simps) (auto split: sum.splits)
qed

lemma iterate_result:
  assumes "iterate body s = Some r"
  shows "\<exists>n s'. rounds body n s = Some s' \<and> body s' = Inl r"
proof (rule iterate.raw_induct [where P = "\<lambda>body s r. \<exists>n s'. rounds body n s = Some s' \<and> body s' = Inl r",
    OF _ assms])
  fix it :: "('s \<Rightarrow> 'r + 's) \<Rightarrow> 's \<Rightarrow> 'r option" and body s r
  assume IH: "\<And>body s r. it body s = Some r \<Longrightarrow> \<exists>n s'. rounds body n s = Some s' \<and> body s' = Inl r"
    and eq: "(case body s of Inl r \<Rightarrow> Some r | Inr s' \<Rightarrow> it body s') = Some r"
  show "\<exists>n s'. rounds body n s = Some s' \<and> body s' = Inl r"
  proof (cases "body s")
    case (Inl r')
    with eq show ?thesis by (intro exI [of _ 0]) simp
  next
    case (Inr s1)
    with eq IH obtain n s' where "rounds body n s1 = Some s' \<and> body s' = Inl r" by fastforce
    with Inr show ?thesis by (intro exI [of _ "Suc n"]) simp
  qed
qed

lemma iterate_iff:
  "iterate body s = Some r \<longleftrightarrow> (\<exists>n s'. rounds body n s = Some s' \<and> body s' = Inl r)"
  using iterate_ends iterate_result by metis

lemma rounds_Suc:
  "rounds body (Suc n) s =
     (case rounds body n s of None \<Rightarrow> None | Some s' \<Rightarrow> (case body s' of Inl r \<Rightarrow> None | Inr s'' \<Rightarrow> Some s''))"
proof (induction n arbitrary: s)
  case 0
  show ?case by (simp split: sum.splits)
next
  case (Suc n)
  then show ?case
    using rounds.simps(2) [of body "Suc n" s] rounds.simps(2) [of body n s]
    by (cases "body s") (simp_all del: rounds.simps)
qed

lemma iterate_None_iff: "iterate body s = None \<longleftrightarrow> (\<forall>n. rounds body n s \<noteq> None)"
proof
  assume none: "iterate body s = None"
  show "\<forall>n. rounds body n s \<noteq> None"
  proof
    fix n show "rounds body n s \<noteq> None"
    proof (induction n)
      case (Suc n)
      then obtain s' where "rounds body n s = Some s'" by auto
      moreover from this have "body s' \<noteq> Inl r" for r using none iterate_ends [of body n s s' r] by auto
      ultimately show ?case by (cases "body s'") (auto simp: rounds_Suc simp del: rounds.simps)
    qed simp
  qed
next
  assume run: "\<forall>n. rounds body n s \<noteq> None"
  show "iterate body s = None"
  proof (cases "iterate body s")
    case (Some r)
    then obtain n s' where "rounds body n s = Some s'" "body s' = Inl r" by (auto simp: iterate_iff)
    then have "rounds body (Suc n) s = None" by (simp add: rounds_Suc del: rounds.simps)
    with run show ?thesis by blast
  qed simp
qed

section \<open>Computations with state, exceptions and non-termination\<close>

text \<open>
  The outcome of a stateful operation: \<open>None\<close> when it never returns, an exception or a value
  otherwise, each with the state it leaves.
\<close>

type_synonym ('a, 's) outcome = "((exn + 'a) \<times> 's) option"

definition and_then :: "('a, 's) outcome \<Rightarrow> ('a \<Rightarrow> 's \<Rightarrow> ('b, 's) outcome) \<Rightarrow> ('b, 's) outcome" where
  "and_then m k =
     (case m of
        None \<Rightarrow> None
      | Some (Inl x, s) \<Rightarrow> Some (Inl x, s)
      | Some (Inr a, s) \<Rightarrow> k a s)"

lemma and_then_simps [simp]:
  "and_then None k = None"
  "and_then (Some (Inl x, s)) k = Some (Inl x, s)"
  "and_then (Some (Inr a, s)) k = k a s"
  by (simp_all add: and_then_def)

lemma and_then_Some_Inr_iff:
  "and_then m k = Some (Inr b, s') \<longleftrightarrow> (\<exists>a s. m = Some (Inr a, s) \<and> k a s = Some (Inr b, s'))"
  by (auto simp: and_then_def split: option.splits sum.splits)

lemma and_then_mono [partial_function_mono]:
  assumes "\<And>a s. monotone (fun_ord option_ord) option_ord (\<lambda>f. k f a s)"
  shows "monotone (fun_ord option_ord) option_ord (\<lambda>f. and_then m (k f))"
proof (cases m)
  case None
  then show ?thesis by (simp add: monotone_def flat_ord_def)
next
  case (Some r)
  then show ?thesis
    using assms by (cases r; cases "fst r") (auto simp: monotone_def flat_ord_def)
qed

end
