(* ===== verification/Small_Functor.thy ===== *)
theory Small_Functor
  imports Prelude
begin

text \<open>
  The type-erased callable with inline storage, \<^verbatim>\<open>include/io/detail/small_functor.hpp\<close>, which holds the
  completion handlers of the asynchronous operations.

  A callable of the erased type is a value of type \<open>'c\<close>. Storage holds a callable or raw bytes
  (\<open>None\<close>); the table of its type is the record \<open>vtable\<close>. Constructing over a live callable, and moving
  from, destroying or calling raw storage, is undefined. \<open>made\<close> and \<open>gone\<close> are history variables that
  count the callables constructed and destroyed in functor storage. Copying and calling a callable do not throw.
\<close>

section \<open>Tables and functors\<close>

record ('c, 'a, 'r) vtable =
  vt_invoke :: "'c \<Rightarrow> 'a \<Rightarrow> 'r \<times> 'c"
  vt_move :: "'c \<Rightarrow> 'c \<times> 'c"
  vt_copy :: "('c \<Rightarrow> 'c) option"

record ('c, 'a, 'r) small_functor =
  fstorage :: "'c option"
  vptr :: "('c, 'a, 'r) vtable option"

record ('c, 'a, 'r) functors =
  cells :: "nat \<Rightarrow> ('c, 'a, 'r) small_functor"
  made :: nat
  gone :: nat

definition empty_small_functor :: "('c, 'a, 'r) small_functor" where
  "empty_small_functor = \<lparr>fstorage = None, vptr = None\<rparr>"

text \<open>
  \<^verbatim>\<open>vptr->move(src, dst); vptr->destroy(src)\<close>: the callable constructed in \<open>dst\<close>, and raw storage in
  \<open>src\<close>; one callable was constructed and one destroyed.
\<close>

definition relocate ::
  "('c, 'a, 'r) vtable \<Rightarrow> 'c option \<Rightarrow> 'c option \<Rightarrow> exn + 'c option \<times> 'c option" where
  "relocate vt src dst =
     (case src of
        None \<Rightarrow> Inl (Undefined ''no callable'')
      | Some x \<Rightarrow>
          (case dst of
             Some _ \<Rightarrow> Inl (Undefined ''storage in use'')
           | None \<Rightarrow> Inr (None, Some (fst (vt_move vt x)))))"

definition relocate_if ::
  "('c, 'a, 'r) vtable option \<Rightarrow> 'c option \<Rightarrow> 'c option \<Rightarrow> exn + 'c option \<times> 'c option" where
  "relocate_if vp src dst = (case vp of None \<Rightarrow> Inr (src, dst) | Some vt \<Rightarrow> relocate vt src dst)"

definition moves_of :: "('c, 'a, 'r) vtable option \<Rightarrow> nat" where
  "moves_of vp = (if vp = None then 0 else 1)"

section \<open>Operations\<close>

definition functor_swap ::
  "nat \<Rightarrow> nat \<Rightarrow> ('c, 'a, 'r) functors \<Rightarrow> exn + ('c, 'a, 'r) functors" where
  "functor_swap lhs rhs st =
     (if lhs = rhs then Inr st
      else let l = cells st lhs; r = cells st rhs;
               n = 2 * moves_of (vptr l) + moves_of (vptr r) in
           case relocate_if (vptr l) (fstorage l) None of
             Inl x \<Rightarrow> Inl x
           | Inr (ls, temp) \<Rightarrow>
               (case relocate_if (vptr r) (fstorage r) ls of
                  Inl x \<Rightarrow> Inl x
                | Inr (rs, ls') \<Rightarrow>
                    (case relocate_if (vptr l) temp rs of
                       Inl x \<Rightarrow> Inl x
                     | Inr (_, rs') \<Rightarrow>
                         Inr (st\<lparr>cells := (cells st)(lhs := \<lparr>fstorage = ls', vptr = vptr r\<rparr>,
                                  rhs := \<lparr>fstorage = rs', vptr = vptr l\<rparr>),
                                made := made st + n, gone := gone st + n\<rparr>))))"

text \<open>Construction from a callable of a type with table \<open>vt\<close>.\<close>

definition functor_make ::
  "('c, 'a, 'r) vtable \<Rightarrow> 'c \<Rightarrow> nat \<Rightarrow> ('c, 'a, 'r) functors \<Rightarrow> ('c, 'a, 'r) functors" where
  "functor_make vt callable this st =
     st\<lparr>cells := (cells st)(this := \<lparr>fstorage = Some callable, vptr = Some vt\<rparr>), made := made st + 1\<rparr>"

definition functor_copy ::
  "bool \<Rightarrow> nat \<Rightarrow> nat \<Rightarrow> ('c, 'a, 'r) functors \<Rightarrow> exn + ('c, 'a, 'r) functors" where
  "functor_copy ndebug this other st =
     (let st0 = st\<lparr>cells := (cells st)(this := empty_small_functor)\<rparr>; src = cells st other in
      case vptr src of
        None \<Rightarrow> Inr st0
      | Some vt \<Rightarrow>
          (case vt_copy vt of
             None \<Rightarrow> if ndebug then Inr st0 else Inl Assertion_failed
           | Some copy \<Rightarrow>
               (case fstorage src of
                  None \<Rightarrow> Inl (Undefined ''no callable'')
                | Some x \<Rightarrow> Inr (st0\<lparr>cells := (cells st0)(this := \<lparr>fstorage = Some (copy x), vptr = Some vt\<rparr>),
                                    made := made st0 + 1\<rparr>))))"

definition functor_move :: "nat \<Rightarrow> nat \<Rightarrow> ('c, 'a, 'r) functors \<Rightarrow> exn + ('c, 'a, 'r) functors" where
  "functor_move this other st =
     functor_swap this other (st\<lparr>cells := (cells st)(this := empty_small_functor)\<rparr>)"

definition functor_destroy :: "nat \<Rightarrow> ('c, 'a, 'r) functors \<Rightarrow> exn + ('c, 'a, 'r) functors" where
  "functor_destroy this st =
     (case vptr (cells st this) of
        None \<Rightarrow> Inr st
      | Some vt \<Rightarrow>
          (case fstorage (cells st this) of
             None \<Rightarrow> Inl (Undefined ''no callable'')
           | Some x \<Rightarrow> Inr (st\<lparr>cells := (cells st)(this := (cells st this)\<lparr>fstorage := None\<rparr>),
                              gone := gone st + 1\<rparr>)))"

text \<open>\<open>tmp\<close> is the local of the copy assignment.\<close>

definition functor_copy_assign ::
  "bool \<Rightarrow> nat \<Rightarrow> nat \<Rightarrow> nat \<Rightarrow> ('c, 'a, 'r) functors \<Rightarrow> exn + ('c, 'a, 'r) functors" where
  "functor_copy_assign ndebug tmp this other st =
     (if this = other then Inr st
      else case functor_copy ndebug tmp other st of
             Inl x \<Rightarrow> Inl x
           | Inr st1 \<Rightarrow>
               (case functor_swap this tmp st1 of
                  Inl x \<Rightarrow> Inl x
                | Inr st2 \<Rightarrow> functor_destroy tmp st2))"

definition functor_move_assign :: "nat \<Rightarrow> nat \<Rightarrow> ('c, 'a, 'r) functors \<Rightarrow> exn + ('c, 'a, 'r) functors" where
  "functor_move_assign this other st = functor_swap this other st"

definition functor_bool :: "('c, 'a, 'r) small_functor \<Rightarrow> bool" where
  "functor_bool f \<longleftrightarrow> vptr f \<noteq> None"

definition functor_call ::
  "nat \<Rightarrow> 'a \<Rightarrow> ('c, 'a, 'r) functors \<Rightarrow> (exn + 'r) \<times> ('c, 'a, 'r) functors" where
  "functor_call this a st =
     (case vptr (cells st this) of
        None \<Rightarrow> (Inl (Undefined ''empty functor''), st)
      | Some vt \<Rightarrow>
          (case fstorage (cells st this) of
             None \<Rightarrow> (Inl (Undefined ''no callable''), st)
           | Some x \<Rightarrow>
               (case vt_invoke vt x a of (r, x') \<Rightarrow>
                  (Inr r, st\<lparr>cells := (cells st)(this := (cells st this)\<lparr>fstorage := Some x'\<rparr>)\<rparr>))))"

section \<open>Well-formed functors\<close>

text \<open>A functor has a table exactly when its storage holds a callable, whose moves keep its value.\<close>

definition functor_wf :: "('c, 'a, 'r) small_functor \<Rightarrow> bool" where
  "functor_wf f \<longleftrightarrow>
     (case vptr f of
        None \<Rightarrow> fstorage f = None
      | Some vt \<Rightarrow> fstorage f \<noteq> None \<and> (\<forall>x. fst (vt_move vt x) = x))"

lemma functor_wf_cases:
  assumes "functor_wf f"
  obtains "f = empty_small_functor"
  | vt x where "f = \<lparr>fstorage = Some x, vptr = Some vt\<rparr>" "\<And>y. fst (vt_move vt y) = y"
  using assms by (cases f; cases "vptr f"; cases "fstorage f")
    (auto simp: functor_wf_def empty_small_functor_def)

text \<open>How many callables a swap constructs, and destroys.\<close>

definition swap_moves :: "('c, 'a, 'r) small_functor \<Rightarrow> ('c, 'a, 'r) small_functor \<Rightarrow> nat" where
  "swap_moves l r = 2 * moves_of (vptr l) + moves_of (vptr r)"

lemma swap_exchanges:
  assumes "functor_wf (cells st l)" and "functor_wf (cells st r)" and "l \<noteq> r"
  shows "functor_swap l r st = Inr (st\<lparr>cells := (cells st)(l := cells st r, r := cells st l),
    made := made st + swap_moves (cells st l) (cells st r),
    gone := gone st + swap_moves (cells st l) (cells st r)\<rparr>)"
  using assms
  by (elim functor_wf_cases)
    (simp_all add: functor_swap_def relocate_if_def relocate_def moves_of_def swap_moves_def
      empty_small_functor_def Let_def)

lemma empty_functor_wf [simp]: "functor_wf empty_small_functor"
  by (simp add: functor_wf_def empty_small_functor_def)

section \<open>Properties\<close>

text \<open>
  Swapping exchanges two functors of any callable types, empty ones included, without touching raw
  storage or constructing over a live callable; it constructs as many callables as it destroys. Moving
  and move-assigning are swaps, so move construction leaves the source empty and move assignment leaves
  it with what the target held. Calling a functor after it was moved gives what calling the source gave
  before, and calling the emptied source is undefined.
\<close>

theorem functor_moves:
  assumes "functor_wf (cells st this)" and "functor_wf (cells st other)" and "this \<noteq> other"
  shows "\<exists>n m st'.
    functor_move_assign this other st = Inr (st\<lparr>
      cells := (cells st)(this := cells st other, other := cells st this), made := made st + n, gone := gone st + n\<rparr>) \<and>
    functor_move this other st = Inr st' \<and>
    st' = st\<lparr>cells := (cells st)(this := cells st other, other := empty_small_functor),
      made := made st + m, gone := gone st + m\<rparr> \<and>
    fst (functor_call this a st') = fst (functor_call other a st) \<and>
    fst (functor_call other a st') = Inl (Undefined ''empty functor'')"
proof -
  let ?st = "st\<lparr>cells := (cells st)(this := empty_small_functor)\<rparr>"
  let ?m = "swap_moves empty_small_functor (cells st other)"
  let ?st' = "st\<lparr>cells := (cells st)(this := cells st other, other := empty_small_functor),
      made := made st + ?m, gone := gone st + ?m\<rparr>"
  have "functor_move this other st = Inr ?st'"
    using swap_exchanges [of ?st this other] assms by (simp add: functor_move_def)
  moreover have "fst (functor_call this a ?st') = fst (functor_call other a st)"
    using assms(3) by (simp add: functor_call_def split: option.splits prod.splits)
  moreover have "fst (functor_call other a ?st') = Inl (Undefined ''empty functor'')"
    by (simp add: functor_call_def empty_small_functor_def)
  ultimately show ?thesis
    using swap_exchanges [OF assms] unfolding functor_move_assign_def by blast
qed

text \<open>The table of functions from numbers to numbers, and a state in which functor 3 adds five.\<close>

definition number_vtable :: "(nat \<Rightarrow> nat, nat, nat) vtable" where
  "number_vtable = \<lparr>vt_invoke = (\<lambda>f n. (f n, f)), vt_move = (\<lambda>f. (f, f)), vt_copy = Some (\<lambda>f. f)\<rparr>"

definition adder_state :: "(nat \<Rightarrow> nat, nat, nat) functors" where
  "adder_state = functor_make number_vtable (\<lambda>n. n + 5) 3 \<lparr>cells = (\<lambda>_. empty_small_functor), made = 0, gone = 0\<rparr>"

lemma adder_state_cells:
  "cells adder_state 3 = \<lparr>fstorage = Some (\<lambda>n. n + 5), vptr = Some number_vtable\<rparr>"
  "i \<noteq> 3 \<Longrightarrow> cells adder_state i = empty_small_functor"
  "functor_wf (cells adder_state i)"
  by (auto simp: adder_state_def functor_make_def functor_wf_def number_vtable_def empty_small_functor_def)

theorem functor_moves_witness:
  "\<exists>st'. functor_move 2 3 adder_state = Inr st' \<and> fst (functor_call 2 4 st') = Inr 9 \<and>
     fst (functor_call 3 4 st') = Inl (Undefined ''empty functor'')"
proof -
  have "fst (functor_call 3 4 adder_state) = Inr 9"
    by (simp add: functor_call_def adder_state_cells) (simp add: number_vtable_def)
  with functor_moves [of adder_state 2 3 4] adder_state_cells(3) show ?thesis by auto
qed

lemma copy_assign_eq:
  assumes "functor_copy ndebug tmp other st = Inr st1" and "functor_wf (cells st1 tmp)"
    and "functor_wf (cells st1 this)" and "tmp \<noteq> this" and "this \<noteq> other"
  shows "functor_copy_assign ndebug tmp this other st = functor_destroy tmp
    (st1\<lparr>cells := (cells st1)(this := cells st1 tmp, tmp := cells st1 this),
      made := made st1 + swap_moves (cells st1 this) (cells st1 tmp),
      gone := gone st1 + swap_moves (cells st1 this) (cells st1 tmp)\<rparr>)"
  using assms swap_exchanges [OF assms(3,2)] by (simp add: functor_copy_assign_def)

lemma copy_assign_copied:
  assumes "functor_copy ndebug tmp other st =
      Inr (st\<lparr>cells := (cells st)(tmp := copied), made := made st + n\<rparr>)"
    and "functor_wf (cells st this)" and "functor_wf copied" and "distinct [tmp, this, other]"
  shows "\<exists>st'. functor_copy_assign ndebug tmp this other st = Inr st' \<and>
    cells st' this = copied \<and> cells st' other = cells st other \<and> fstorage (cells st' tmp) = None \<and>
    int (made st') - int (gone st') =
      int (made st) - int (gone st) + int n - (if functor_bool (cells st this) then 1 else 0)"
  using assms(2)
proof (cases rule: functor_wf_cases)
  case 1
  then show ?thesis
    using copy_assign_eq [OF assms(1), of this] assms
    by (simp add: functor_destroy_def functor_bool_def empty_small_functor_def)
next
  case (2 vt x)
  then show ?thesis
    using copy_assign_eq [OF assms(1), of this] assms
    by (simp add: functor_destroy_def functor_bool_def)
qed

text \<open>
  (C40) Copy assignment. A copyable callable is copied into the target and the source is unchanged; the
  callable the target held is destroyed, so that the number of live callables changes by exactly what
  the two functors say. Assigning from an empty functor empties the target. A callable without a copy
  constructor stops a debug build at an assertion; in a release build the assignment silently empties
  the target.
\<close>

theorem functor_copy_assignment:
  assumes "functor_wf (cells st this)" and "functor_wf (cells st other)"
    and "distinct [tmp, this, other]"
  shows "case vptr (cells st other) of
      Some vt \<Rightarrow>
        (case vt_copy vt of
           Some copy \<Rightarrow> \<exists>st'. functor_copy_assign ndebug tmp this other st = Inr st' \<and>
             cells st' this = \<lparr>fstorage = map_option copy (fstorage (cells st other)), vptr = Some vt\<rparr> \<and>
             cells st' other = cells st other \<and> fstorage (cells st' tmp) = None \<and>
             int (made st') - int (gone st') =
               int (made st) - int (gone st) + 1 - (if functor_bool (cells st this) then 1 else 0)
         | None \<Rightarrow> (\<not> ndebug \<longrightarrow> functor_copy_assign ndebug tmp this other st = Inl Assertion_failed) \<and>
             (ndebug \<longrightarrow> (\<exists>st'. functor_copy_assign ndebug tmp this other st = Inr st' \<and>
                cells st' this = empty_small_functor \<and> cells st' other = cells st other)))
    | None \<Rightarrow> \<exists>st'. functor_copy_assign ndebug tmp this other st = Inr st' \<and>
        cells st' this = empty_small_functor \<and> cells st' other = cells st other \<and>
        int (made st') - int (gone st') = int (made st) - int (gone st) - (if functor_bool (cells st this) then 1 else 0)"
proof (cases "vptr (cells st other)")
  case None
  then have "functor_copy ndebug tmp other st =
      Inr (st\<lparr>cells := (cells st)(tmp := empty_small_functor), made := made st + 0\<rparr>)"
    by (simp add: functor_copy_def)
  from copy_assign_copied [OF this assms(1) empty_functor_wf assms(3)] None show ?thesis by auto
next
  case (Some vt)
  then obtain x where x: "fstorage (cells st other) = Some x" "\<And>y. fst (vt_move vt y) = y"
    using assms(2) by (auto simp: functor_wf_def)
  show ?thesis
  proof (cases "vt_copy vt")
    case None
    then have "functor_copy True tmp other st =
        Inr (st\<lparr>cells := (cells st)(tmp := empty_small_functor), made := made st + 0\<rparr>)"
      using Some by (simp add: functor_copy_def)
    from copy_assign_copied [OF this assms(1) empty_functor_wf assms(3)] Some None assms(3) show ?thesis
      by (cases ndebug) (auto simp: functor_copy_assign_def functor_copy_def)
  next
    case (Some copy)
    let ?c = "\<lparr>fstorage = Some (copy x), vptr = Some vt\<rparr>"
    have "functor_copy ndebug tmp other st = Inr (st\<lparr>cells := (cells st)(tmp := ?c), made := made st + 1\<rparr>)"
      using \<open>vptr (cells st other) = Some vt\<close> Some x by (simp add: functor_copy_def Let_def)
    from copy_assign_copied [OF this assms(1) _ assms(3)] \<open>vptr (cells st other) = Some vt\<close> Some x
    show ?thesis by (simp add: functor_wf_def)
  qed
qed

theorem functor_copy_assignment_witness:
  "\<exists>st'. functor_copy_assign False 4 2 3 adder_state = Inr st' \<and>
     cells st' 2 = cells adder_state 3 \<and> cells st' 3 = cells adder_state 3 \<and>
     int (made st') - int (gone st') = int (made adder_state) - int (gone adder_state) + 1"
proof -
  have "vptr (cells adder_state 3) = Some number_vtable" "vt_copy number_vtable = Some (\<lambda>f. f)"
    "\<not> functor_bool (cells adder_state 2)"
    by (simp_all add: adder_state_cells(1,2) functor_bool_def)
      (simp_all add: number_vtable_def empty_small_functor_def)
  with functor_copy_assignment [OF adder_state_cells(3) adder_state_cells(3), of 4 2 3 False]
  show ?thesis by (auto simp: adder_state_cells(1))
qed

end
