(* ===== verification/Task_Queue.thy ===== *)
theory Task_Queue
  imports Prelude
begin

text \<open>
  The intrusive task queue of \<^verbatim>\<open>include/io/execution/multiplexer.hpp\<close>, on an explicit heap.

  A task is identified by its address; the heap holds its \<^verbatim>\<open>next\<close> pointer and its \<^verbatim>\<open>tail\<close> variant.
  A queue is the address of its sentinel \<^verbatim>\<open>head_\<close>. The operations are \<^verbatim>\<open>noexcept\<close> and read the
  variant with \<^verbatim>\<open>std::get\<close>: reading the wrong alternative ends in \<^verbatim>\<open>std::terminate\<close>, which is \<open>None\<close>
  here. \<open>queue_rep\<close> relates a sentinel to the list of tasks queued on it. The locale
  \<open>fifo_queue\<close> is the contract of the queue, with the ownership of the nodes made explicit; its
  client lemmas lift the contract to a family of queues that share one heap, which is how the
  multiplexer uses them (one read and one write queue per descriptor, and local ready queues).
\<close>

section \<open>Heap and operations\<close>

type_synonym addr = nat

text \<open>\<^verbatim>\<open>std::variant<task *, void (*)(task *) noexcept>\<close>: a tail pointer or a completion function.\<close>

datatype tail_variant = Tail_ptr addr | Tail_fn

record qheap =
  next_of :: "addr \<Rightarrow> addr"
  tail_of :: "addr \<Rightarrow> tail_variant"

fun get0 :: "tail_variant \<Rightarrow> addr option" where
  "get0 (Tail_ptr a) = Some a"
| "get0 Tail_fn = None"

text \<open>\<^verbatim>\<open>task head_{.next = &head_, .tail = &head_}\<close>.\<close>

definition queue_init :: "addr \<Rightarrow> qheap \<Rightarrow> qheap" where
  "queue_init q h = h\<lparr>next_of := (next_of h)(q := q), tail_of := (tail_of h)(q := Tail_ptr q)\<rparr>"

definition is_empty :: "addr \<Rightarrow> qheap \<Rightarrow> bool option" where
  "is_empty q h = map_option (\<lambda>t. t = q) (get0 (tail_of h q))"

definition push :: "addr \<Rightarrow> addr \<Rightarrow> qheap \<Rightarrow> qheap option" where
  "push q t h =
     (let h1 = h\<lparr>next_of := (next_of h)(t := q)\<rparr>
      in case get0 (tail_of h1 q) of
           None \<Rightarrow> None
         | Some p \<Rightarrow>
             (let h2 = h1\<lparr>next_of := (next_of h1)(p := t)\<rparr>
              in Some (h2\<lparr>tail_of := (tail_of h2)(q := Tail_ptr t)\<rparr>)))"

text \<open>
  \<^verbatim>\<open>this->move_back(std::move(other))\<close>: splice the nodes of \<open>p\<close> (\<^verbatim>\<open>other\<close>) behind those of \<open>q\<close>
  (\<^verbatim>\<open>*this\<close>) and reset \<open>p\<close>.
\<close>

definition move_back :: "addr \<Rightarrow> addr \<Rightarrow> qheap \<Rightarrow> qheap option" where
  "move_back q p h =
     (case is_empty p h of
        None \<Rightarrow> None
      | Some True \<Rightarrow> Some h
      | Some False \<Rightarrow>
          (case (get0 (tail_of h p), get0 (tail_of h q)) of
             (Some pt, Some qt) \<Rightarrow>
               (let h1 = h\<lparr>next_of := (next_of h)(pt := next_of h qt)\<rparr>;
                    h2 = h1\<lparr>next_of := (next_of h1)(qt := next_of h1 p)\<rparr>;
                    h3 = h2\<lparr>tail_of := (tail_of h2)(q := tail_of h2 p)\<rparr>;
                    h4 = h3\<lparr>tail_of := (tail_of h3)(p := Tail_ptr p)\<rparr>
                in Some (h4\<lparr>next_of := (next_of h4)(p := p)\<rparr>))
           | _ \<Rightarrow> None))"

definition pop :: "addr \<Rightarrow> qheap \<Rightarrow> (addr \<times> qheap) option" where
  "pop q h =
     (case get0 (tail_of h q) of
        None \<Rightarrow> None
      | Some t \<Rightarrow>
          (let h1 = (if t = next_of h q then h\<lparr>tail_of := (tail_of h)(q := Tail_ptr q)\<rparr> else h);
               r = next_of h1 q
           in Some (r, h1\<lparr>next_of := (next_of h1)(q := next_of h1 r)\<rparr>)))"

text \<open>
  \<^verbatim>\<open>task::execute\<close> calls the completion function in the variant; without one it terminates.
\<close>

definition execute :: "addr \<Rightarrow> qheap \<Rightarrow> unit option" where
  "execute t h = (case tail_of h t of Tail_fn \<Rightarrow> Some () | Tail_ptr _ \<Rightarrow> None)"

text \<open>
  \<^verbatim>\<open>run_queue\<close>: pop and execute until the queue is empty. The tasks executed are returned in
  order; a completion may destroy its own node, so nothing is read from a task after \<^verbatim>\<open>execute\<close>.
\<close>

partial_function (option) run_queue_heap :: "addr \<Rightarrow> qheap \<Rightarrow> (addr list \<times> qheap) option" where
  "run_queue_heap q h =
     Option.bind (is_empty q h) (\<lambda>e.
       if e then Some ([], h)
       else Option.bind (pop q h) (\<lambda>r.
              Option.bind (execute (fst r) (snd r)) (\<lambda>u.
                Option.bind (run_queue_heap q (snd r)) (\<lambda>rest.
                  Some (fst r # fst rest, snd rest)))))"

section \<open>Chains of next pointers\<close>

fun chain :: "(addr \<Rightarrow> addr) \<Rightarrow> addr \<Rightarrow> addr list \<Rightarrow> addr \<Rightarrow> bool" where
  "chain n a [] b \<longleftrightarrow> n a = b"
| "chain n a (x # xs) b \<longleftrightarrow> n a = x \<and> chain n x xs b"

text \<open>The nodes of a queue: its sentinel and its tasks.\<close>

definition nodes :: "addr \<Rightarrow> addr list \<Rightarrow> addr set" where
  "nodes q xs = insert q (set xs)"

definition queue_rep :: "qheap \<Rightarrow> addr \<Rightarrow> addr list \<Rightarrow> bool" where
  "queue_rep h q xs \<longleftrightarrow>
     distinct (q # xs) \<and> chain (next_of h) q xs q \<and> tail_of h q = Tail_ptr (last (q # xs))"

lemma chain_append:
  "chain n a (xs @ y # ys) b \<longleftrightarrow> chain n a xs y \<and> chain n y ys b"
  by (induction xs arbitrary: a) auto

lemma chain_cong:
  "(\<And>x. x \<in> insert a (set xs) \<Longrightarrow> n x = m x) \<Longrightarrow> chain n a xs b \<longleftrightarrow> chain m a xs b"
  by (induction xs arbitrary: a) auto

lemma chain_upd_other [simp]:
  "a \<noteq> p \<Longrightarrow> a \<notin> set xs \<Longrightarrow> chain (n(a := b)) p xs q \<longleftrightarrow> chain n p xs q"
  by (rule chain_cong) auto

lemma chain_upd_last:
  "distinct (a # xs) \<Longrightarrow> chain n a xs b \<Longrightarrow> chain (n(last (a # xs) := c)) a xs c"
proof (induction xs arbitrary: a)
  case (Cons x xs)
  have "chain (n(last (x # xs) := c)) x xs c"
    using Cons.prems by (intro Cons.IH) auto
  moreover have "last (x # xs) \<noteq> a"
    using Cons.prems(1) by (metis distinct.simps(2) last_in_set list.distinct(1))
  ultimately show ?case
    using Cons.prems(2) unfolding last.simps [of a] chain.simps
    by (simp only: fun_upd_other list.distinct if_False simp_thms not_sym)
qed simp

lemma chain_last: "chain n a xs b \<Longrightarrow> n (last (a # xs)) = b"
  by (induction xs arbitrary: a) (auto split: if_splits)

lemma chain_unique:
  "chain n a xs b \<Longrightarrow> chain n a ys b \<Longrightarrow> b \<notin> set xs \<Longrightarrow> b \<notin> set ys \<Longrightarrow> xs = ys"
proof (induction xs arbitrary: a ys)
  case Nil
  then show ?case by (cases ys) auto
next
  case (Cons x xs)
  then show ?case by (cases ys) auto
qed

lemma queue_rep_unique: "queue_rep h q xs \<Longrightarrow> queue_rep h q ys \<Longrightarrow> xs = ys"
  unfolding queue_rep_def by (auto dest: chain_unique)

text \<open>A queue only depends on its own nodes: the frame property of every operation below.\<close>

lemma queue_rep_frame:
  assumes "queue_rep h q xs"
    and "\<And>a. a \<in> nodes q xs \<Longrightarrow> next_of h' a = next_of h a"
    and "tail_of h' q = tail_of h q"
  shows "queue_rep h' q xs"
  using assms chain_cong [of q xs "next_of h'" "next_of h" q]
  by (auto simp: queue_rep_def nodes_def)

section \<open>Each operation against the list of queued tasks\<close>

lemma queue_rep_init: "queue_rep (queue_init q h) q []"
  by (simp add: queue_rep_def queue_init_def)

lemma is_empty_rep: "queue_rep h q xs \<Longrightarrow> is_empty q h = Some (xs = [])"
  by (cases xs rule: rev_cases) (auto simp: queue_rep_def is_empty_def)

lemma push_rep:
  assumes rep: "queue_rep h q xs" and t: "t \<notin> nodes q xs"
  shows "\<exists>h'. push q t h = Some h' \<and> queue_rep h' q (xs @ [t]) \<and>
    (\<forall>a. a \<notin> insert t (nodes q xs) \<longrightarrow> next_of h' a = next_of h a) \<and>
    (\<forall>a. a \<noteq> q \<longrightarrow> tail_of h' a = tail_of h a)"
proof -
  let ?p = "last (q # xs)"
  let ?n = "(next_of h)(t := q, ?p := t)"
  let ?h' = "h\<lparr>next_of := ?n, tail_of := (tail_of h)(q := Tail_ptr t)\<rparr>"
  have p: "?p \<in> nodes q xs" by (auto simp: nodes_def)
  with t have "?p \<noteq> t" by auto
  have "push q t h = Some ?h'"
    using rep by (simp add: push_def queue_rep_def Let_def)
  moreover have "queue_rep ?h' q (xs @ [t])"
  proof -
    have "chain ((next_of h)(t := q)) q xs q"
      using rep t by (auto simp: queue_rep_def nodes_def)
    then have "chain ?n q xs t"
      using rep by (intro chain_upd_last) (auto simp: queue_rep_def)
    with \<open>?p \<noteq> t\<close> rep t show ?thesis
      by (auto simp: queue_rep_def nodes_def chain_append [of _ _ xs t "[]", simplified])
  qed
  moreover have "\<forall>a. a \<notin> insert t (nodes q xs) \<longrightarrow> next_of ?h' a = next_of h a"
    using p by auto
  ultimately show ?thesis by (intro exI [of _ ?h']) simp
qed

lemma pop_rep:
  assumes rep: "queue_rep h q (x # xs)"
  shows "\<exists>h'. pop q h = Some (x, h') \<and> queue_rep h' q xs \<and>
    (\<forall>a. a \<noteq> q \<longrightarrow> next_of h' a = next_of h a \<and> tail_of h' a = tail_of h a)"
proof -
  let ?tl = "if xs = [] then (tail_of h)(q := Tail_ptr q) else tail_of h"
  let ?h' = "h\<lparr>next_of := (next_of h)(q := next_of h x), tail_of := ?tl\<rparr>"
  have nq: "next_of h q = x" and ch: "chain (next_of h) x xs q"
    and d: "distinct (q # x # xs)" and tl: "tail_of h q = Tail_ptr (last (x # xs))"
    using rep by (auto simp: queue_rep_def)
  have l: "last (x # xs) = x \<longleftrightarrow> xs = []"
    using d by (cases xs rule: rev_cases) auto
  have "pop q h = Some (x, ?h')"
    using nq tl l by (auto simp: pop_def Let_def)
  moreover have "chain ((next_of h)(q := next_of h x)) q xs q"
  proof (cases xs)
    case (Cons z zs)
    with ch d show ?thesis by auto
  qed (use ch in simp)
  then have "queue_rep ?h' q xs"
    using d tl by (auto simp: queue_rep_def)
  ultimately show ?thesis by (intro exI [of _ ?h']) simp
qed

lemma pop_empty: "queue_rep h q [] \<Longrightarrow> pop q h = Some (q, h)"
  by (cases h) (simp add: queue_rep_def pop_def fun_upd_idem)

lemma move_back_rep:
  assumes rq: "queue_rep h q xs" and rp: "queue_rep h p ys"
    and disj: "nodes q xs \<inter> nodes p ys = {}"
  shows "\<exists>h'. move_back q p h = Some h' \<and> queue_rep h' q (xs @ ys) \<and> queue_rep h' p [] \<and>
    (\<forall>a. a \<notin> nodes q xs \<union> nodes p ys \<longrightarrow> next_of h' a = next_of h a) \<and>
    (\<forall>a. a \<noteq> q \<and> a \<noteq> p \<longrightarrow> tail_of h' a = tail_of h a)"
proof (cases ys)
  case Nil
  then show ?thesis using rq rp is_empty_rep [OF rp] by (simp add: move_back_def)
next
  case (Cons y ys')
  let ?n = "next_of h"
  let ?qt = "last (q # xs)" and ?pt = "last (y # ys')"
  let ?n' = "?n(?pt := q, ?qt := y, p := p)"
  let ?h' = "h\<lparr>next_of := ?n', tail_of := (tail_of h)(q := Tail_ptr ?pt, p := Tail_ptr p)\<rparr>"
  have cq: "chain ?n q xs q" and dq: "distinct (q # xs)" and tq: "tail_of h q = Tail_ptr ?qt"
    using rq by (auto simp: queue_rep_def)
  have np: "?n p = y" and cp: "chain ?n y ys' p" and dp: "distinct (p # y # ys')"
    and tp: "tail_of h p = Tail_ptr ?pt"
    using rp Cons by (auto simp: queue_rep_def)
  have qt: "?qt \<in> nodes q xs" and pt: "?pt \<in> set ys"
    using Cons by (auto simp: nodes_def)
  have sep: "set (q # xs) \<inter> set (p # ys) = {}"
    using disj by (auto simp: nodes_def)
  have ptp: "?pt \<noteq> p" using dp by auto
  have "move_back q p h = Some ?h'"
    using np tq tp ptp chain_last [OF cq] sep qt pt is_empty_rep [OF rp] Cons
    by (auto simp: move_back_def Let_def nodes_def fun_upd_twist)
  moreover have "chain ?n' q (xs @ y # ys') q"
  proof -
    have "chain (?n(?qt := y)) q xs y"
      by (rule chain_upd_last [OF dq cq])
    then have 1: "chain ?n' q xs y"
      using sep pt Cons by (subst chain_cong [of q xs _ "?n(?qt := y)"]) auto
    have "chain (?n(?pt := q)) y ys' q"
      using dp by (intro chain_upd_last [OF _ cp]) auto
    then have "chain ?n' y ys' q"
      using sep qt dp Cons by (subst chain_cong [of y ys' _ "?n(?pt := q)"]) (auto simp: nodes_def)
    with 1 show ?thesis by (simp add: chain_append)
  qed
  then have "queue_rep ?h' q (xs @ ys)"
    using dq dp sep Cons by (auto simp: queue_rep_def)
  moreover have "queue_rep ?h' p []"
    using sep by (auto simp: queue_rep_def)
  moreover have "\<forall>a. a \<notin> nodes q xs \<union> nodes p ys \<longrightarrow> next_of ?h' a = next_of h a"
    using qt pt by (auto simp: nodes_def)
  ultimately show ?thesis by (intro exI [of _ ?h']) simp
qed

section \<open>The contract of a queue, and families of queues on one heap\<close>

text \<open>
  What an operation on the nodes \<open>A\<close> leaves alone: every queue that owns none of these nodes, and
  the completion functions of all nodes but the sentinels \<open>S\<close>.
\<close>

definition keeps_others ::
  "('h \<Rightarrow> 'a \<Rightarrow> 'a list \<Rightarrow> bool) \<Rightarrow> ('h \<Rightarrow> 'a \<Rightarrow> bool) \<Rightarrow> 'a set \<Rightarrow> 'a set \<Rightarrow> 'h \<Rightarrow> 'h \<Rightarrow> bool"
  where
  "keeps_others rep armed A S h h' \<longleftrightarrow>
     (\<forall>p ys. rep h p ys \<longrightarrow> insert p (set ys) \<inter> A = {} \<longrightarrow> rep h' p ys) \<and>
     (\<forall>a. a \<notin> S \<longrightarrow> armed h' a = armed h a)"

text \<open>The queues of a heap: a map from sentinels to contents, no node shared by two of them.\<close>

definition queue_family :: "('h \<Rightarrow> 'a \<Rightarrow> 'a list \<Rightarrow> bool) \<Rightarrow> 'h \<Rightarrow> ('a \<rightharpoonup> 'a list) \<Rightarrow> bool" where
  "queue_family rep h Q \<longleftrightarrow>
     (\<forall>q xs. Q q = Some xs \<longrightarrow> rep h q xs) \<and>
     (\<forall>q xs p ys. Q q = Some xs \<longrightarrow> Q p = Some ys \<longrightarrow> q \<noteq> p \<longrightarrow>
        insert q (set xs) \<inter> insert p (set ys) = {})"

definition family_nodes :: "('a \<rightharpoonup> 'a list) \<Rightarrow> 'a set" where
  "family_nodes Q = {a. \<exists>q xs. Q q = Some xs \<and> a \<in> insert q (set xs)}"

locale fifo_queue =
  fixes rep :: "'h \<Rightarrow> 'a \<Rightarrow> 'a list \<Rightarrow> bool"
    and armed :: "'h \<Rightarrow> 'a \<Rightarrow> bool"
    and emp :: "'a \<Rightarrow> 'h \<Rightarrow> bool option"
    and enq :: "'a \<Rightarrow> 'a \<Rightarrow> 'h \<Rightarrow> 'h option"
    and deq :: "'a \<Rightarrow> 'h \<Rightarrow> ('a \<times> 'h) option"
    and splice :: "'a \<Rightarrow> 'a \<Rightarrow> 'h \<Rightarrow> 'h option"
  assumes rep_distinct: "rep h q xs \<Longrightarrow> distinct (q # xs)"
    and emp_rep: "rep h q xs \<Longrightarrow> emp q h = Some (xs = [])"
    and enq_rep: "rep h q xs \<Longrightarrow> t \<notin> insert q (set xs) \<Longrightarrow>
      \<exists>h'. enq q t h = Some h' \<and> rep h' q (xs @ [t]) \<and>
        keeps_others rep armed (insert t (insert q (set xs))) {q} h h'"
    and deq_rep: "rep h q (x # xs) \<Longrightarrow>
      \<exists>h'. deq q h = Some (x, h') \<and> rep h' q xs \<and> keeps_others rep armed {q} {q} h h'"
    and splice_rep: "rep h q xs \<Longrightarrow> rep h p ys \<Longrightarrow>
      insert q (set xs) \<inter> insert p (set ys) = {} \<Longrightarrow>
      \<exists>h'. splice q p h = Some h' \<and> rep h' q (xs @ ys) \<and> rep h' p [] \<and>
        keeps_others rep armed (insert q (set xs) \<union> insert p (set ys)) {q, p} h h'"
begin

lemma family_update:
  assumes fam: "queue_family rep h Q"
    and keep: "keeps_others rep armed A S h h'"
    and new: "\<And>q xs. R q = Some xs \<Longrightarrow> rep h' q xs"
    and own: "\<And>q xs. R q = Some xs \<Longrightarrow> insert q (set xs) \<subseteq> A"
    and outside: "\<And>q xs. Q q = Some xs \<Longrightarrow> R q = None \<Longrightarrow> insert q (set xs) \<inter> A = {}"
    and disj: "\<And>q xs p ys. R q = Some xs \<Longrightarrow> R p = Some ys \<Longrightarrow> q \<noteq> p \<Longrightarrow>
      insert q (set xs) \<inter> insert p (set ys) = {}"
  shows "queue_family rep h' (Q ++ R)"
  unfolding queue_family_def
proof (intro conjI allI impI)
  fix q xs assume q: "(Q ++ R) q = Some xs"
  show "rep h' q xs"
  proof (cases "R q")
    case None
    with q have "Q q = Some xs" by (simp add: map_add_def)
    with None fam keep outside show ?thesis
      by (auto simp: queue_family_def keeps_others_def)
  qed (use q new in \<open>auto simp: map_add_def\<close>)
next
  fix q xs p ys
  assume q: "(Q ++ R) q = Some xs" and p: "(Q ++ R) p = Some ys" and "q \<noteq> p"
  show "insert q (set xs) \<inter> insert p (set ys) = {}"
  proof (cases "R q"; cases "R p")
    assume "R q = None" "R p = None"
    with q p \<open>q \<noteq> p\<close> fam show ?thesis
      by (auto simp: queue_family_def map_add_def)
  next
    fix ys' assume "R q = None" "R p = Some ys'"
    with q p outside [of q xs] own [of p ys'] show ?thesis by (auto simp: map_add_def)
  next
    fix xs' assume "R q = Some xs'" "R p = None"
    with q p outside [of p ys] own [of q xs'] show ?thesis by (auto simp: map_add_def)
  next
    fix xs' ys' assume "R q = Some xs'" "R p = Some ys'"
    with q p \<open>q \<noteq> p\<close> disj [of q xs' p ys'] show ?thesis by (auto simp: map_add_def)
  qed
qed

lemma family_enq:
  assumes fam: "queue_family rep h Q" and q: "Q q = Some xs" and t: "t \<notin> family_nodes Q"
  shows "\<exists>h'. enq q t h = Some h' \<and> queue_family rep h' (Q(q \<mapsto> xs @ [t])) \<and>
    (\<forall>a. a \<noteq> q \<longrightarrow> armed h' a = armed h a)"
proof -
  have "rep h q xs" and "t \<notin> insert q (set xs)"
    using fam q t by (auto simp: queue_family_def family_nodes_def)
  from enq_rep [OF this] obtain h' where h': "enq q t h = Some h'" "rep h' q (xs @ [t])"
    and keep: "keeps_others rep armed (insert t (insert q (set xs))) {q} h h'" by blast
  have out: "insert p (set ys) \<inter> insert t (insert q (set xs)) = {}"
    if "Q p = Some ys" "p \<noteq> q" for p ys
  proof -
    have "insert q (set xs) \<inter> insert p (set ys) = {}"
      using fam q that by (metis queue_family_def)
    moreover have "t \<notin> insert p (set ys)"
      using that t by (auto simp: family_nodes_def)
    ultimately show ?thesis by blast
  qed
  have "queue_family rep h' (Q ++ [q \<mapsto> xs @ [t]])"
    by (rule family_update [OF fam keep]) (use h' out in \<open>auto split: if_splits\<close>)
  moreover have "\<forall>a. a \<noteq> q \<longrightarrow> armed h' a = armed h a"
    using keep by (simp add: keeps_others_def)
  ultimately show ?thesis using h' by simp
qed

lemma family_deq:
  assumes fam: "queue_family rep h Q" and q: "Q q = Some (x # xs)"
  shows "\<exists>h'. deq q h = Some (x, h') \<and> queue_family rep h' (Q(q \<mapsto> xs)) \<and>
    (\<forall>a. a \<noteq> q \<longrightarrow> armed h' a = armed h a)"
proof -
  have rep: "rep h q (x # xs)" using fam q by (simp add: queue_family_def)
  from deq_rep [OF this] obtain h' where h': "deq q h = Some (x, h')" "rep h' q xs"
    and keep: "keeps_others rep armed {q} {q} h h'" by blast
  have out: "insert p (set ys) \<inter> insert q (set (x # xs)) = {}" if "Q p = Some ys" "p \<noteq> q" for p ys
    using fam q that unfolding queue_family_def by blast
  have keep': "keeps_others rep armed (insert q (set (x # xs))) {q} h h'"
    using keep by (auto simp: keeps_others_def)
  have "queue_family rep h' (Q ++ [q \<mapsto> xs])"
    by (rule family_update [OF fam keep']) (use h' out in \<open>auto split: if_splits\<close>)
  moreover have "\<forall>a. a \<noteq> q \<longrightarrow> armed h' a = armed h a"
    using keep by (simp add: keeps_others_def)
  ultimately show ?thesis using h' by simp
qed

lemma family_splice:
  assumes fam: "queue_family rep h Q" and q: "Q q = Some xs" and p: "Q p = Some ys" and "q \<noteq> p"
  shows "\<exists>h'. splice q p h = Some h' \<and> queue_family rep h' (Q(q \<mapsto> xs @ ys, p \<mapsto> [])) \<and>
    (\<forall>a. a \<noteq> q \<and> a \<noteq> p \<longrightarrow> armed h' a = armed h a)"
proof -
  have reps: "rep h q xs" "rep h p ys" and sep: "insert q (set xs) \<inter> insert p (set ys) = {}"
    using fam q p \<open>q \<noteq> p\<close> unfolding queue_family_def by blast+
  from splice_rep [OF reps sep] obtain h' where
      h': "splice q p h = Some h'" "rep h' q (xs @ ys)" "rep h' p []"
    and keep: "keeps_others rep armed (insert q (set xs) \<union> insert p (set ys)) {q, p} h h'"
    by blast
  have out: "insert r (set zs) \<inter> (insert q (set xs) \<union> insert p (set ys)) = {}"
    if "Q r = Some zs" "r \<noteq> q" "r \<noteq> p" for r zs
    using fam q p that unfolding queue_family_def by blast
  have "queue_family rep h' (Q ++ [q \<mapsto> xs @ ys, p \<mapsto> []])"
    by (rule family_update [OF fam keep])
      (use h' out sep \<open>q \<noteq> p\<close> rep_distinct [OF reps(2)] in \<open>auto split: if_splits\<close>)
  moreover have "\<forall>a. a \<noteq> q \<and> a \<noteq> p \<longrightarrow> armed h' a = armed h a"
    using keep by (simp add: keeps_others_def)
  ultimately show ?thesis using h' by simp
qed

end

text \<open>A runner: it empties a queue, executing each task after it was taken off.\<close>

locale queue_runner = fifo_queue rep armed emp enq deq splice
  for rep :: "'h \<Rightarrow> 'a \<Rightarrow> 'a list \<Rightarrow> bool" and armed emp enq deq splice +
  fixes exec :: "'a \<Rightarrow> 'h \<Rightarrow> unit option"
    and run :: "'a \<Rightarrow> 'h \<Rightarrow> ('a list \<times> 'h) option"
  assumes exec_armed: "armed h t \<Longrightarrow> exec t h = Some ()"
    and run_unfold: "run q h =
     Option.bind (emp q h) (\<lambda>e.
       if e then Some ([], h)
       else Option.bind (deq q h) (\<lambda>r.
              Option.bind (exec (fst r) (snd r)) (\<lambda>u.
                Option.bind (run q (snd r)) (\<lambda>rest.
                  Some (fst r # fst rest, snd rest)))))"
begin

lemma run_drains:
  assumes "queue_family rep h Q" and "Q q = Some xs" and "\<forall>t \<in> set xs. armed h t"
  shows "\<exists>h'. run q h = Some (xs, h') \<and> queue_family rep h' (Q(q \<mapsto> []))"
  using assms
proof (induction xs arbitrary: h Q)
  case Nil
  then have "rep h q []" by (simp add: queue_family_def)
  then have "emp q h = Some True" by (simp add: emp_rep)
  with Nil show ?case by (subst run_unfold) (simp add: fun_upd_idem)
next
  case (Cons x xs)
  from family_deq [OF Cons.prems(1,2)] obtain h1 where
    h1: "deq q h = Some (x, h1)" "queue_family rep h1 (Q(q \<mapsto> xs))"
    "\<forall>a. a \<noteq> q \<longrightarrow> armed h1 a = armed h a" by blast
  have rep: "rep h q (x # xs)" using Cons.prems(1,2) by (simp add: queue_family_def)
  from rep_distinct [OF rep] have armed1: "\<forall>t \<in> set (x # xs). armed h1 t"
    using h1(3) Cons.prems(3) by auto
  then have "\<exists>h'. run q h1 = Some (xs, h') \<and> queue_family rep h' ((Q(q \<mapsto> xs))(q \<mapsto> []))"
    by (intro Cons.IH [OF h1(2)]) auto
  with h1 emp_rep [OF rep] exec_armed [of h1 x] armed1 show ?case
    by (subst run_unfold) auto
qed

end

definition has_completion :: "qheap \<Rightarrow> addr \<Rightarrow> bool" where
  "has_completion h t \<longleftrightarrow> tail_of h t = Tail_fn"

lemma keeps_othersI:
  assumes "\<forall>a. a \<notin> A \<longrightarrow> next_of h' a = next_of h a"
    and "\<forall>a. a \<notin> S \<longrightarrow> tail_of h' a = tail_of h a" and "S \<subseteq> A"
  shows "keeps_others queue_rep has_completion A S h h'"
  unfolding keeps_others_def
proof (intro conjI allI impI)
  fix p ys assume "queue_rep h p ys" "insert p (set ys) \<inter> A = {}"
  then show "queue_rep h' p ys"
    using assms by (intro queue_rep_frame [of h p ys h']) (auto simp: nodes_def)
qed (use assms in \<open>auto simp: has_completion_def\<close>)

interpretation intrusive: queue_runner queue_rep has_completion is_empty push pop move_back
  execute run_queue_heap
proof unfold_locales
  fix h :: qheap and q xs t
  assume "queue_rep h q xs" and "t \<notin> insert q (set xs)"
  with push_rep [of h q xs t]
  show "\<exists>h'. push q t h = Some h' \<and> queue_rep h' q (xs @ [t]) \<and>
      keeps_others queue_rep has_completion (insert t (insert q (set xs))) {q} h h'"
    by (auto simp: nodes_def intro!: keeps_othersI)
next
  fix h :: qheap and q x xs
  assume "queue_rep h q (x # xs)"
  with pop_rep [of h q x xs]
  show "\<exists>h'. pop q h = Some (x, h') \<and> queue_rep h' q xs \<and>
      keeps_others queue_rep has_completion {q} {q} h h'"
    by (auto intro!: keeps_othersI)
next
  fix h :: qheap and q xs p ys
  assume "queue_rep h q xs" and "queue_rep h p ys" and "insert q (set xs) \<inter> insert p (set ys) = {}"
  with move_back_rep [of h q xs p ys]
  show "\<exists>h'. move_back q p h = Some h' \<and> queue_rep h' q (xs @ ys) \<and> queue_rep h' p [] \<and>
      keeps_others queue_rep has_completion (insert q (set xs) \<union> insert p (set ys)) {q, p} h h'"
    by (auto simp: nodes_def intro!: keeps_othersI)
next
  fix q :: addr and h :: qheap
  show "run_queue_heap q h =
     Option.bind (is_empty q h) (\<lambda>e.
       if e then Some ([], h)
       else Option.bind (pop q h) (\<lambda>r.
              Option.bind (execute (fst r) (snd r)) (\<lambda>u.
                Option.bind (run_queue_heap q (snd r)) (\<lambda>rest.
                  Some (fst r # fst rest, snd rest)))))"
    by (rule run_queue_heap.simps)
qed (auto simp: queue_rep_def is_empty_rep execute_def has_completion_def)

section \<open>Properties\<close>

text \<open>
  \<^verbatim>\<open>push\<close> never terminates the program and puts the task at the back of its queue, leaving every
  other queue of the heap as it was.
\<close>

theorem push_appends:
  assumes "queue_family queue_rep h Q" and "Q q = Some xs" and "t \<notin> family_nodes Q"
  shows "\<exists>h'. push q t h = Some h' \<and> queue_family queue_rep h' (Q(q \<mapsto> xs @ [t]))"
  using intrusive.family_enq [OF assms] by blast

text \<open>
  \<^verbatim>\<open>pop\<close> takes the oldest task off a non-empty queue and leaves every other queue as it was; on an
  empty queue it changes nothing and returns the address of the sentinel itself, so a caller has to
  ask \<^verbatim>\<open>is_empty\<close> first.
\<close>

theorem pop_takes_oldest:
  assumes "queue_family queue_rep h Q" and "Q q = Some xs"
  shows "case xs of
      [] \<Rightarrow> pop q h = Some (q, h)
    | x # ys \<Rightarrow> \<exists>h'. pop q h = Some (x, h') \<and> queue_family queue_rep h' (Q(q \<mapsto> ys))"
proof (cases xs)
  case Nil
  with assms show ?thesis by (simp add: queue_family_def pop_empty)
next
  case (Cons x ys)
  with assms intrusive.family_deq [of h Q q x ys] show ?thesis by auto
qed

text \<open>
  \<^verbatim>\<open>move_back\<close> appends all tasks of another queue in their order and leaves that queue empty and
  usable, whether it held tasks or not.
\<close>

theorem move_back_concatenates:
  assumes "queue_family queue_rep h Q" and "Q q = Some xs" and "Q p = Some ys" and "q \<noteq> p"
  shows "\<exists>h'. move_back q p h = Some h' \<and>
    queue_family queue_rep h' (Q(q \<mapsto> xs @ ys, p \<mapsto> []))"
  using intrusive.family_splice [OF assms] by blast

text \<open>
  (C26) \<^verbatim>\<open>run_queue\<close> always returns on a well-formed queue whose tasks hold completion functions: it
  executes exactly the queued tasks, each once and oldest first, and leaves the queue empty.
\<close>

theorem run_queue_fifo:
  assumes "queue_family queue_rep h Q" and "Q q = Some xs" and "\<forall>t \<in> set xs. has_completion h t"
  shows "\<exists>h'. run_queue_heap q h = Some (xs, h') \<and> queue_family queue_rep h' (Q(q \<mapsto> []))"
  using intrusive.run_drains [OF assms] .

subsection \<open>Witnesses\<close>

text \<open>Sentinels at 0 and 1; tasks 10 and 11 queued on 0, task 12 on 1.\<close>

definition example_heap :: qheap where
  "example_heap = \<lparr>next_of = (\<lambda>a. a)(0 := 10, 10 := 11, 11 := 0, 1 := 12, 12 := 1),
     tail_of = (\<lambda>_. Tail_fn)(0 := Tail_ptr 11, 1 := Tail_ptr 12)\<rparr>"

definition example_queues :: "addr \<rightharpoonup> addr list" where
  "example_queues = [0 \<mapsto> [10, 11], 1 \<mapsto> [12]]"

lemma example_family: "queue_family queue_rep example_heap example_queues"
  by (auto simp: queue_family_def queue_rep_def example_heap_def example_queues_def split: if_splits)

lemma example_lookup:
  "example_queues 0 = Some [10, 11]" "example_queues 1 = Some [12]" "13 \<notin> family_nodes example_queues"
  by (auto simp: example_queues_def family_nodes_def split: if_splits)

theorem push_appends_witness:
  "\<exists>h'. push 0 13 example_heap = Some h' \<and>
     queue_family queue_rep h' (example_queues(0 \<mapsto> [10, 11, 13]))"
  using push_appends [OF example_family example_lookup(1,3)] by simp

theorem pop_takes_oldest_witness:
  "\<exists>h'. pop 0 example_heap = Some (10, h') \<and> queue_family queue_rep h' (example_queues(0 \<mapsto> [11]))"
  using pop_takes_oldest [OF example_family example_lookup(1)] by simp

theorem move_back_concatenates_witness:
  "\<exists>h'. move_back 0 1 example_heap = Some h' \<and>
     queue_family queue_rep h' (example_queues(0 \<mapsto> [10, 11, 12], 1 \<mapsto> []))"
  using move_back_concatenates [OF example_family example_lookup(1,2)] by simp

theorem run_queue_fifo_witness:
  "\<exists>h'. run_queue_heap 0 example_heap = Some ([10, 11], h') \<and>
     queue_family queue_rep h' (example_queues(0 \<mapsto> []))"
  using run_queue_fifo [OF example_family example_lookup(1)]
  by (simp add: has_completion_def example_heap_def)

end
