(* ===== verification/Platform.thy ===== *)
theory Platform
  imports Prelude
begin

text \<open>
  The platform below the library and the state the library's objects live in.

  The system calls and the clock are not part of the library: they are the fields of the record
  \<open>'w os\<close>, an argument of every operation that calls them, over an opaque world \<open>'w\<close> (the kernel and
  the memory the program hands to it). Each returns its result, the errno it would leave, and the
  new world. \<open>'w env\<close> is what the library itself reads and writes: \<^verbatim>\<open>errno\<close>, the \<^verbatim>\<open>socket_handle\<close>
  objects (by identity, since shared pointers and raw pointers alias them), the fairness counter
  and the flag fields of the messages passed by reference.

  The second part is the retry loop \<^verbatim>\<open>while ((r = call()) failed) if (errno != EINTR) break;\<close> that
  the synchronous operations share, with its exact behaviour and its termination.
\<close>

section \<open>Data of the socket interface\<close>

text \<open>\<^verbatim>\<open>struct iovec\<close>, \<^verbatim>\<open>struct msghdr\<close>, \<^verbatim>\<open>struct pollfd\<close>.\<close>

record iovec =
  iov_base :: "64 word"
  iov_len :: size_t

record msghdr =
  msg_name :: "byte list"
  msg_namelen :: "32 word"
  msg_iov :: "iovec list"
  msg_iovlen :: size_t
  msg_control :: "byte list"
  msg_controllen :: size_t
  msg_flags :: int

record pollfd =
  fd :: native_socket_type
  events :: short
  revents :: short

text \<open>
  The data members of \<^verbatim>\<open>socket_handle\<close>: the descriptor and the last error. The mutex only
  serialises the operations, which the model runs one at a time.
\<close>

record socket_handle =
  hnd_socket :: native_socket_type
  hnd_error :: int

section \<open>System calls\<close>

type_synonym 'w syscall = "'w \<Rightarrow> int \<times> int \<times> 'w"

text \<open>
  Calls that fill a caller's buffer take its contents and its length and return both as the
  kernel leaves them.
\<close>

type_synonym 'w buffer_syscall = "byte list \<Rightarrow> 32 word \<Rightarrow> 'w \<Rightarrow> int \<times> int \<times> byte list \<times> 32 word \<times> 'w"

record 'w os =
  os_socket :: "int \<Rightarrow> int \<Rightarrow> int \<Rightarrow> 'w syscall"
  os_close :: "native_socket_type \<Rightarrow> 'w syscall"
  os_fcntl :: "native_socket_type \<Rightarrow> int \<Rightarrow> int list \<Rightarrow> 'w syscall"
  os_bind :: "native_socket_type \<Rightarrow> byte list \<Rightarrow> 'w syscall"
  os_connect :: "native_socket_type \<Rightarrow> byte list \<Rightarrow> 'w syscall"
  os_listen :: "native_socket_type \<Rightarrow> int \<Rightarrow> 'w syscall"
  os_shutdown :: "native_socket_type \<Rightarrow> int \<Rightarrow> 'w syscall"
  os_accept :: "native_socket_type \<Rightarrow> 'w buffer_syscall"
  os_getpeername :: "native_socket_type \<Rightarrow> 'w buffer_syscall"
  os_getsockname :: "native_socket_type \<Rightarrow> 'w buffer_syscall"
  os_getsockopt :: "native_socket_type \<Rightarrow> int \<Rightarrow> int \<Rightarrow> 'w buffer_syscall"
  os_setsockopt :: "native_socket_type \<Rightarrow> int \<Rightarrow> int \<Rightarrow> byte list \<Rightarrow> 'w syscall"
  os_sendmsg :: "native_socket_type \<Rightarrow> msghdr \<Rightarrow> int \<Rightarrow> 'w syscall"
  os_recvmsg :: "native_socket_type \<Rightarrow> msghdr \<Rightarrow> int \<Rightarrow> 'w \<Rightarrow> int \<times> int \<times> msghdr \<times> 'w"
  os_poll :: "pollfd list \<Rightarrow> int \<Rightarrow> 'w \<Rightarrow> int \<times> int \<times> pollfd list \<times> 'w"
  os_now :: "'w \<Rightarrow> int \<times> 'w"

section \<open>The state of the library\<close>

type_synonym sid = nat

type_synonym msgid = nat

record 'w env =
  world :: 'w
  errno :: int
  handles :: "sid \<Rightarrow> socket_handle"
  next_sid :: sid
  fair_counter :: "8 word"
  user_flags :: "msgid \<Rightarrow> int"

text \<open>The errno of a call is only written when the call fails.\<close>

definition run_sys :: "'w syscall \<Rightarrow> 'w env \<Rightarrow> int \<times> 'w env" where
  "run_sys call e =
     (case call (world e) of (r, err, w) \<Rightarrow>
        (r, e\<lparr>world := w, errno := (if r < 0 then err else errno e)\<rparr>))"

text \<open>The wrappers of \<^verbatim>\<open>::close\<close> and \<^verbatim>\<open>::fcntl\<close> in the POSIX layer.\<close>

definition sys_close :: "'w os \<Rightarrow> native_socket_type \<Rightarrow> 'w env \<Rightarrow> int \<times> 'w env" where
  [simp]: "sys_close os socket e = run_sys (os_close os socket) e"

definition sys_fcntl :: "'w os \<Rightarrow> native_socket_type \<Rightarrow> int \<Rightarrow> int list \<Rightarrow> 'w env \<Rightarrow> int \<times> 'w env" where
  [simp]: "sys_fcntl os socket cmd args e = run_sys (os_fcntl os socket cmd args) e"

definition run_buffer_sys ::
  "'w buffer_syscall \<Rightarrow> byte list \<Rightarrow> 32 word \<Rightarrow> 'w env \<Rightarrow> (int \<times> byte list \<times> 32 word) \<times> 'w env" where
  "run_buffer_sys call buf len e =
     (case call buf len (world e) of (r, err, buf', len', w) \<Rightarrow>
        ((r, buf', len'), e\<lparr>world := w, errno := (if r < 0 then err else errno e)\<rparr>))"

text \<open>\<^verbatim>\<open>throw_system_error\<close> raises with the current errno.\<close>

definition throw_system_error :: "'w env \<Rightarrow> (exn + 'a) \<times> 'w env" where
  "throw_system_error e = (Inl (System_error (errno e)), e)"

text \<open>\<^verbatim>\<open>span.subspan(0, n)\<close> is only defined for a count within the span.\<close>

definition subspan :: "byte list \<Rightarrow> nat \<Rightarrow> exn + byte list" where
  "subspan s n = (if n \<le> length s then Inr (take n s) else Inl (Undefined ''subspan''))"

lemma run_sys_simps [simp]:
  "errno (snd (run_sys call e)) =
     (if fst (run_sys call e) < 0 then fst (snd (call (world e))) else errno e)"
  "handles (snd (run_sys call e)) = handles e"
  "next_sid (snd (run_sys call e)) = next_sid e"
  "fair_counter (snd (run_sys call e)) = fair_counter e"
  "user_flags (snd (run_sys call e)) = user_flags e"
  by (simp_all add: run_sys_def split: prod.splits)

section \<open>Retrying interrupted calls\<close>

text \<open>
  The loop state is the environment together with what else the call reads and writes: a buffer
  and its length, a message header, or nothing.
\<close>

type_synonym ('b, 'w) call_state = "'b \<times> 'w env"

definition interrupted :: "('r \<Rightarrow> bool) \<Rightarrow> 'r \<times> ('b, 'w) call_state \<Rightarrow> bool" where
  "interrupted failed res \<longleftrightarrow> failed (fst res) \<and> errno (snd (snd res)) = EINTR"

partial_function (option) retry_eintr ::
  "('r \<Rightarrow> bool) \<Rightarrow> (('b, 'w) call_state \<Rightarrow> 'r \<times> ('b, 'w) call_state) \<Rightarrow> ('b, 'w) call_state
     \<Rightarrow> ('r \<times> ('b, 'w) call_state) option" where
  "retry_eintr failed call s =
     (if interrupted failed (call s) then retry_eintr failed call (snd (call s))
      else Some (call s))"

text \<open>The state after \<open>k\<close> calls, and the number of leading calls that are interrupted.\<close>

fun after_calls :: "('s \<Rightarrow> 'r \<times> 's) \<Rightarrow> nat \<Rightarrow> 's \<Rightarrow> 's" where
  "after_calls call 0 s = s"
| "after_calls call (Suc k) s = after_calls call k (snd (call s))"

definition settles_at ::
  "('r \<Rightarrow> bool) \<Rightarrow> (('b, 'w) call_state \<Rightarrow> 'r \<times> ('b, 'w) call_state) \<Rightarrow> ('b, 'w) call_state \<Rightarrow> nat \<Rightarrow> bool"
  where
  "settles_at failed call s n \<longleftrightarrow>
     (\<forall>k < n. interrupted failed (call (after_calls call k s))) \<and>
     \<not> interrupted failed (call (after_calls call n s))"

lemma retry_eintr_settles:
  assumes "settles_at failed call s n"
  shows "retry_eintr failed call s = Some (call (after_calls call n s))"
  using assms
proof (induction n arbitrary: s)
  case 0
  then show ?case by (subst retry_eintr.simps) (simp add: settles_at_def)
next
  case (Suc n)
  have "interrupted failed (call s)" using Suc.prems by (fastforce simp: settles_at_def)
  moreover have "retry_eintr failed call (snd (call s)) =
      Some (call (after_calls call n (snd (call s))))"
    using Suc.prems by (intro Suc.IH) (fastforce simp: settles_at_def)
  ultimately show ?case by (subst retry_eintr.simps) simp
qed

lemma settles_if_not_always_interrupted:
  assumes "\<not> interrupted failed (call (after_calls call m s))"
  obtains n where "n \<le> m" and "settles_at failed call s n"
proof -
  let ?P = "\<lambda>n. \<not> interrupted failed (call (after_calls call n s))"
  have "?P (LEAST n. ?P n)" by (rule LeastI [of ?P, OF assms])
  moreover have "(LEAST n. ?P n) \<le> m" by (rule Least_le [of ?P, OF assms])
  moreover have "\<forall>k < (LEAST n. ?P n). interrupted failed (call (after_calls call k s))"
    using not_less_Least by blast
  ultimately show thesis by (intro that [of "LEAST n. ?P n"]) (auto simp: settles_at_def)
qed

lemma retry_eintr_result:
  assumes "retry_eintr failed call s = Some res"
  shows "\<exists>n. settles_at failed call s n \<and> res = call (after_calls call n s)"
proof (rule retry_eintr.raw_induct [where P = "\<lambda>failed call s res.
    \<exists>n. settles_at failed call s n \<and> res = call (after_calls call n s)", OF _ assms])
  fix f :: "('r \<Rightarrow> bool) \<Rightarrow> (('b, 'w) call_state \<Rightarrow> 'r \<times> ('b, 'w) call_state) \<Rightarrow> ('b, 'w) call_state
      \<Rightarrow> ('r \<times> ('b, 'w) call_state) option"
    and failed call s res
  assume IH: "\<And>failed call s res. f failed call s = Some res \<Longrightarrow>
      \<exists>n. settles_at failed call s n \<and> res = call (after_calls call n s)"
    and eq: "(if interrupted failed (call s) then f failed call (snd (call s)) else Some (call s))
      = Some res"
  show "\<exists>n. settles_at failed call s n \<and> res = call (after_calls call n s)"
  proof (cases "interrupted failed (call s)")
    case True
    with eq have "f failed call (snd (call s)) = Some res" by simp
    from IH [OF this] obtain n where n: "settles_at failed call (snd (call s)) n"
      "res = call (after_calls call n (snd (call s)))" by blast
    have "settles_at failed call s (Suc n)"
      unfolding settles_at_def
    proof (intro conjI allI impI)
      fix k assume "k < Suc n"
      with n True show "interrupted failed (call (after_calls call k s))"
        by (cases k) (auto simp: settles_at_def)
    qed (use n in \<open>simp add: settles_at_def\<close>)
    with n(2) show ?thesis by (intro exI [of _ "Suc n"]) simp
  next
    case False
    with eq show ?thesis by (intro exI [of _ 0]) (simp add: settles_at_def)
  qed
qed

lemma retry_eintr_iff:
  "retry_eintr failed call s = Some res \<longleftrightarrow>
     (\<exists>n. settles_at failed call s n \<and> res = call (after_calls call n s))"
  using retry_eintr_result retry_eintr_settles by metis

lemma retry_eintr_None_iff:
  "retry_eintr failed call s = None \<longleftrightarrow> (\<forall>k. interrupted failed (call (after_calls call k s)))"
proof
  assume none: "retry_eintr failed call s = None"
  show "\<forall>k. interrupted failed (call (after_calls call k s))"
  proof (rule allI, rule ccontr)
    fix k assume "\<not> interrupted failed (call (after_calls call k s))"
    then obtain n where "settles_at failed call s n" by (rule settles_if_not_always_interrupted)
    from retry_eintr_settles [OF this] none show False by simp
  qed
next
  assume "\<forall>k. interrupted failed (call (after_calls call k s))"
  then show "retry_eintr failed call s = None"
    by (cases "retry_eintr failed call s") (auto simp: retry_eintr_iff settles_at_def)
qed

lemma retry_eintr_not_interrupted:
  assumes "retry_eintr failed call s = Some res"
  shows "\<not> interrupted failed res"
  using assms by (auto simp: retry_eintr_iff settles_at_def)

end
