(* ===== verification/Three_Way.thy ===== *)
theory Three_Way
  imports Prelude
begin

text \<open>
  Three-way comparison. The sources compare handles, options, buffer iterators and dialogs with
  \<^verbatim>\<open>operator<=>\<close> and let C++20 derive the other operators from it. The locale \<open>three_way\<close> is what
  \<^verbatim>\<open>std::strong_ordering\<close> promises on the values \<open>ok\<close> that may be compared; the derived operators are shown to be those of a linear preorder
  once and for all, and each component interprets the locale on its own comparison.
\<close>

definition spaceship :: "'k::linorder \<Rightarrow> 'k \<Rightarrow> strong_ordering" where
  "spaceship a b = (if a < b then Less else if a = b then Equal else Greater)"

definition op_eq :: "('a \<Rightarrow> 'a \<Rightarrow> strong_ordering) \<Rightarrow> 'a \<Rightarrow> 'a \<Rightarrow> bool" where
  "op_eq cmp a b \<longleftrightarrow> cmp a b = Equal"

definition op_lt :: "('a \<Rightarrow> 'a \<Rightarrow> strong_ordering) \<Rightarrow> 'a \<Rightarrow> 'a \<Rightarrow> bool" where
  "op_lt cmp a b \<longleftrightarrow> cmp a b = Less"

definition op_le :: "('a \<Rightarrow> 'a \<Rightarrow> strong_ordering) \<Rightarrow> 'a \<Rightarrow> 'a \<Rightarrow> bool" where
  "op_le cmp a b \<longleftrightarrow> cmp a b \<noteq> Greater"

lemmas op_defs = op_eq_def op_lt_def op_le_def

locale three_way =
  fixes ok :: "'a \<Rightarrow> bool"
    and cmp :: "'a \<Rightarrow> 'a \<Rightarrow> strong_ordering"
  assumes cmp_flip: "ok a \<Longrightarrow> ok b \<Longrightarrow> cmp b a = flip_ordering (cmp a b)"
    and cmp_trans: "ok a \<Longrightarrow> ok b \<Longrightarrow> ok c \<Longrightarrow>
      cmp a b \<noteq> Greater \<Longrightarrow> cmp b c \<noteq> Greater \<Longrightarrow> cmp a c \<noteq> Greater"
begin

lemma cmp_refl: "ok a \<Longrightarrow> cmp a a = Equal"
  using cmp_flip [of a a] by (cases "cmp a a") auto

lemma equal_sym: "ok a \<Longrightarrow> ok b \<Longrightarrow> op_eq cmp a b \<Longrightarrow> op_eq cmp b a"
  using cmp_flip [of a b] by (simp add: op_defs)

lemma le_total: "ok a \<Longrightarrow> ok b \<Longrightarrow> op_le cmp a b \<or> op_le cmp b a"
  using cmp_flip [of a b] by (cases "cmp a b") (auto simp: op_defs)

lemma le_antisym: "ok a \<Longrightarrow> ok b \<Longrightarrow> op_le cmp a b \<Longrightarrow> op_le cmp b a \<Longrightarrow> op_eq cmp a b"
  using cmp_flip [of a b] by (cases "cmp a b") (auto simp: op_defs)

lemma le_trans:
  "ok a \<Longrightarrow> ok b \<Longrightarrow> ok c \<Longrightarrow> op_le cmp a b \<Longrightarrow> op_le cmp b c \<Longrightarrow> op_le cmp a c"
  unfolding op_defs by (rule cmp_trans)

lemma lt_iff_not_le: "ok a \<Longrightarrow> ok b \<Longrightarrow> op_lt cmp a b \<longleftrightarrow> \<not> op_le cmp b a"
  using cmp_flip [of a b] by (simp add: op_defs)

lemma linear_preorder:
  assumes "ok a" and "ok b" and "ok c"
  shows "op_le cmp a a \<and> (op_le cmp a b \<or> op_le cmp b a) \<and>
   (op_le cmp a b \<longrightarrow> op_le cmp b c \<longrightarrow> op_le cmp a c) \<and>
   (op_eq cmp a b \<longleftrightarrow> op_le cmp a b \<and> op_le cmp b a) \<and>
   (op_lt cmp a b \<longleftrightarrow> \<not> op_le cmp b a)"
proof -
  have "op_eq cmp a b \<Longrightarrow> op_le cmp a b \<and> op_le cmp b a"
    using equal_sym [OF assms(1,2)] by (auto simp: op_defs)
  then show ?thesis
    using assms le_total le_trans le_antisym lt_iff_not_le by blast
qed

end

text \<open>Comparing by a key in a linear order, as every comparison of the sources does.\<close>

lemma three_way_by_key:
  assumes "\<And>a b. ok a \<Longrightarrow> ok b \<Longrightarrow> cmp a b = spaceship (key a) (key b)"
  shows "three_way ok cmp"
  by unfold_locales (auto simp: assms spaceship_def split: if_splits)

end
