(* ===== verification/Socket_Handle.thy ===== *)
theory Socket_Handle
  imports Platform Three_Way "HOL-Library.Multiset"
begin

text \<open>
  The RAII wrapper of a native socket: \<^verbatim>\<open>include/io/socket/socket_handle.hpp\<close> and
  \<^verbatim>\<open>include/io/socket/impl/socket_handle_impl.hpp\<close>. Handles are objects with identity, so the
  operations act on the store \<open>handles\<close> of the environment. Both move operations are written with
  \<^verbatim>\<open>swap\<close>; the locale \<open>swap_movable\<close> states what that idiom gives. The last part follows the
  lifetime of handle objects and accounts for every descriptor they adopt.
\<close>

section \<open>Constants of the platform\<close>

definition INVALID_SOCKET :: native_socket_type where "INVALID_SOCKET = - 1"

definition SOL_SOCKET :: int where "SOL_SOCKET = 1"

definition SO_TYPE :: int where "SO_TYPE = 3"

section \<open>Operations\<close>

text \<open>\<^verbatim>\<open>socket_handle() = default\<close>: an invalid descriptor and no error.\<close>

definition default_handle :: socket_handle where
  "default_handle = \<lparr>hnd_socket = INVALID_SOCKET, hnd_error = 0\<rparr>"

text \<open>\<^verbatim>\<open>tmp = lhs.exchange(rhs.load()); rhs.store(tmp)\<close>, giving the new values of both.\<close>

definition swap_atomic :: "'t \<Rightarrow> 't \<Rightarrow> 't \<times> 't" where
  "swap_atomic lhs rhs = (let tmp = lhs; lhs' = rhs; rhs' = tmp in (lhs', rhs'))"

definition swap :: "sid \<Rightarrow> sid \<Rightarrow> (sid \<Rightarrow> socket_handle) \<Rightarrow> (sid \<Rightarrow> socket_handle)" where
  "swap lhs rhs st =
     (if lhs = rhs then st
      else let (ls, rs) = swap_atomic (hnd_socket (st lhs)) (hnd_socket (st rhs));
               (le, re) = swap_atomic (hnd_error (st lhs)) (hnd_error (st rhs))
           in st(lhs := \<lparr>hnd_socket = ls, hnd_error = le\<rparr>, rhs := \<lparr>hnd_socket = rs, hnd_error = re\<rparr>))"

definition move_construct :: "sid \<Rightarrow> sid \<Rightarrow> (sid \<Rightarrow> socket_handle) \<Rightarrow> (sid \<Rightarrow> socket_handle)" where
  "move_construct this other st = swap this other (st(this := default_handle))"

definition move_assign :: "sid \<Rightarrow> sid \<Rightarrow> (sid \<Rightarrow> socket_handle) \<Rightarrow> (sid \<Rightarrow> socket_handle)" where
  "move_assign this other st = swap this other st"

definition is_valid_socket :: "'w os \<Rightarrow> native_socket_type \<Rightarrow> 'w env \<Rightarrow> bool \<times> 'w env" where
  "is_valid_socket os handle e =
     (if handle = INVALID_SOCKET then (False, e)
      else case run_buffer_sys (os_getsockopt os handle SOL_SOCKET SO_TYPE) (replicate 4 0) 4 e of
             ((r, _, _), e') \<Rightarrow> (r = 0, e'))"

text \<open>
  The constructors that can throw. The object \<open>this\<close> only comes to life when they return, so the
  store keeps it only then.
\<close>

definition construct_native ::
  "'w os \<Rightarrow> sid \<Rightarrow> native_socket_type \<Rightarrow> 'w env \<Rightarrow> (exn + unit) \<times> 'w env" where
  "construct_native os this handle e =
     (let (invalid, e') =
        (if handle \<noteq> INVALID_SOCKET
         then (case is_valid_socket os handle e of (ok, e1) \<Rightarrow> (\<not> ok, e1)) else (False, e))
      in if invalid then throw_system_error e'
         else (Inr (), e'\<lparr>handles := (handles e')(this := default_handle\<lparr>hnd_socket := handle\<rparr>)\<rparr>))"

definition construct_socket ::
  "'w os \<Rightarrow> sid \<Rightarrow> int \<Rightarrow> int \<Rightarrow> int \<Rightarrow> 'w env \<Rightarrow> (exn + unit) \<times> 'w env" where
  "construct_socket os this domain type protocol e =
     (case run_sys (os_socket os domain type protocol) e of (s, e') \<Rightarrow>
        if s = INVALID_SOCKET then throw_system_error e'
        else (Inr (), e'\<lparr>handles := (handles e')(this := default_handle\<lparr>hnd_socket := s\<rparr>)\<rparr>))"

definition to_native :: "socket_handle \<Rightarrow> native_socket_type" where
  "to_native s = hnd_socket s"

definition to_bool :: "socket_handle \<Rightarrow> bool" where
  "to_bool s \<longleftrightarrow> hnd_socket s \<noteq> INVALID_SOCKET"

definition compare :: "socket_handle \<Rightarrow> socket_handle \<Rightarrow> strong_ordering" where
  "compare s other = spaceship (hnd_socket s) (hnd_socket other)"

definition equals :: "socket_handle \<Rightarrow> socket_handle \<Rightarrow> bool" where
  "equals s other \<longleftrightarrow> compare s other = Equal"

definition compare_native :: "socket_handle \<Rightarrow> native_socket_type \<Rightarrow> strong_ordering" where
  "compare_native s other = spaceship (hnd_socket s) other"

definition equals_native :: "socket_handle \<Rightarrow> native_socket_type \<Rightarrow> bool" where
  "equals_native s other \<longleftrightarrow> compare_native s other = Equal"

definition set_error :: "sid \<Rightarrow> int \<Rightarrow> 'w env \<Rightarrow> 'w env" where
  "set_error this err e = e\<lparr>handles := (handles e)(this := (handles e this)\<lparr>hnd_error := err\<rparr>)\<rparr>"

definition get_error :: "sid \<Rightarrow> 'w env \<Rightarrow> int" where
  "get_error this e = hnd_error (handles e this)"

text \<open>\<^verbatim>\<open>socket_.exchange(INVALID_SOCKET)\<close>, then close what was there.\<close>

definition close :: "'w os \<Rightarrow> sid \<Rightarrow> 'w env \<Rightarrow> 'w env" where
  "close os this e =
     (let handle = hnd_socket (handles e this);
          e1 = e\<lparr>handles := (handles e)(this := (handles e this)\<lparr>hnd_socket := INVALID_SOCKET\<rparr>)\<rparr>
      in if handle \<noteq> INVALID_SOCKET then snd (sys_close os handle e1) else e1)"

definition destroy :: "'w os \<Rightarrow> sid \<Rightarrow> 'w env \<Rightarrow> 'w env" where
  "destroy os this e = close os this e"

section \<open>Moving by swapping\<close>

text \<open>
  A class whose moves are written as default construction and \<^verbatim>\<open>swap\<close> on a store of objects: the
  law is that swapping exchanges the two objects and nothing else.
\<close>

locale swap_movable =
  fixes swp :: "nat \<Rightarrow> nat \<Rightarrow> (nat \<Rightarrow> 'o) \<Rightarrow> (nat \<Rightarrow> 'o)"
    and dflt :: 'o
  assumes swp_exchanges: "swp l r st = st(l := st r, r := st l)"
begin

lemma swp_self: "swp l l st = st"
  by (simp add: swp_exchanges)

lemma swp_involution: "swp l r (swp l r st) = st"
  by (auto simp: swp_exchanges fun_eq_iff)

lemma swp_commute: "swp l r st = swp r l st"
  by (auto simp: swp_exchanges fun_eq_iff)

lemma move_constructed:
  assumes "this \<noteq> other"
  shows "swp this other (st(this := dflt)) = st(this := st other, other := dflt)"
  using assms by (auto simp: swp_exchanges fun_eq_iff)

lemma mset_swp:
  assumes "distinct xs" and "l \<in> set xs" and "r \<in> set xs"
  shows "mset (map (swp l r st) xs) = mset (map st xs)"
proof (cases "l = r")
  case False
  define S where "S = set xs - {l, r}"
  have xs: "set xs = insert l (insert r S)" and S: "finite S" "l \<notin> insert r S" "r \<notin> S"
    using assms False by (auto simp: S_def)
  have "mset (map g xs) = add_mset (g l) (add_mset (g r) (image_mset g (mset_set S)))" for g :: "nat \<Rightarrow> 'o"
  proof -
    have "mset (map g xs) = image_mset g (mset_set (insert l (insert r S)))"
      using assms(1) xs by (metis mset_map mset_set_set)
    then show ?thesis using S by simp
  qed
  moreover have "image_mset (swp l r st) (mset_set S) = image_mset st (mset_set S)"
    using S by (intro image_mset_cong) (auto simp: swp_exchanges)
  ultimately show ?thesis
    using False by (simp add: swp_exchanges add_mset_commute)
qed (simp add: swp_self)

end

interpretation handle_swap: swap_movable swap default_handle
  by unfold_locales (auto simp: swap_def swap_atomic_def Let_def fun_eq_iff)

interpretation handle_order: three_way "\<lambda>_. True" compare
  by (rule three_way_by_key) (rule compare_def)

section \<open>Lifetimes\<close>

text \<open>
  A program's use of handle objects: it adopts descriptors into fresh objects (from a native
  handle, or by opening a socket), moves objects into fresh or live ones, and destroys live ones.
  A request that is not allowed by the lifetime of the objects is skipped. \<open>adopted\<close> is the history of
  descriptors that a constructor took over.
\<close>

datatype handle_op =
    Adopt sid native_socket_type
  | Open sid int int int
  | Move_construct sid sid
  | Move_assign sid sid
  | Destroy sid

record 'w lifetime =
  live :: "sid list"
  adopted :: "native_socket_type list"
  lenv :: "'w env"

definition adopt_if_returned ::
  "sid \<Rightarrow> (exn + unit) \<times> 'w env \<Rightarrow> 'w lifetime \<Rightarrow> 'w lifetime" where
  "adopt_if_returned this res s =
     (case res of
        (Inl _, e) \<Rightarrow> s\<lparr>lenv := e\<rparr>
      | (Inr _, e) \<Rightarrow> s\<lparr>live := this # live s,
           adopted := (if to_bool (handles e this) then [to_native (handles e this)] else []) @ adopted s,
           lenv := e\<rparr>)"

fun handle_step :: "'w os \<Rightarrow> handle_op \<Rightarrow> 'w lifetime \<Rightarrow> 'w lifetime" where
  "handle_step os (Adopt this h) s =
     (if this \<in> set (live s) then s
      else adopt_if_returned this (construct_native os this h (lenv s)) s)"
| "handle_step os (Open this d t p) s =
     (if this \<in> set (live s) then s
      else adopt_if_returned this (construct_socket os this d t p (lenv s)) s)"
| "handle_step os (Move_construct this other) s =
     (if this \<in> set (live s) \<or> other \<notin> set (live s) then s
      else s\<lparr>live := this # live s,
        lenv := (lenv s)\<lparr>handles := move_construct this other (handles (lenv s))\<rparr>\<rparr>)"
| "handle_step os (Move_assign this other) s =
     (if this \<in> set (live s) \<and> other \<in> set (live s)
      then s\<lparr>lenv := (lenv s)\<lparr>handles := move_assign this other (handles (lenv s))\<rparr>\<rparr> else s)"
| "handle_step os (Destroy this) s =
     (if this \<in> set (live s)
      then s\<lparr>live := remove1 this (live s), lenv := destroy os this (lenv s)\<rparr> else s)"

text \<open>The descriptors held by live objects.\<close>

definition held :: "'w lifetime \<Rightarrow> native_socket_type list" where
  "held s = filter (\<lambda>f. f \<noteq> INVALID_SOCKET)
     (map hnd_socket (map (handles (lenv s)) (live s)))"

text \<open>
  A way to read the descriptors closed so far off the world: \<^verbatim>\<open>close\<close> appends its argument, the calls
  of the constructors add nothing.
\<close>

definition logs_close :: "'w os \<Rightarrow> ('w \<Rightarrow> native_socket_type list) \<Rightarrow> bool" where
  "logs_close os log \<longleftrightarrow>
     (\<forall>f w. log (snd (snd (os_close os f w))) = log w @ [f]) \<and>
     (\<forall>d t p w. log (snd (snd (os_socket os d t p w))) = log w) \<and>
     (\<forall>f l n b k w. log (snd (snd (snd (snd (os_getsockopt os f l n b k w))))) = log w)"

definition accounted :: "('w \<Rightarrow> native_socket_type list) \<Rightarrow> 'w lifetime \<Rightarrow> bool" where
  "accounted log s \<longleftrightarrow> distinct (live s) \<and>
     mset (adopted s) = mset (log (world (lenv s))) + mset (held s)"

lemma run_sys_world: "world (snd (run_sys call e)) = snd (snd (call (world e)))"
  by (simp add: run_sys_def split: prod.splits)

lemma logs_closeD:
  assumes "logs_close os log"
  shows "os_close os f w = (r, err, w') \<Longrightarrow> log w' = log w @ [f]"
    and "os_socket os d t p w = (r, err, w') \<Longrightarrow> log w' = log w"
    and "os_getsockopt os f l n b k w = (r, err, b', k', w') \<Longrightarrow> log w' = log w"
  using assms unfolding logs_close_def by (metis snd_conv)+

lemma construct_native_log:
  assumes "logs_close os log" and "construct_native os this h e = (res, e')"
  shows "log (world e') = log (world e)" and "i \<noteq> this \<Longrightarrow> handles e' i = handles e i"
  using assms by (auto simp: construct_native_def is_valid_socket_def run_buffer_sys_def
      throw_system_error_def Let_def dest: logs_closeD split: prod.splits if_splits)

lemma construct_socket_log:
  assumes "logs_close os log" and "construct_socket os this d t p e = (res, e')"
  shows "log (world e') = log (world e)" and "i \<noteq> this \<Longrightarrow> handles e' i = handles e i"
  using assms by (auto simp: construct_socket_def run_sys_def throw_system_error_def
      dest: logs_closeD split: prod.splits if_splits)

lemma accounted_adopt:
  assumes acc: "accounted log s" and fresh: "this \<notin> set (live s)"
    and log: "log (world e') = log (world (lenv s))"
    and other: "\<And>i. i \<noteq> this \<Longrightarrow> handles e' i = handles (lenv s) i"
  shows "accounted log (adopt_if_returned this (res, e') s)"
proof -
  have "map (handles e') (live s) = map (handles (lenv s)) (live s)"
    using fresh other by (metis map_cong)
  with acc fresh log show ?thesis
    by (cases res) (auto simp: accounted_def adopt_if_returned_def held_def to_bool_def to_native_def
        simp del: map_map map_eq_conv mset_map mset_filter)
qed

lemma held_remove1:
  assumes "this \<in> set xs"
  shows "mset (map f xs) = add_mset (f this) (mset (map f (remove1 this xs)))"
  using assms by (metis image_mset_add_mset insert_DiffM mset_map mset_remove1 set_mset_mset)

lemma accounted_destroy:
  assumes log: "logs_close os log" and acc: "accounted log s" and mem: "this \<in> set (live s)"
  shows "accounted log (handle_step os (Destroy this) s)"
proof -
  let ?h = "handles (lenv s)" and ?e = "destroy os this (lenv s)"
  have d: "distinct (live s)" and m: "mset (adopted s) = mset (log (world (lenv s))) + mset (held s)"
    using acc by (auto simp: accounted_def)
  have keep: "map (handles ?e) (remove1 this (live s)) = map ?h (remove1 this (live s))"
    using d by (auto simp: destroy_def close_def Let_def)
  have heldm: "mset (map hnd_socket (map ?h (live s))) =
      add_mset (hnd_socket (?h this)) (mset (map hnd_socket (map ?h (remove1 this (live s)))))"
    using held_remove1 [OF mem, of "\<lambda>i. hnd_socket (?h i)"] by (simp add: comp_def)
  have "log (world ?e) = log (world (lenv s)) @
      (if hnd_socket (?h this) = INVALID_SOCKET then [] else [hnd_socket (?h this)])"
    using log by (auto simp: destroy_def close_def Let_def run_sys_world logs_close_def)
  with m d mem heldm keep show ?thesis
    unfolding accounted_def held_def
    by (auto simp del: map_map map_eq_conv mset_map mset_remove1)
qed

lemma accounted_step:
  assumes log: "logs_close os log" and acc: "accounted log s"
  shows "accounted log (handle_step os op s)"
proof (cases op)
  case (Adopt this h)
  obtain res e' where r: "construct_native os this h (lenv s) = (res, e')" by fastforce
  show ?thesis
    using Adopt acc accounted_adopt [OF acc _ construct_native_log [OF log r]] r by simp
next
  case (Open this d t p)
  obtain res e' where r: "construct_socket os this d t p (lenv s) = (res, e')" by fastforce
  show ?thesis
    using Open acc accounted_adopt [OF acc _ construct_socket_log [OF log r]] r by simp
next
  case (Move_construct this other)
  let ?h = "handles (lenv s)"
  have "mset (map (swap this other (?h(this := default_handle))) (this # live s)) =
      add_mset default_handle (mset (map ?h (live s)))"
    if "this \<notin> set (live s)" "other \<in> set (live s)"
  proof -
    have "mset (map (swap this other (?h(this := default_handle))) (this # live s)) =
        mset (map (?h(this := default_handle)) (this # live s))"
      using that acc by (intro handle_swap.mset_swp) (auto simp: accounted_def)
    moreover have "map (?h(this := default_handle)) (live s) = map ?h (live s)"
      using that by auto
    ultimately show ?thesis by simp
  qed
  then show ?thesis
    using Move_construct acc unfolding accounted_def held_def
    by (auto simp: move_construct_def default_handle_def simp del: list.map map_map mset.simps)
next
  case (Move_assign this other)
  then show ?thesis
    using acc handle_swap.mset_swp [of "live s" this other "handles (lenv s)"]
    by (auto simp: accounted_def held_def move_assign_def simp del: map_map)
next
  case (Destroy this)
  with acc accounted_destroy [OF log acc, of this] show ?thesis by (cases "this \<in> set (live s)") auto
qed

section \<open>Properties\<close>

text \<open>
  (C20) Descriptors are neither leaked nor closed twice. Whatever sequence of constructions, moves
  and destructions a program performs on handle objects, the descriptors that constructors took
  over are, counted with multiplicity, exactly those already passed to \<^verbatim>\<open>close\<close> and those held by a
  live object; in particular, once every object is destroyed, every adopted descriptor was closed
  exactly as often as it was adopted. Here \<open>log\<close> reads the calls of \<^verbatim>\<open>close\<close> off the world.
\<close>

theorem descriptors_accounted:
  assumes "logs_close os log" and "log (world e) = []"
    and "s = fold (handle_step os) ops \<lparr>live = [], adopted = [], lenv = e\<rparr>"
  shows "mset (adopted s) = mset (log (world (lenv s))) + mset (held s) \<and>
    (live s = [] \<longrightarrow> mset (adopted s) = mset (log (world (lenv s))))"
proof -
  have "accounted log (fold (handle_step os) ops s0)" if "accounted log s0" for s0
    using that by (induction ops arbitrary: s0) (auto intro: accounted_step [OF assms(1)])
  moreover have "accounted log \<lparr>live = [], adopted = [], lenv = e\<rparr>"
    using assms(2) by (simp add: accounted_def held_def)
  ultimately show ?thesis using assms(3) by (auto simp: accounted_def held_def)
qed

text \<open>A world that is the list of closed descriptors; every call succeeds.\<close>

definition logging_os :: "native_socket_type list os" where
  "logging_os = \<lparr>os_socket = (\<lambda>d t p w. (7, 0, w)), os_close = (\<lambda>f w. (0, 0, w @ [f])),
     os_fcntl = (\<lambda>f c a w. (0, 0, w)), os_bind = (\<lambda>f b w. (0, 0, w)), os_connect = (\<lambda>f b w. (0, 0, w)),
     os_listen = (\<lambda>f n w. (0, 0, w)), os_shutdown = (\<lambda>f n w. (0, 0, w)),
     os_accept = (\<lambda>f b n w. (8, 0, b, n, w)), os_getpeername = (\<lambda>f b n w. (0, 0, b, n, w)),
     os_getsockname = (\<lambda>f b n w. (0, 0, b, n, w)), os_getsockopt = (\<lambda>f l k b n w. (0, 0, b, n, w)),
     os_setsockopt = (\<lambda>f l k b w. (0, 0, w)), os_sendmsg = (\<lambda>f m g w. (0, 0, w)),
     os_recvmsg = (\<lambda>f m g w. (0, 0, m, w)), os_poll = (\<lambda>l d w. (0, 0, l, w)), os_now = (\<lambda>w. (0, w))\<rparr>"

definition blank_env :: "'w \<Rightarrow> 'w env" where
  "blank_env w = \<lparr>world = w, errno = 0, handles = (\<lambda>_. default_handle), next_sid = 0,
     fair_counter = 0, user_flags = (\<lambda>_. 0)\<rparr>"

definition example_ops :: "handle_op list" where
  "example_ops = [Adopt 1 5, Open 2 2 1 0, Move_construct 3 1, Move_assign 3 2, Destroy 3, Destroy 1]"

theorem descriptors_accounted_witness:
  "let s = fold (handle_step logging_os) example_ops \<lparr>live = [], adopted = [], lenv = blank_env []\<rparr>
   in adopted s = [7, 5] \<and> world (lenv s) = [7] \<and> held s = [5] \<and>
      mset (adopted s) = mset (world (lenv s)) + mset (held s)"
proof -
  let ?s = "fold (handle_step logging_os) example_ops \<lparr>live = [], adopted = [], lenv = blank_env []\<rparr>"
  have "logs_close logging_os (\<lambda>w. w)" by (simp add: logs_close_def logging_os_def)
  then have "mset (adopted ?s) = mset (world (lenv ?s)) + mset (held ?s)"
    using descriptors_accounted [of logging_os "\<lambda>w. w" "blank_env []" ?s example_ops]
    by (simp add: blank_env_def)
  moreover have "adopted ?s = [7, 5]" "world (lenv ?s) = [7]" "held ?s = [5]"
    by (simp_all add: example_ops_def logging_os_def blank_env_def construct_native_def
        construct_socket_def is_valid_socket_def run_buffer_sys_def run_sys_def adopt_if_returned_def
        INVALID_SOCKET_def default_handle_def move_construct_def move_assign_def swap_def
        swap_atomic_def destroy_def close_def to_bool_def to_native_def held_def Let_def)
  ultimately show ?thesis by (simp add: Let_def)
qed

text \<open>
  What the two move operations do to the object that is moved from. Move construction leaves it
  as a default handle, as the comment on the class says (\<^verbatim>\<open>other\<close> becomes invalid). Move assignment
  does not: it exchanges the two objects, so \<^verbatim>\<open>other\<close> goes on holding the descriptor and the error
  that \<^verbatim>\<open>*this\<close> had, and stays valid whenever \<^verbatim>\<open>*this\<close> was.
\<close>

theorem moved_from_handles:
  assumes "this \<noteq> other"
  shows "move_construct this other st = st(this := st other, other := default_handle) \<and>
    move_assign this other st = st(this := st other, other := st this) \<and>
    (to_bool (st this) \<longrightarrow> to_bool (move_assign this other st other))"
  using assms handle_swap.move_constructed [OF assms, of st]
  by (auto simp: move_construct_def move_assign_def handle_swap.swp_exchanges)

theorem moved_from_handles_witness:
  "to_bool (move_assign 1 2 ((\<lambda>_. default_handle)(1 := \<lparr>hnd_socket = 5, hnd_error = 0\<rparr>)) 2)"
  using moved_from_handles [of 1 2 "(\<lambda>_. default_handle)(1 := \<lparr>hnd_socket = 5, hnd_error = 0\<rparr>)"]
  by (simp add: to_bool_def INVALID_SOCKET_def)

text \<open>
  \<^verbatim>\<open>operator<=>\<close> on handles orders them by descriptor: the derived \<^verbatim>\<open><=\<close>, \<^verbatim>\<open><\<close> and \<^verbatim>\<open>==\<close> are those of a
  total preorder, equality means equal descriptors (the stored errors are ignored), and comparing a
  handle with a native socket agrees with comparing it with a handle that holds that socket.
\<close>

theorem handle_comparison:
  "op_le compare a a \<and> (op_le compare a b \<or> op_le compare b a) \<and>
   (op_le compare a b \<longrightarrow> op_le compare b c \<longrightarrow> op_le compare a c) \<and>
   (op_eq compare a b \<longleftrightarrow> op_le compare a b \<and> op_le compare b a) \<and>
   (op_lt compare a b \<longleftrightarrow> \<not> op_le compare b a) \<and>
   (equals a b \<longleftrightarrow> to_native a = to_native b) \<and>
   compare_native a (to_native b) = compare a b"
  using handle_order.linear_preorder [of a b c]
  by (auto simp: equals_def compare_def compare_native_def spaceship_def to_native_def
      split: if_splits)

theorem handle_comparison_witness:
  "op_le compare default_handle \<lparr>hnd_socket = 5, hnd_error = 0\<rparr> \<and>
   compare default_handle \<lparr>hnd_socket = 5, hnd_error = 0\<rparr> = Less"
  using handle_comparison [of default_handle "\<lparr>hnd_socket = 5, hnd_error = 0\<rparr>" default_handle]
  by (auto simp: op_defs compare_def spaceship_def default_handle_def INVALID_SOCKET_def)

end
