(* ===== verification/Socket_Option.thy ===== *)
theory Socket_Option
  imports Platform Three_Way "HOL-Library.List_Lexorder" "HOL-Library.Product_Lexorder"
begin

text \<open>
  Socket options and socket addresses: \<^verbatim>\<open>include/io/socket/socket_option.hpp\<close> and
  \<^verbatim>\<open>include/io/socket/socket_address.hpp\<close>. An option of type \<^verbatim>\<open>T\<close> is an array of \<open>sizeof(T)\<close> bytes and
  the number of bytes in use; the model takes \<open>sizeof(T)\<close> from the length of the array, and values of
  \<^verbatim>\<open>T\<close> are their object representations. An address is an option whose \<^verbatim>\<open>T\<close> is a socket address
  structure. Assertions are active unless \<open>ndebug\<close> is set.
\<close>

section \<open>Options\<close>

record socket_option =
  storage :: "byte list"
  osize :: nat

text \<open>The size constructor: zeroed storage, the given size (which is not compared with the array).\<close>

definition option_of_size :: "nat \<Rightarrow> nat \<Rightarrow> socket_option" where
  "option_of_size sz n = \<lparr>storage = replicate sz 0, osize = n\<rparr>"

text \<open>\<^verbatim>\<open>std::memcpy\<close> to the front of an array; writing past its end is undefined.\<close>

definition memcpy :: "byte list \<Rightarrow> byte list \<Rightarrow> nat \<Rightarrow> exn + byte list" where
  "memcpy dst src n =
     (if n \<le> length dst \<and> n \<le> length src then Inr (take n src @ drop n dst)
      else Inl (Undefined ''memcpy''))"

definition option_of_value :: "byte list \<Rightarrow> exn + socket_option" where
  "option_of_value val =
     (case memcpy (replicate (length val) 0) val (length val) of
        Inl x \<Rightarrow> Inl x
      | Inr st \<Rightarrow> Inr \<lparr>storage = st, osize = length val\<rparr>)"

text \<open>
  A span is its bytes; the case of a null pointer with a positive size, which the second assertion also
  excludes, does not arise for a span over an object.
\<close>

definition option_of_span :: "bool \<Rightarrow> nat \<Rightarrow> byte list \<Rightarrow> exn + socket_option" where
  "option_of_span ndebug sz opt =
     (if \<not> ndebug \<and> \<not> length opt \<le> sz then Inl Assertion_failed
      else if \<not> ndebug \<and> \<not> 0 < length opt then Inl Assertion_failed
      else case memcpy (replicate sz 0) opt (length opt) of
             Inl x \<Rightarrow> Inl x
           | Inr st \<Rightarrow> Inr \<lparr>storage = st, osize = length opt\<rparr>)"

text \<open>\<^verbatim>\<open>operator*\<close> and \<^verbatim>\<open>operator->\<close>: the whole array, read or overwritten as a value of \<^verbatim>\<open>T\<close>.\<close>

definition deref :: "socket_option \<Rightarrow> byte list" where
  "deref opt = storage opt"

definition deref_assign :: "socket_option \<Rightarrow> byte list \<Rightarrow> socket_option" where
  "deref_assign opt val = opt\<lparr>storage := val\<rparr>"

text \<open>The range \<^verbatim>\<open>[begin, end)\<close>, which is how an option becomes a span.\<close>

definition option_span :: "socket_option \<Rightarrow> exn + byte list" where
  "option_span opt = subspan (storage opt) (osize opt)"

fun memcmp :: "byte list \<Rightarrow> byte list \<Rightarrow> nat \<Rightarrow> int" where
  "memcmp (x # xs) (y # ys) (Suc n) =
     (if x < y then - 1 else if y < x then 1 else memcmp xs ys n)"
| "memcmp _ _ _ = 0"

definition option_compare :: "socket_option \<Rightarrow> socket_option \<Rightarrow> strong_ordering" where
  "option_compare opt other =
     (if osize opt = osize other
      then spaceship (memcmp (storage opt) (storage other) (osize opt)) 0
      else spaceship (osize opt) (osize other))"

definition option_equals :: "socket_option \<Rightarrow> socket_option \<Rightarrow> bool" where
  "option_equals opt other \<longleftrightarrow>
     osize opt = osize other \<and> memcmp (storage opt) (storage other) (osize opt) = 0"

section \<open>Addresses\<close>

text \<open>\<^verbatim>\<open>std::span<const std::byte, Size>(ptr, n)\<close>: a fixed extent must be met exactly.\<close>

definition fixed_span :: "nat \<Rightarrow> byte list \<Rightarrow> nat \<Rightarrow> exn + byte list" where
  "fixed_span extent mem n =
     (if n = extent \<and> n \<le> length mem then Inr (take n mem) else Inl (Undefined ''span extent''))"

text \<open>
  From a \<^verbatim>\<open>sockaddr\<close> pointer and a size. The extent is the template argument \<^verbatim>\<open>Size\<close>, which a
  constructor call cannot name, so it is \<^verbatim>\<open>sizeof(Addr)\<close>.
\<close>

definition address_of_sockaddr :: "bool \<Rightarrow> nat \<Rightarrow> byte list \<Rightarrow> nat \<Rightarrow> exn + socket_option" where
  "address_of_sockaddr ndebug sz addr n =
     (case fixed_span sz addr n of Inl x \<Rightarrow> Inl x | Inr s \<Rightarrow> option_of_span ndebug sz s)"

definition address_of_typed :: "bool \<Rightarrow> byte list \<Rightarrow> exn + socket_option" where
  "address_of_typed ndebug addr = option_of_span ndebug (length addr) addr"

text \<open>From an address of another type, whose structure is not larger.\<close>

definition address_of_other :: "bool \<Rightarrow> nat \<Rightarrow> socket_option \<Rightarrow> exn + socket_option" where
  "address_of_other ndebug sz other =
     (case option_span other of
        Inl x \<Rightarrow> Inl x
      | Inr s \<Rightarrow>
          (case fixed_span (length (storage other)) s (length s) of
             Inl x \<Rightarrow> Inl x
           | Inr s' \<Rightarrow> option_of_span ndebug sz s'))"

definition make_address :: "bool \<Rightarrow> nat \<Rightarrow> byte list option \<Rightarrow> exn + socket_option" where
  "make_address ndebug sz addr =
     (case addr of
        None \<Rightarrow> Inr (option_of_size sz sz)
      | Some a \<Rightarrow> address_of_sockaddr ndebug sz a sz)"

section \<open>Facts\<close>

lemma memcpy_fits [simp]:
  "length src \<le> length dst \<Longrightarrow> memcpy dst src (length src) = Inr (src @ drop (length src) dst)"
  by (simp add: memcpy_def)

lemma memcmp_prefix: "memcmp (take n xs @ zs) xs n = 0" if "n \<le> length xs"
  using that
proof (induction n arbitrary: xs)
  case (Suc n)
  then show ?case by (cases xs) auto
qed (cases xs; simp)

lemma memcmp_lexorder:
  assumes "n \<le> length xs" and "n \<le> length ys"
  shows "spaceship (memcmp xs ys n) 0 = spaceship (take n xs) (take n ys)"
  using assms
proof (induction xs ys n rule: memcmp.induct)
  case (1 x xs y ys n)
  then show ?case by (auto simp: spaceship_def split: if_splits)
qed (auto simp: spaceship_def)

text \<open>Within its array, an option is ordered by its size and then by its bytes.\<close>

definition option_wf :: "socket_option \<Rightarrow> bool" where
  "option_wf opt \<longleftrightarrow> osize opt \<le> length (storage opt)"

definition option_key :: "socket_option \<Rightarrow> nat \<times> byte list" where
  "option_key opt = (osize opt, take (osize opt) (storage opt))"

lemma option_compare_key:
  "option_wf a \<Longrightarrow> option_wf b \<Longrightarrow> option_compare a b = spaceship (option_key a) (option_key b)"
  using memcmp_lexorder [of "osize a" "storage a" "storage b"]
  by (auto simp: option_compare_def option_wf_def option_key_def spaceship_def split: if_splits)

interpretation option_order: three_way option_wf option_compare
  by (rule three_way_by_key [OF option_compare_key])

lemma option_of_span_wf: "option_of_span ndebug sz s = Inr opt \<Longrightarrow> option_wf opt"
  by (auto simp: option_of_span_def option_wf_def memcpy_def split: if_splits sum.splits)

text \<open>
  The options of type \<^verbatim>\<open>T\<close> with \<open>sizeof(T) = sz\<close> a program can build: from a size that the program keeps within
  the array, from a value, from a span or an address, by \<^verbatim>\<open>make_address\<close>, and by assigning through
  \<^verbatim>\<open>operator*\<close>.
\<close>

inductive built_option :: "bool \<Rightarrow> nat \<Rightarrow> socket_option \<Rightarrow> bool" for ndebug where
  sized: "n \<le> sz \<Longrightarrow> built_option ndebug sz (option_of_size sz n)"
| valued: "length val = sz \<Longrightarrow> option_of_value val = Inr opt \<Longrightarrow> built_option ndebug sz opt"
| spanned: "option_of_span ndebug sz bs = Inr opt \<Longrightarrow> built_option ndebug sz opt"
| from_sockaddr: "address_of_sockaddr ndebug sz addr n = Inr opt \<Longrightarrow> built_option ndebug sz opt"
| from_typed: "length addr = sz \<Longrightarrow> address_of_typed ndebug addr = Inr opt \<Longrightarrow> built_option ndebug sz opt"
| from_other: "built_option ndebug sz' other \<Longrightarrow> address_of_other ndebug sz other = Inr opt \<Longrightarrow>
    built_option ndebug sz opt"
| made: "make_address ndebug sz addr = Inr opt \<Longrightarrow> built_option ndebug sz opt"
| assigned: "built_option ndebug sz opt \<Longrightarrow> length val = sz \<Longrightarrow> built_option ndebug sz (deref_assign opt val)"

lemma option_of_span_typed:
  "option_of_span ndebug sz bs = Inr opt \<Longrightarrow> length (storage opt) = sz \<and> osize opt \<le> sz"
  by (auto simp: option_of_span_def memcpy_def split: if_splits sum.splits)

lemma address_of_sockaddr_typed:
  "address_of_sockaddr ndebug sz addr n = Inr opt \<Longrightarrow> length (storage opt) = sz \<and> osize opt \<le> sz"
  by (auto simp: address_of_sockaddr_def option_of_span_typed split: sum.splits)

lemma built_option_typed: "built_option ndebug sz opt \<Longrightarrow> length (storage opt) = sz \<and> osize opt \<le> sz"
proof (induction rule: built_option.induct)
  case (valued val sz opt)
  then show ?case by (auto simp: option_of_value_def memcpy_def)
next
  case (from_typed addr sz opt)
  then show ?case using option_of_span_typed [of ndebug sz addr opt] by (simp add: address_of_typed_def)
next
  case (from_other sz' other sz opt)
  then show ?case by (auto simp: address_of_other_def option_of_span_typed split: sum.splits)
next
  case (made sz addr opt)
  then show ?case
    by (auto simp: make_address_def option_of_size_def address_of_sockaddr_typed split: option.splits)
qed (auto simp: option_of_size_def deref_assign_def option_of_span_typed address_of_sockaddr_typed)

section \<open>Properties\<close>

text \<open>
  (C39) An option built from a span of at most \<^verbatim>\<open>sizeof(T)\<close> and at least one byte gives that span back:
  its range is the original bytes, and the value read through \<^verbatim>\<open>operator*\<close> is those bytes followed by
  zeros. Conversely, an option built from the range of another equals it. Outside these bounds the two builds
  differ: in a debug build an assertion fails for longer spans and for the empty one, while in a release
  build a longer span is copied past the end of the array, which is undefined, and the empty span gives an
  option of size 0.
\<close>

theorem option_span_roundtrip:
  "(0 < length s \<and> length s \<le> sz \<longrightarrow>
     (\<exists>opt. option_of_span ndebug sz s = Inr opt \<and> option_span opt = Inr s \<and>
        deref opt = s @ replicate (sz - length s) 0)) \<and>
   (option_wf orig \<and> length (storage orig) = sz \<and> option_span orig = Inr s \<and> s \<noteq> [] \<longrightarrow>
     (\<exists>opt. option_of_span ndebug sz s = Inr opt \<and> option_equals opt orig)) \<and>
   (sz < length s \<longrightarrow>
     option_of_span ndebug sz s = Inl (if ndebug then Undefined ''memcpy'' else Assertion_failed)) \<and>
   option_of_span ndebug sz [] =
     (if ndebug then Inr \<lparr>storage = replicate sz 0, osize = 0\<rparr> else Inl Assertion_failed)"
proof (intro conjI impI)
  assume copy: "option_wf orig \<and> length (storage orig) = sz \<and> option_span orig = Inr s \<and> s \<noteq> []"
  then have s: "s = take (osize orig) (storage orig)" "osize orig \<le> sz" "length s = osize orig"
    by (auto simp: option_span_def subspan_def option_wf_def split: if_splits)
  then show "\<exists>opt. option_of_span ndebug sz s = Inr opt \<and> option_equals opt orig"
    using copy by (auto simp: option_of_span_def option_equals_def memcpy_def memcmp_prefix)
qed (auto simp: option_of_span_def option_span_def subspan_def deref_def memcpy_def)

theorem option_span_roundtrip_witness:
  "(\<exists>opt. option_of_span False 4 [1, 2] = Inr opt \<and> option_span opt = Inr [1, 2] \<and>
      deref opt = [1, 2, 0, 0]) \<and>
   (\<exists>opt. option_of_span True 4 [1, 2] = Inr opt \<and> option_equals opt \<lparr>storage = [1, 2, 3, 4], osize = 2\<rparr>) \<and>
   option_of_span False 1 [1, 2] = Inl Assertion_failed"
  using option_span_roundtrip [of "[1, 2]" 4 False] option_span_roundtrip [of "[1, 2]" 1 False]
    option_span_roundtrip [of "[1, 2]" 4 True "\<lparr>storage = [1, 2, 3, 4], osize = 2\<rparr>"]
  by (simp add: numeral_eq_Suc option_wf_def option_span_def subspan_def)

text \<open>
  (C23) The type invariant of options. However an option is built and assigned, its array has the size of
  its type and its own size lies within it, so the range from \<^verbatim>\<open>begin\<close> to \<^verbatim>\<open>end\<close> is a part of the array.
  The invariant rests on the program for one constructor whose outcome is defined: a size given at run time
  is stored as it is, and a larger one makes \<^verbatim>\<open>end\<close> point beyond the array.
\<close>

theorem option_type_invariant:
  "(built_option ndebug sz opt \<longrightarrow>
      length (deref opt) = sz \<and> (\<exists>s. option_span opt = Inr s \<and> s = take (osize opt) (deref opt) \<and>
        length s = osize opt \<and> osize opt \<le> sz)) \<and>
   (sz < n \<longrightarrow> option_span (option_of_size sz n) = Inl (Undefined ''subspan''))"
  using built_option_typed [of ndebug sz opt]
  by (auto simp: option_span_def subspan_def deref_def option_of_size_def)

theorem option_type_invariant_witness:
  "\<exists>s. option_span (option_of_size 16 16) = Inr s \<and> length s = 16"
  using option_type_invariant [of False 16 "option_of_size 16 16" 0] built_option.sized [of 16 16 False]
  by (auto simp: option_of_size_def)

text \<open>
  The assertion in the span constructor is stronger than its message. The message reads "if
  \<^verbatim>\<open>option.size() > 0\<close> then \<^verbatim>\<open>option.data()\<close> must not be NULL", which the empty span satisfies; the
  condition is the conjunction, so in a debug build an option cannot be built from an empty span
  (such as the one \<^verbatim>\<open>getsockname\<close> and \<^verbatim>\<open>getpeername\<close> return on failure), while a release build accepts it.
\<close>

theorem empty_span_assertion:
  "option_of_span False sz [] = Inl Assertion_failed \<and>
   option_of_span True sz [] = Inr (option_of_size sz 0)"
  by (simp add: option_of_span_def option_of_size_def memcpy_def)

text \<open>
  On options whose size lies within their array, \<^verbatim>\<open>operator<=>\<close> (size first, then \<^verbatim>\<open>memcmp\<close>) is a
  total preorder, and the separately written \<^verbatim>\<open>operator==\<close> agrees with it: both hold exactly of options
  with the same size and the same bytes in use.
\<close>

theorem option_comparison:
  assumes "option_wf a" and "option_wf b" and "option_wf c"
  shows "(op_le option_compare a b \<or> op_le option_compare b a) \<and>
    (op_le option_compare a b \<longrightarrow> op_le option_compare b c \<longrightarrow> op_le option_compare a c) \<and>
    (op_lt option_compare a b \<longleftrightarrow> \<not> op_le option_compare b a) \<and>
    (option_equals a b \<longleftrightarrow> op_eq option_compare a b) \<and>
    (option_equals a b \<longleftrightarrow> option_span a = option_span b)"
proof -
  have eq: "option_equals a b \<longleftrightarrow> op_eq option_compare a b"
    by (auto simp: option_equals_def op_eq_def option_compare_def spaceship_def)
  have "op_eq option_compare a b \<longleftrightarrow> option_key a = option_key b"
    using assms by (simp add: op_eq_def option_compare_key spaceship_def)
  moreover have "option_key a = option_key b \<longleftrightarrow> option_span a = option_span b"
    using assms unfolding option_key_def option_span_def subspan_def option_wf_def
    by (auto dest: arg_cong [of _ _ length] simp: min_def split: if_splits)
  ultimately show ?thesis
    using option_order.linear_preorder [OF assms] eq by blast
qed

theorem option_comparison_witness:
  "\<not> option_equals \<lparr>storage = [1, 2, 3], osize = 2\<rparr> \<lparr>storage = [1, 2, 9], osize = 3\<rparr>"
  using option_comparison [of "\<lparr>storage = [1, 2, 3], osize = 2\<rparr>"
      "\<lparr>storage = [1, 2, 9], osize = 3\<rparr>" "\<lparr>storage = [1, 2, 3], osize = 2\<rparr>"]
  by (auto simp: option_wf_def option_span_def subspan_def)

text \<open>
  Converting between address types. An address that fills its structure converts to an address
  of any type at least as large, with the same bytes in use and the rest zero; one whose size is
  smaller than its structure (for instance after it was assigned a shorter address returned by the
  kernel) cannot be converted: the span of fixed extent is built from a range of another size.
\<close>

theorem address_conversion:
  assumes "option_wf other" and "0 < osize other" and "length (storage other) \<le> sz"
  shows "if osize other = length (storage other)
    then \<exists>addr. address_of_other ndebug sz other = Inr addr \<and> option_span addr = option_span other \<and>
           deref addr = storage other @ replicate (sz - length (storage other)) 0
    else address_of_other ndebug sz other = Inl (Undefined ''span extent'')"
  using assms
  by (auto simp: address_of_other_def option_span_def subspan_def fixed_span_def option_of_span_def
      option_wf_def memcpy_def deref_def)

theorem address_conversion_witness:
  "address_of_other False 4 \<lparr>storage = [2, 0, 31], osize = 2\<rparr> = Inl (Undefined ''span extent'')"
  using address_conversion [of "\<lparr>storage = [2, 0, 31], osize = 2\<rparr>" 4 False]
  by (simp add: option_wf_def)

end
