(* ===== verification/Message_Buffer.thy ===== *)
theory Message_Buffer
  imports Platform Socket_Option
begin

text \<open>
  Scatter/gather buffers: the \<^verbatim>\<open>iovec\<close> operators of
  \<^verbatim>\<open>include/io/socket/detail/platforms/posix/socket_impl.hpp\<close>, the proxy iterator of
  \<^verbatim>\<open>include/io/socket/detail/buffer_iterator.hpp\<close> and the message types of
  \<^verbatim>\<open>include/io/socket/socket_message.hpp\<close>. A message buffer is the vector of its \<^verbatim>\<open>iovec\<close>s; lengths and
  addresses are 64-bit words. \<open>regions\<close> is the sequence of byte addresses a message denotes, the
  abstraction against which advancing is specified.
\<close>

section \<open>Native buffers\<close>

definition iov_advance :: "iovec \<Rightarrow> size_t \<Rightarrow> iovec" where
  "iov_advance buf len =
     (if iov_len buf \<le> len then \<lparr>iov_base = 0, iov_len = 0\<rparr>
      else \<lparr>iov_base = iov_base buf + len, iov_len = iov_len buf - len\<rparr>)"

text \<open>\<^verbatim>\<open>operator+\<close> takes a \<^verbatim>\<open>std::streamsize\<close>, converted to \<^verbatim>\<open>std::size_t\<close> for \<^verbatim>\<open>+=\<close>.\<close>

definition iov_plus :: "iovec \<Rightarrow> int \<Rightarrow> iovec" where
  "iov_plus buf len = iov_advance buf (word_of_int len)"

section \<open>Message buffers\<close>

type_synonym message_buffer = "iovec list"

text \<open>The constructor with an allocator, and \<^verbatim>\<open>native\<close>, which exposes the vector.\<close>

definition empty_message_buffer :: message_buffer where
  "empty_message_buffer = []"

definition message_native :: "message_buffer \<Rightarrow> iovec list" where
  "message_native bufs = bufs"

lemmas message_buffer_simps [simp] = empty_message_buffer_def message_native_def

text \<open>A contiguous range: its data pointer, its number of elements and the element size.\<close>

definition push_back_range :: "message_buffer \<Rightarrow> 64 word \<Rightarrow> size_t \<Rightarrow> size_t \<Rightarrow> message_buffer" where
  "push_back_range bufs data n sz = bufs @ [\<lparr>iov_base = data, iov_len = n * sz\<rparr>]"

definition push_back :: "message_buffer \<Rightarrow> iovec \<Rightarrow> message_buffer" where
  "push_back bufs buf = bufs @ [buf]"

definition emplace_back :: "message_buffer \<Rightarrow> 64 word \<Rightarrow> size_t \<Rightarrow> message_buffer" where
  "emplace_back bufs base len = bufs @ [\<lparr>iov_base = base, iov_len = len\<rparr>]"

text \<open>The variadic constructor pushes its ranges from left to right.\<close>

definition message_buffer_of :: "(64 word \<times> size_t \<times> size_t) list \<Rightarrow> message_buffer" where
  "message_buffer_of bs = foldl (\<lambda>bufs (data, n, sz). push_back_range bufs data n sz) empty_message_buffer bs"

definition message_size :: "message_buffer \<Rightarrow> nat" where
  "message_size bufs = length bufs"

text \<open>\<^verbatim>\<open>empty\<close> adds up the lengths in a \<^verbatim>\<open>std::size_t\<close>.\<close>

definition message_empty :: "message_buffer \<Rightarrow> bool" where
  "message_empty bufs \<longleftrightarrow> foldl (\<lambda>len buf. len + iov_len buf) 0 bufs = 0"

definition message_to_bool :: "message_buffer \<Rightarrow> bool" where
  "message_to_bool bufs \<longleftrightarrow> \<not> message_empty bufs"

text \<open>
  \<^verbatim>\<open>std::ranges::remove_if\<close> followed by \<^verbatim>\<open>erase\<close>, for a predicate that is called once per element from
  left to right, carries a state, and may modify the element: the elements it rejects are kept as
  it leaves them.
\<close>

fun remove_if :: "('s \<Rightarrow> 'a \<Rightarrow> bool \<times> 'a \<times> 's) \<Rightarrow> 's \<Rightarrow> 'a list \<Rightarrow> 'a list" where
  "remove_if p s [] = []"
| "remove_if p s (x # xs) =
     (case p s x of (drop_it, x', s') \<Rightarrow>
        if drop_it then remove_if p s' xs else x' # remove_if p s' xs)"

text \<open>
  The predicate of \<^verbatim>\<open>operator+=\<close>, with the captured \<^verbatim>\<open>len\<close> as its state. Its result is the value of
  \<^verbatim>\<open>(len < count) ? (len = 0) : (len -= count) >= 0\<close>, converted to \<^verbatim>\<open>bool\<close>.
\<close>

definition consume :: "size_t \<Rightarrow> iovec \<Rightarrow> bool \<times> iovec \<times> size_t" where
  "consume len buf =
     (if len = 0 then (False, buf, len)
      else let count = iov_len buf; buf' = iov_advance buf len
           in if len < count then (False, buf', 0)
              else (len - count \<ge> 0, buf', len - count))"

definition message_advance :: "message_buffer \<Rightarrow> size_t \<Rightarrow> message_buffer" where
  "message_advance bufs len = remove_if consume len bufs"

section \<open>Messages\<close>

record message_header =
  hdr_name :: "byte list"
  hdr_iov :: "iovec list"
  hdr_control :: "byte list"
  hdr_flags :: int

record socket_message =
  sm_address :: "socket_option option"
  sm_buffers :: message_buffer
  sm_control :: "byte list"
  sm_flags :: int

definition message_to_header :: "socket_message \<Rightarrow> exn + message_header" where
  "message_to_header msg =
     (let header = \<lparr>hdr_name = [], hdr_iov = message_native (sm_buffers msg), hdr_control = sm_control msg,
                    hdr_flags = sm_flags msg\<rparr>
      in case sm_address msg of
           None \<Rightarrow> Inr header
         | Some addr \<Rightarrow>
             (case option_span addr of Inl x \<Rightarrow> Inl x | Inr s \<Rightarrow> Inr (header\<lparr>hdr_name := s\<rparr>)))"

definition header_to_msghdr :: "message_header \<Rightarrow> msghdr" where
  "header_to_msghdr h =
     \<lparr>msg_name = hdr_name h, msg_namelen = of_nat (length (hdr_name h)),
      msg_iov = hdr_iov h, msg_iovlen = of_nat (length (hdr_iov h)),
      msg_control = hdr_control h, msg_controllen = of_nat (length (hdr_control h)),
      msg_flags = hdr_flags h\<rparr>"

definition message_to_msghdr :: "socket_message \<Rightarrow> exn + msghdr" where
  "message_to_msghdr msg =
     (case message_to_header msg of Inl x \<Rightarrow> Inl x | Inr h \<Rightarrow> Inr (header_to_msghdr h))"

section \<open>The buffer iterator\<close>

text \<open>
  An iterator into a vector is a position; it wraps the vector's own iterator \<^verbatim>\<open>it_\<close>. Dereferencing
  reads the \<^verbatim>\<open>iovec\<close> at the position and returns a span, here the pair of its pointer and length.
\<close>

record buffer_iterator =
  iter :: int

definition iter_make :: "int \<Rightarrow> buffer_iterator" where
  "iter_make it = \<lparr>iter = it\<rparr>"

definition iter_base :: "buffer_iterator \<Rightarrow> int" where
  "iter_base it = iter it"

definition iter_begin :: "message_buffer \<Rightarrow> buffer_iterator" where
  "iter_begin bufs = iter_make 0"

definition iter_end :: "message_buffer \<Rightarrow> buffer_iterator" where
  "iter_end bufs = iter_make (int (length bufs))"

definition iter_deref :: "message_buffer \<Rightarrow> buffer_iterator \<Rightarrow> exn + (64 word \<times> size_t)" where
  "iter_deref bufs it =
     (if 0 \<le> iter it \<and> iter it < int (length bufs)
      then let buf = bufs ! nat (iter it) in Inr (iov_base buf, iov_len buf)
      else Inl (Undefined ''iterator''))"

definition iter_add_assign :: "buffer_iterator \<Rightarrow> int \<Rightarrow> buffer_iterator" where
  "iter_add_assign it n = it\<lparr>iter := iter it + n\<rparr>"

definition iter_sub_assign :: "buffer_iterator \<Rightarrow> int \<Rightarrow> buffer_iterator" where
  "iter_sub_assign it n = it\<lparr>iter := iter it - n\<rparr>"

definition iter_plus :: "buffer_iterator \<Rightarrow> int \<Rightarrow> buffer_iterator" where
  "iter_plus it n = iter_add_assign it n"

definition iter_minus :: "buffer_iterator \<Rightarrow> int \<Rightarrow> buffer_iterator" where
  "iter_minus it n = iter_sub_assign it n"

definition iter_index :: "message_buffer \<Rightarrow> buffer_iterator \<Rightarrow> int \<Rightarrow> exn + (64 word \<times> size_t)" where
  "iter_index bufs it n = iter_deref bufs (iter_plus it n)"

definition iter_pre_inc :: "buffer_iterator \<Rightarrow> buffer_iterator" where
  "iter_pre_inc it = it\<lparr>iter := iter it + 1\<rparr>"

definition iter_pre_dec :: "buffer_iterator \<Rightarrow> buffer_iterator" where
  "iter_pre_dec it = it\<lparr>iter := iter it - 1\<rparr>"

text \<open>The postfix forms return the old iterator and leave the new one.\<close>

definition iter_post_inc :: "buffer_iterator \<Rightarrow> buffer_iterator \<times> buffer_iterator" where
  "iter_post_inc it = (let tmp = it in (tmp, iter_pre_inc it))"

definition iter_post_dec :: "buffer_iterator \<Rightarrow> buffer_iterator \<times> buffer_iterator" where
  "iter_post_dec it = (let tmp = it in (tmp, iter_pre_dec it))"

definition iter_distance :: "buffer_iterator \<Rightarrow> buffer_iterator \<Rightarrow> int" where
  "iter_distance lhs rhs = iter lhs - iter rhs"

definition iter_equals :: "buffer_iterator \<Rightarrow> buffer_iterator \<Rightarrow> bool" where
  "iter_equals lhs rhs \<longleftrightarrow> iter lhs = iter rhs"

definition iter_compare :: "buffer_iterator \<Rightarrow> buffer_iterator \<Rightarrow> strong_ordering" where
  "iter_compare lhs rhs = spaceship (iter lhs) (iter rhs)"

lemmas iter_defs = iter_make_def iter_base_def iter_begin_def iter_end_def iter_deref_def iter_add_assign_def
  iter_sub_assign_def iter_plus_def iter_minus_def iter_index_def iter_pre_inc_def iter_pre_dec_def
  iter_post_inc_def iter_post_dec_def iter_distance_def iter_equals_def

interpretation iterator_order: three_way "\<lambda>_. True" iter_compare
  by (rule three_way_by_key) (rule iter_compare_def)

section \<open>Regions\<close>

definition region :: "iovec \<Rightarrow> 64 word list" where
  "region b = map (\<lambda>i. iov_base b + of_nat i) [0..<unat (iov_len b)]"

definition regions :: "message_buffer \<Rightarrow> 64 word list" where
  "regions bufs = concat (map region bufs)"

lemma length_region [simp]: "length (region b) = unat (iov_len b)"
  by (simp add: region_def)

lemma regions_simps [simp]:
  "regions [] = []" "regions (b # bs) = region b @ regions bs"
  "regions (as @ bs) = regions as @ regions bs"
  by (simp_all add: regions_def)

lemma length_regions: "length (regions bufs) = sum_list (map (\<lambda>b. unat (iov_len b)) bufs)"
  by (induction bufs) auto

lemma region_advance: "region (iov_advance b n) = drop (unat n) (region b)"
proof (cases "iov_len b \<le> n")
  case True
  then show ?thesis by (simp add: iov_advance_def region_def word_le_nat_alt)
next
  case False
  then have "unat (iov_len b - n) = unat (iov_len b) - unat n"
    by (simp add: unat_sub word_le_nat_alt)
  with False show ?thesis
    by (intro nth_equalityI) (auto simp: iov_advance_def region_def algebra_simps)
qed

lemma remove_if_consume_0: "remove_if consume 0 bufs = bufs"
  by (induction bufs) (auto simp: consume_def)

lemma message_advance_simps:
  "message_advance [] n = []"
  "message_advance (b # bs) n =
     (if n = 0 then b # bs
      else if n < iov_len b then iov_advance b n # bs
      else message_advance bs (n - iov_len b))"
  by (simp_all add: message_advance_def consume_def remove_if_consume_0 Let_def)

lemma regions_advance: "regions (message_advance bufs n) = drop (unat n) (regions bufs)"
proof (induction bufs arbitrary: n)
  case (Cons b bs)
  have "unat (n - iov_len b) = unat n - unat (iov_len b)" if "\<not> n < iov_len b"
    using that by (simp add: unat_sub word_le_nat_alt word_less_nat_alt)
  moreover have "unat n < unat (iov_len b)" if "n < iov_len b"
    using that by (simp add: word_less_nat_alt)
  ultimately show ?case
    using Cons by (auto simp: message_advance_simps region_advance word_less_nat_alt)
qed (simp add: message_advance_simps)

lemma advance_advance:
  assumes "unat m + unat n < 2 ^ 64"
  shows "message_advance (message_advance bufs m) n = message_advance bufs (m + n)"
  using assms
proof (induction bufs arbitrary: m)
  case (Cons b bs)
  have mn: "unat (m + n) = unat m + unat n"
    using Cons.prems by (simp add: unat_word_ariths)
  show ?case
  proof (cases "m = 0 \<or> iov_len b \<le> m")
    case True
    then consider "m = 0" | "m \<noteq> 0" "iov_len b \<le> m" by blast
    then show ?thesis
    proof cases
      case 2
      then have sub: "unat (m - iov_len b) = unat m - unat (iov_len b)"
        by (simp add: unat_sub word_le_nat_alt)
      have "message_advance (message_advance bs (m - iov_len b)) n =
          message_advance bs (m - iov_len b + n)"
        using Cons.prems sub by (intro Cons.IH) simp
      moreover have "m + n \<noteq> 0" "\<not> m + n < iov_len b"
        using 2 mn by (auto simp: word_less_nat_alt word_le_nat_alt unat_eq_zero
            dest!: arg_cong [of _ _ unat])
      moreover have "\<not> m < iov_len b" using 2 by simp
      ultimately show ?thesis
        using 2(1) by (simp add: message_advance_simps(2) algebra_simps)
    qed (simp add: message_advance_simps)
  next
    case False
    then have lt: "m < iov_len b" and "m \<noteq> 0" by auto
    let ?b = "\<lparr>iov_base = iov_base b + m, iov_len = iov_len b - m\<rparr>"
    have adv: "message_advance (b # bs) m = ?b # bs"
      using lt \<open>m \<noteq> 0\<close> by (auto simp: message_advance_simps iov_advance_def dest: leD)
    have ulen: "unat (iov_len b - m) = unat (iov_len b) - unat m"
      using lt by (simp add: unat_sub word_less_nat_alt word_le_nat_alt)
    have neq0: "m + n \<noteq> 0"
      using mn \<open>m \<noteq> 0\<close> by (auto simp: unat_eq_zero dest!: arg_cong [of _ _ unat])
    have cmp: "n < iov_len b - m \<longleftrightarrow> m + n < iov_len b"
      using lt mn ulen by (auto simp: word_less_nat_alt)
    show ?thesis
    proof (cases "n < iov_len b - m")
      case True
      moreover have "\<not> iov_len b - m \<le> n" "\<not> iov_len b \<le> m + n"
        using True cmp by (auto dest: leD)
      ultimately show ?thesis
        using cmp neq0 adv
        by (simp add: message_advance_simps(2) iov_advance_def algebra_simps)
    next
      case False
      then have "n \<noteq> 0" using lt cmp by auto
      with False show ?thesis
        using cmp neq0 adv by (simp add: message_advance_simps(2) algebra_simps)
    qed
  qed
qed (simp add: message_advance_simps)

lemma foldl_len: "foldl (\<lambda>len buf. len + iov_len buf) a bufs =
    a + of_nat (sum_list (map (\<lambda>b. unat (iov_len b)) bufs))"
  by (induction bufs arbitrary: a) auto

lemma message_empty_iff_dvd: "message_empty bufs \<longleftrightarrow> 2 ^ 64 dvd length (regions bufs)"
  unfolding message_empty_def foldl_len length_regions
  by (simp add: word_of_nat_eq_0_iff)

section \<open>Properties\<close>

text \<open>
  (C15) \<^verbatim>\<open>buffers += len\<close> removes exactly the first \<^verbatim>\<open>len\<close> bytes: the addresses the message denotes
  afterwards are the old ones without the first \<^verbatim>\<open>len\<close>, for every vector of buffers (empty ones
  included) and every count, also one beyond the end.
\<close>

theorem advance_drops_bytes: "regions (message_advance bufs n) = drop (unat n) (regions bufs)"
  by (rule regions_advance)

text \<open>
  Advancing in two steps is advancing by the sum: not only the bytes, the vectors of buffers are
  the same, as long as the sum does not wrap around.
\<close>

theorem advance_additive:
  assumes "unat m + unat n < 2 ^ 64"
  shows "message_advance (message_advance bufs m) n = message_advance bufs (m + n)"
  using assms by (rule advance_advance)

theorem advance_additive_witness:
  "message_advance (message_advance
     [\<lparr>iov_base = 100, iov_len = 4\<rparr>, \<lparr>iov_base = 0, iov_len = 0\<rparr>, \<lparr>iov_base = 300, iov_len = 8\<rparr>] 3) 3 =
   [\<lparr>iov_base = 302, iov_len = 6\<rparr>]"
  using advance_additive [of 3 3]
  by (simp add: message_advance_simps iov_advance_def)

text \<open>
  (C38) \<^verbatim>\<open>empty()\<close> is true exactly when the total length is a multiple of the range of \<^verbatim>\<open>std::size_t\<close>: for
  every message of less than \<open>2 ^ 64\<close> bytes that means no bytes are left, whatever the number of
  buffers.
\<close>

theorem message_empty_correct:
  "(message_empty bufs \<longleftrightarrow> 2 ^ 64 dvd length (regions bufs)) \<and>
   (length (regions bufs) < 2 ^ 64 \<longrightarrow>
      (message_empty bufs \<longleftrightarrow> regions bufs = []) \<and> (message_to_bool bufs \<longleftrightarrow> regions bufs \<noteq> []))"
proof -
  have "message_empty bufs \<longleftrightarrow> regions bufs = []" if "length (regions bufs) < 2 ^ 64"
    unfolding message_empty_iff_dvd using nat_dvd_not_less [OF _ that] by (cases "regions bufs") auto
  then show ?thesis by (auto simp: message_empty_iff_dvd message_to_bool_def)
qed

theorem message_empty_correct_witness:
  "message_empty [\<lparr>iov_base = 5, iov_len = 0\<rparr>, \<lparr>iov_base = 9, iov_len = 0\<rparr>]"
  using message_empty_correct [of "[\<lparr>iov_base = 5, iov_len = 0\<rparr>, \<lparr>iov_base = 9, iov_len = 0\<rparr>]"]
  by (simp add: region_def)

text \<open>
  The bytes written by a sequence of partial writes: each takes a prefix of what the message still
  denotes, and the message is advanced by its length.
\<close>

fun partial_writes :: "message_buffer \<Rightarrow> size_t list \<Rightarrow> 64 word list" where
  "partial_writes bufs [] = []"
| "partial_writes bufs (n # ns) =
     take (unat n) (regions bufs) @ partial_writes (message_advance bufs n) ns"

text \<open>
  Advancing by what each partial write accepted never repeats or skips a byte: the writes
  together are the first bytes of the message in order, the rest is still in the message, and when
  the counts add up to the length, everything was written once and the message is empty.
\<close>

theorem partial_writes_exact:
  "partial_writes bufs ns = take (sum_list (map unat ns)) (regions bufs) \<and>
   regions (foldl message_advance bufs ns) = drop (sum_list (map unat ns)) (regions bufs) \<and>
   (length (regions bufs) \<le> sum_list (map unat ns) \<longrightarrow>
      partial_writes bufs ns = regions bufs \<and> message_empty (foldl message_advance bufs ns))"
proof -
  have "partial_writes bufs ns = take (sum_list (map unat ns)) (regions bufs) \<and>
      regions (foldl message_advance bufs ns) = drop (sum_list (map unat ns)) (regions bufs)"
  proof (induction ns arbitrary: bufs)
    case (Cons n ns)
    have "partial_writes (message_advance bufs n) ns =
        take (sum_list (map unat ns)) (drop (unat n) (regions bufs))"
      and "regions (foldl message_advance (message_advance bufs n) ns) =
        drop (sum_list (map unat ns)) (drop (unat n) (regions bufs))"
      using Cons.IH [of "message_advance bufs n"] by (auto simp: regions_advance)
    then show ?case
      by (simp add: take_add [of "unat n"] add.commute)
  qed simp
  then show ?thesis by (auto simp: message_empty_iff_dvd)
qed

theorem partial_writes_exact_witness:
  "partial_writes [\<lparr>iov_base = 10, iov_len = 2\<rparr>, \<lparr>iov_base = 20, iov_len = 1\<rparr>] [1, 2] = [10, 11, 20]"
  using partial_writes_exact [of "[\<lparr>iov_base = 10, iov_len = 2\<rparr>, \<lparr>iov_base = 20, iov_len = 1\<rparr>]" "[1, 2]"]
  by (simp add: region_def upt_rec)

text \<open>
  The proxy iterator is a random access iterator over the buffers: distance and addition are
  inverse, the increment operators move by one and the postfix ones return the old position, the
  comparison operators agree with the distance, and indexing from \<^verbatim>\<open>begin()\<close> gives the span of every
  buffer in order, \<^verbatim>\<open>end()\<close> being \<^verbatim>\<open>size()\<close> steps away.
\<close>

theorem buffer_iterator_laws:
  "iter_distance (iter_plus it n) it = n \<and> iter_minus (iter_plus it n) n = it \<and>
   iter_pre_inc it = iter_plus it 1 \<and> iter_pre_dec (iter_pre_inc it) = it \<and>
   iter_post_inc it = (it, iter_plus it 1) \<and> iter_post_dec it = (it, iter_minus it 1) \<and>
   (iter_equals it jt \<longleftrightarrow> op_eq iter_compare it jt) \<and>
   (op_lt iter_compare it jt \<longleftrightarrow> 0 < iter_distance jt it) \<and>
   (op_le iter_compare it jt \<longleftrightarrow> \<not> op_lt iter_compare jt it) \<and>
   iter_plus (iter_begin bufs) (int (message_size bufs)) = iter_end bufs \<and>
   map (\<lambda>i. iter_index bufs (iter_begin bufs) (int i)) [0..<message_size bufs] =
     map (\<lambda>b. Inr (iov_base b, iov_len b)) bufs"
proof -
  have "map (\<lambda>i. iter_index bufs (iter_begin bufs) (int i)) [0..<message_size bufs] =
      map (\<lambda>b. Inr (iov_base b, iov_len b)) bufs"
    by (intro nth_equalityI) (auto simp: iter_defs message_size_def Let_def)
  moreover have "op_le iter_compare it jt \<longleftrightarrow> \<not> op_lt iter_compare jt it"
    using iterator_order.lt_iff_not_le [of jt it] by simp
  ultimately show ?thesis
    by (auto simp: iter_defs message_size_def op_defs iter_compare_def spaceship_def)
qed

text \<open>
  What the kernel is handed for a message: the message's own buffers in order with their count,
  the address bytes in use (none without an address), the control data, and the flags. The
  conversion fails only for an address whose size exceeds its structure.
\<close>

theorem message_conversion:
  "(\<forall>addr. sm_address msg = Some addr \<longrightarrow> option_wf addr) \<longrightarrow>
   (\<exists>h. message_to_msghdr msg = Inr h \<and> msg_iov h = sm_buffers msg \<and>
      msg_iovlen h = of_nat (message_size (sm_buffers msg)) \<and>
      msg_name h = (case sm_address msg of None \<Rightarrow> [] | Some addr \<Rightarrow> take (osize addr) (storage addr)) \<and>
      msg_namelen h = (case sm_address msg of None \<Rightarrow> 0 | Some addr \<Rightarrow> of_nat (osize addr)) \<and>
      msg_control h = sm_control msg \<and> msg_controllen h = of_nat (length (sm_control msg)) \<and>
      msg_flags h = sm_flags msg)"
  by (cases "sm_address msg")
    (auto simp: message_to_msghdr_def message_to_header_def header_to_msghdr_def option_span_def
      subspan_def option_wf_def message_size_def min_def)

theorem message_conversion_witness:
  "\<exists>h. message_to_msghdr \<lparr>sm_address = Some \<lparr>storage = [2, 0, 31, 144], osize = 3\<rparr>,
       sm_buffers = [\<lparr>iov_base = 64, iov_len = 14\<rparr>], sm_control = [], sm_flags = 0\<rparr> = Inr h \<and>
     msg_name h = [2, 0, 31] \<and> msg_iovlen h = 1"
  using message_conversion [of "\<lparr>sm_address = Some \<lparr>storage = [2, 0, 31, 144], osize = 3\<rparr>,
       sm_buffers = [\<lparr>iov_base = 64, iov_len = 14\<rparr>], sm_control = [], sm_flags = 0\<rparr>"]
  by (auto simp: option_wf_def message_size_def)

end
