(* ===== verification/Sync_Operations.thy ===== *)
theory Sync_Operations
  imports Socket_Handle Message_Buffer
begin

text \<open>
  The synchronous socket operations: the \<^verbatim>\<open>tag_invoke\<close> overloads of
  \<^verbatim>\<open>include/io/socket/detail/sync_operations.hpp\<close> for a socket handle, with the platform wrappers of
  \<^verbatim>\<open>platforms/posix/socket_impl.hpp\<close> that they call. The operations that retry interrupted calls may
  loop for ever, so they return an option; \<open>None\<close> is "never returns".
\<close>

section \<open>Operations\<close>

definition native_fd :: "sid \<Rightarrow> 'w env \<Rightarrow> native_socket_type" where
  "native_fd s e = to_native (handles e s)"

text \<open>Calls that only read their arguments: the loop state is the environment.\<close>

definition plain_call :: "'w syscall \<Rightarrow> (unit, 'w) call_state \<Rightarrow> int \<times> (unit, 'w) call_state" where
  "plain_call call st = (case run_sys call (snd st) of (r, e') \<Rightarrow> (r, (), e'))"

definition accept_call ::
  "'w os \<Rightarrow> native_socket_type \<Rightarrow> (byte list \<times> 32 word, 'w) call_state
     \<Rightarrow> int \<times> (byte list \<times> 32 word, 'w) call_state" where
  "accept_call os sock st =
     (case run_buffer_sys (os_accept os sock) (fst (fst st)) (snd (fst st)) (snd st) of
        ((r, buf, len), e') \<Rightarrow> (r, (buf, len), e'))"

text \<open>
  \<^verbatim>\<open>accept\<close>: the new handle is built from the accepted descriptor (or from \<^verbatim>\<open>INVALID_SOCKET\<close> when the call
  failed) in a fresh object, and the address is the part of the buffer the kernel reports.
\<close>

definition sync_accept ::
  "'w os \<Rightarrow> sid \<Rightarrow> byte list \<Rightarrow> 'w env \<Rightarrow> ((exn + sid \<times> byte list) \<times> 'w env) option" where
  "sync_accept os s address e =
     map_option (\<lambda>(sockfd, (buf, socklen), e1).
       let new = next_sid e1 in
       case construct_native os new sockfd (e1\<lparr>next_sid := Suc new\<rparr>) of
         (Inl x, e2) \<Rightarrow> (Inl x, e2)
       | (Inr _, e2) \<Rightarrow>
           (case subspan buf (unat socklen) of
              Inl x \<Rightarrow> (Inl x, e2)
            | Inr addr \<Rightarrow> (Inr (new, addr), e2)))
     (retry_eintr (\<lambda>r. r = INVALID_SOCKET) (accept_call os (native_fd s e))
       ((address, of_nat (length address)), e))"

definition sync_bind :: "'w os \<Rightarrow> sid \<Rightarrow> byte list \<Rightarrow> 'w env \<Rightarrow> int \<times> 'w env" where
  "sync_bind os s address e = run_sys (os_bind os (native_fd s e) address) e"

definition sync_connect :: "'w os \<Rightarrow> sid \<Rightarrow> byte list \<Rightarrow> 'w env \<Rightarrow> (int \<times> 'w env) option" where
  "sync_connect os s address e =
     map_option (\<lambda>(r, _, e'). (r, e'))
       (retry_eintr (\<lambda>r. r = - 1) (plain_call (os_connect os (native_fd s e) address)) ((), e))"

definition sync_fcntl :: "'w os \<Rightarrow> sid \<Rightarrow> int \<Rightarrow> int list \<Rightarrow> 'w env \<Rightarrow> int \<times> 'w env" where
  "sync_fcntl os s cmd args e = sys_fcntl os (native_fd s e) cmd args e"

definition sync_getpeername ::
  "'w os \<Rightarrow> sid \<Rightarrow> byte list \<Rightarrow> 'w env \<Rightarrow> (exn + byte list) \<times> 'w env" where
  "sync_getpeername os s address e =
     (case run_buffer_sys (os_getpeername os (native_fd s e)) address (of_nat (length address)) e of
        ((r, buf, socklen), e') \<Rightarrow>
          if r \<noteq> 0 then (Inr [], e') else (subspan buf (unat socklen), e'))"

definition sync_getsockname ::
  "'w os \<Rightarrow> sid \<Rightarrow> byte list \<Rightarrow> 'w env \<Rightarrow> (exn + byte list) \<times> 'w env" where
  "sync_getsockname os s address e =
     (case run_buffer_sys (os_getsockname os (native_fd s e)) address (of_nat (length address)) e of
        ((r, buf, socklen), e') \<Rightarrow>
          if r \<noteq> 0 then (Inr [], e') else (subspan buf (unat socklen), e'))"

text \<open>The option buffer is the caller's: its new contents are returned beside the result.\<close>

definition sync_getsockopt ::
  "'w os \<Rightarrow> sid \<Rightarrow> int \<Rightarrow> int \<Rightarrow> byte list \<Rightarrow> 'w env
     \<Rightarrow> (exn + int \<times> byte list) \<times> byte list \<times> 'w env" where
  "sync_getsockopt os s level optname opt e =
     (case run_buffer_sys (os_getsockopt os (native_fd s e) level optname) opt
         (of_nat (length opt)) e of
        ((r, buf, optlen), e') \<Rightarrow>
          (case subspan buf (unat optlen) of
             Inl x \<Rightarrow> (Inl x, buf, e')
           | Inr v \<Rightarrow> (Inr (r, v), buf, e')))"

definition sync_listen :: "'w os \<Rightarrow> sid \<Rightarrow> int \<Rightarrow> 'w env \<Rightarrow> int \<times> 'w env" where
  "sync_listen os s backlog e = run_sys (os_listen os (native_fd s e) backlog) e"

definition recvmsg_call ::
  "'w os \<Rightarrow> native_socket_type \<Rightarrow> int \<Rightarrow> (msghdr, 'w) call_state \<Rightarrow> int \<times> (msghdr, 'w) call_state" where
  "recvmsg_call os sock flags st =
     (case os_recvmsg os sock (fst st) flags (world (snd st)) of (r, err, msg', w) \<Rightarrow>
        (r, msg', (snd st)\<lparr>world := w, errno := (if r < 0 then err else errno (snd st))\<rparr>))"

text \<open>The wrappers on descriptors in \<^verbatim>\<open>platforms/posix/socket_impl.hpp\<close> make a single call.\<close>

definition sys_sendmsg ::
  "'w os \<Rightarrow> native_socket_type \<Rightarrow> msghdr \<Rightarrow> int \<Rightarrow> 'w env \<Rightarrow> int \<times> 'w env" where
  "sys_sendmsg os socket msg flags e = run_sys (os_sendmsg os socket msg flags) e"

definition sys_recvmsg ::
  "'w os \<Rightarrow> native_socket_type \<Rightarrow> msghdr \<Rightarrow> int \<Rightarrow> 'w env \<Rightarrow> int \<times> msghdr \<times> 'w env" where
  "sys_recvmsg os socket msg flags e = recvmsg_call os socket flags (msg, e)"

text \<open>\<^verbatim>\<open>Message = msghdr\<close>: the call works on the caller's header.\<close>

definition sync_recvmsg_native ::
  "'w os \<Rightarrow> sid \<Rightarrow> msghdr \<Rightarrow> int \<Rightarrow> 'w env \<Rightarrow> (int \<times> msghdr \<times> 'w env) option" where
  "sync_recvmsg_native os s msg flags e =
     retry_eintr (\<lambda>len. len < 0) (recvmsg_call os (native_fd s e) flags) (msg, e)"

text \<open>
  \<^verbatim>\<open>Message = socket_message\<close>: the call works on a converted header, whose pointers refer to the
  message's own address and control storage, so what the kernel writes there is in the message
  afterwards; the flags are copied back.
\<close>

definition written_through :: "byte list \<Rightarrow> nat \<Rightarrow> byte list \<Rightarrow> byte list" where
  "written_through old n new = take n new @ drop (min n (length new)) old"

definition message_after :: "socket_message \<Rightarrow> msghdr \<Rightarrow> socket_message" where
  "message_after msg h =
     msg\<lparr>sm_address := map_option (\<lambda>a. a\<lparr>storage := written_through (storage a) (osize a) (msg_name h)\<rparr>)
            (sm_address msg),
         sm_control := written_through (sm_control msg) (length (sm_control msg)) (msg_control h),
         sm_flags := msg_flags h\<rparr>"

definition sync_recvmsg ::
  "'w os \<Rightarrow> sid \<Rightarrow> socket_message \<Rightarrow> int \<Rightarrow> 'w env
     \<Rightarrow> ((exn + int \<times> socket_message) \<times> 'w env) option" where
  "sync_recvmsg os s msg flags e =
     (case message_to_msghdr msg of
        Inl x \<Rightarrow> Some (Inl x, e)
      | Inr h \<Rightarrow>
          map_option (\<lambda>(len, h', e'). (Inr (len, message_after msg h'), e'))
            (retry_eintr (\<lambda>len. len < 0) (recvmsg_call os (native_fd s e) flags) (h, e)))"

definition sync_sendmsg_native ::
  "'w os \<Rightarrow> sid \<Rightarrow> msghdr \<Rightarrow> int \<Rightarrow> 'w env \<Rightarrow> (int \<times> 'w env) option" where
  "sync_sendmsg_native os s h flags e =
     map_option (\<lambda>(len, _, e'). (len, e'))
       (retry_eintr (\<lambda>len. len < 0) (plain_call (os_sendmsg os (native_fd s e) h flags)) ((), e))"

definition sync_sendmsg ::
  "'w os \<Rightarrow> sid \<Rightarrow> socket_message \<Rightarrow> int \<Rightarrow> 'w env \<Rightarrow> ((exn + int) \<times> 'w env) option" where
  "sync_sendmsg os s msg flags e =
     (case message_to_msghdr msg of
        Inl x \<Rightarrow> Some (Inl x, e)
      | Inr h \<Rightarrow> map_option (\<lambda>(len, e'). (Inr len, e')) (sync_sendmsg_native os s h flags e))"

definition sync_setsockopt ::
  "'w os \<Rightarrow> sid \<Rightarrow> int \<Rightarrow> int \<Rightarrow> byte list \<Rightarrow> 'w env \<Rightarrow> int \<times> 'w env" where
  "sync_setsockopt os s level optname opt e =
     run_sys (os_setsockopt os (native_fd s e) level optname opt) e"

definition sync_shutdown :: "'w os \<Rightarrow> sid \<Rightarrow> int \<Rightarrow> 'w env \<Rightarrow> int \<times> 'w env" where
  "sync_shutdown os s how e = run_sys (os_shutdown os (native_fd s e) how) e"

section \<open>Frames\<close>

text \<open>A system call changes the world and errno, and nothing the library keeps.\<close>

definition same_objects :: "'w env \<Rightarrow> 'w env \<Rightarrow> bool" where
  "same_objects e e' \<longleftrightarrow> handles e' = handles e \<and> next_sid e' = next_sid e \<and>
     fair_counter e' = fair_counter e \<and> user_flags e' = user_flags e"

lemma same_objects_refl [simp]: "same_objects e e"
  by (simp add: same_objects_def)

lemma same_objects_trans: "same_objects e e' \<Longrightarrow> same_objects e' e'' \<Longrightarrow> same_objects e e''"
  by (simp add: same_objects_def)

lemma run_sys_same_objects: "same_objects e (snd (run_sys call e))"
  by (simp add: same_objects_def)

lemma run_buffer_sys_same_objects: "same_objects e (snd (run_buffer_sys call buf len e))"
  by (simp add: same_objects_def run_buffer_sys_def split: prod.splits)

lemma plain_call_same_objects: "same_objects (snd st) (snd (snd (plain_call call st)))"
  using run_sys_same_objects [of "snd st" call] by (auto simp: plain_call_def split: prod.splits)

lemma accept_call_same_objects: "same_objects (snd st) (snd (snd (accept_call os sock st)))"
  using run_buffer_sys_same_objects [of "snd st" "os_accept os sock"]
  by (auto simp: accept_call_def split: prod.splits) (metis snd_conv)

lemma recvmsg_call_same_objects: "same_objects (snd st) (snd (snd (recvmsg_call os sock flags st)))"
  by (simp add: recvmsg_call_def same_objects_def split: prod.splits)

lemma retry_same_objects:
  assumes call: "\<And>st. same_objects (snd st) (snd (snd (call st)))"
    and "retry_eintr failed call st = Some res"
  shows "same_objects (snd st) (snd (snd res))"
proof -
  have "same_objects (snd st) (snd (after_calls call n st))" for n
    by (induction n arbitrary: st) (simp, metis after_calls.simps(2) call same_objects_trans)
  moreover obtain n where "res = call (after_calls call n st)"
    using assms(2) by (auto simp: retry_eintr_iff)
  ultimately show ?thesis using call same_objects_trans by metis
qed

lemma after_accept_calls_same_objects:
  assumes "accept_call os sock (after_calls (accept_call os sock) n st) = (r, b, e1)"
    and "settles_at failed (accept_call os sock) st n"
  shows "same_objects (snd st) e1"
proof -
  have "retry_eintr failed (accept_call os sock) st = Some (r, b, e1)"
    using retry_eintr_settles [OF assms(2)] assms(1) by simp
  from retry_same_objects [OF accept_call_same_objects this] show ?thesis by simp
qed

lemma retry_eintr_outcome_iff:
  "retry_eintr failed call st = Some (r, st') \<longleftrightarrow>
     (\<exists>n. settles_at failed call st n \<and> call (after_calls call n st) = (r, st'))"
  unfolding retry_eintr_iff by metis

lemma retried_result_iff:
  "map_option (\<lambda>(r, u::unit, e'). (r, e')) (retry_eintr failed call st) = Some (r, e') \<longleftrightarrow>
     (\<exists>n. settles_at failed call st n \<and> call (after_calls call n st) = (r, (), e'))"
proof -
  have "map_option (\<lambda>(r, u::unit, e'). (r, e')) (retry_eintr failed call st) = Some (r, e') \<longleftrightarrow>
      retry_eintr failed call st = Some (r, (), e')"
    by (cases "retry_eintr failed call st") auto
  then show ?thesis by (simp only: retry_eintr_outcome_iff)
qed

text \<open>The operations on handles are the wrappers on descriptors, but for calls that are interrupted.\<close>

lemma native_send_wrapper_agrees:
  assumes "\<not> (fst (sys_sendmsg os (native_fd s e) h flags e) < 0 \<and>
      errno (snd (sys_sendmsg os (native_fd s e) h flags e)) = EINTR)"
  shows "sync_sendmsg_native os s h flags e = Some (sys_sendmsg os (native_fd s e) h flags e)"
proof (cases "sys_sendmsg os (native_fd s e) h flags e")
  case (Pair r e')
  then have "plain_call (os_sendmsg os (native_fd s e) h flags) ((), e) = (r, (), e')"
    by (simp add: plain_call_def sys_sendmsg_def)
  then show ?thesis
    using assms Pair by (subst sync_sendmsg_native_def, subst retry_eintr.simps) (auto simp: interrupted_def)
qed

lemma native_recv_wrapper_agrees:
  assumes "\<not> (fst (sys_recvmsg os (native_fd s e) h flags e) < 0 \<and>
      errno (snd (snd (sys_recvmsg os (native_fd s e) h flags e))) = EINTR)"
  shows "sync_recvmsg_native os s h flags e = Some (sys_recvmsg os (native_fd s e) h flags e)"
  using assms
  by (subst sync_recvmsg_native_def, subst retry_eintr.simps)
    (auto simp: interrupted_def sys_recvmsg_def)

section \<open>Properties\<close>

text \<open>
  (C29) Interrupted calls are retried, and only they: \<open>connect\<close>, \<open>sendmsg\<close> and \<open>recvmsg\<close> return exactly
  the outcome of the first call of the sequence that is not a failure with EINTR, and they fail to
  return only when every call of the sequence is interrupted.
\<close>

theorem interrupted_calls_retried:
  "(sync_connect os s a e = Some (r, e') \<longleftrightarrow>
      (\<exists>n. settles_at (\<lambda>r. r = - 1) (plain_call (os_connect os (native_fd s e) a)) ((), e) n \<and>
         plain_call (os_connect os (native_fd s e) a)
           (after_calls (plain_call (os_connect os (native_fd s e) a)) n ((), e)) = (r, (), e'))) \<and>
   (sync_connect os s a e = None \<longleftrightarrow>
      (\<forall>n. interrupted (\<lambda>r. r = - 1) (plain_call (os_connect os (native_fd s e) a)
         (after_calls (plain_call (os_connect os (native_fd s e) a)) n ((), e))))) \<and>
   (sync_sendmsg_native os s h flags e = Some (r, e') \<longleftrightarrow>
      (\<exists>n. settles_at (\<lambda>r. r < 0) (plain_call (os_sendmsg os (native_fd s e) h flags)) ((), e) n \<and>
         plain_call (os_sendmsg os (native_fd s e) h flags)
           (after_calls (plain_call (os_sendmsg os (native_fd s e) h flags)) n ((), e)) = (r, (), e'))) \<and>
   (sync_sendmsg_native os s h flags e = None \<longleftrightarrow>
      (\<forall>n. interrupted (\<lambda>r. r < 0) (plain_call (os_sendmsg os (native_fd s e) h flags)
         (after_calls (plain_call (os_sendmsg os (native_fd s e) h flags)) n ((), e))))) \<and>
   (sync_recvmsg_native os s h flags e = Some (r, h', e') \<longleftrightarrow>
      (\<exists>n. settles_at (\<lambda>r. r < 0) (recvmsg_call os (native_fd s e) flags) (h, e) n \<and>
         recvmsg_call os (native_fd s e) flags
           (after_calls (recvmsg_call os (native_fd s e) flags) n (h, e)) = (r, h', e'))) \<and>
   (sync_recvmsg_native os s h flags e = None \<longleftrightarrow>
      (\<forall>n. interrupted (\<lambda>r. r < 0) (recvmsg_call os (native_fd s e) flags
         (after_calls (recvmsg_call os (native_fd s e) flags) n (h, e)))))"
  unfolding sync_connect_def sync_sendmsg_native_def sync_recvmsg_native_def
    option.map_disc_iff retry_eintr_None_iff retried_result_iff retry_eintr_outcome_iff
  by (intro conjI refl)

text \<open>
  (C25) \<open>accept\<close>: once the calls settle with descriptor \<open>fd\<close> and a reported length, the operation
  returns a fresh handle that owns \<open>fd\<close> (or the invalid socket after a failure) and the first
  reported bytes of the address buffer. Every other handle is untouched. A reported length beyond
  the buffer, which the kernel gives for a truncated address, is out of the span's range; and a
  descriptor that is not a socket throws and creates no handle.
\<close>

theorem accept_outcome:
  assumes "settles_at (\<lambda>r. r = INVALID_SOCKET) (accept_call os (native_fd s e))
      ((address, of_nat (length address)), e) n"
    and "accept_call os (native_fd s e) (after_calls (accept_call os (native_fd s e)) n
      ((address, of_nat (length address)), e)) = (sockfd, (buf, len), e1)"
  shows "\<exists>e2. sync_accept os s address e =
      Some (if sockfd \<noteq> INVALID_SOCKET \<and>
              fst (os_getsockopt os sockfd SOL_SOCKET SO_TYPE (replicate 4 0) 4 (world e1)) \<noteq> 0
            then Inl (System_error (errno e2))
            else if unat len \<le> length buf then Inr (next_sid e, take (unat len) buf)
            else Inl (Undefined ''subspan''), e2) \<and>
      handles e2 =
        (if sockfd \<noteq> INVALID_SOCKET \<and>
           fst (os_getsockopt os sockfd SOL_SOCKET SO_TYPE (replicate 4 0) 4 (world e1)) \<noteq> 0
         then handles e
         else (handles e)(next_sid e := \<lparr>hnd_socket = sockfd, hnd_error = 0\<rparr>)) \<and>
      (sockfd = INVALID_SOCKET \<longrightarrow> errno e2 \<noteq> EINTR)"
proof -
  have frame: "same_objects e e1"
    using after_accept_calls_same_objects [OF assms(2,1)] by simp
  have "\<not> interrupted (\<lambda>r. r = INVALID_SOCKET) (sockfd, (buf, len), e1)"
    using assms by (simp add: settles_at_def)
  then show ?thesis
    using frame retry_eintr_settles [OF assms(1)] assms(2)
    by (auto simp: sync_accept_def construct_native_def is_valid_socket_def run_buffer_sys_def
        throw_system_error_def subspan_def Let_def same_objects_def default_handle_def
        interrupted_def split: prod.splits if_splits)
qed

text \<open>An \<open>accept\<close> that is interrupted once and then returns descriptor 8 with a three byte address.\<close>

definition accepting_os :: "native_socket_type list os" where
  "accepting_os = logging_os\<lparr>os_accept := (\<lambda>f b n w.
     if w = [] then (- 1, EINTR, b, n, [1]) else (8, 0, [2, 0, 31, 144], 3, w))\<rparr>"

theorem accept_outcome_witness:
  "\<exists>e2. sync_accept accepting_os 0 [0, 0, 0, 0] (blank_env []) = Some (Inr (0, [2, 0, 31]), e2) \<and>
     handles e2 0 = \<lparr>hnd_socket = 8, hnd_error = 0\<rparr>"
  using accept_outcome [of accepting_os 0 "blank_env []" "[0, 0, 0, 0]" 1 8 "[2, 0, 31, 144]" 3
      "(blank_env [1])\<lparr>errno := EINTR\<rparr>"]
  by (auto simp: settles_at_def interrupted_def accepting_os_def logging_os_def accept_call_def
      run_buffer_sys_def blank_env_def INVALID_SOCKET_def errno_defs)

text \<open>
  Receiving into a \<^verbatim>\<open>socket_message\<close>: the outcome is that of the first call that was not
  interrupted, the flags the kernel set are in the message, and the message keeps its shape: the
  same buffers, an address of the same recorded size, control data of the same length. The lengths
  the kernel reports for the address and the control data are not recorded in the message.
\<close>

theorem recvmsg_into_message:
  assumes "sync_recvmsg os s msg flags e = Some (Inr (len, msg'), e')"
    and "\<And>a. sm_address msg = Some a \<Longrightarrow> option_wf a"
  shows "(\<exists>h h' n. message_to_msghdr msg = Inr h \<and>
        settles_at (\<lambda>r. r < 0) (recvmsg_call os (native_fd s e) flags) (h, e) n \<and>
        recvmsg_call os (native_fd s e) flags
          (after_calls (recvmsg_call os (native_fd s e) flags) n (h, e)) = (len, h', e') \<and>
        sm_flags msg' = msg_flags h') \<and>
    sm_buffers msg' = sm_buffers msg \<and>
    map_option osize (sm_address msg') = map_option osize (sm_address msg) \<and>
    map_option (length \<circ> storage) (sm_address msg') = map_option (length \<circ> storage) (sm_address msg) \<and>
    length (sm_control msg') = length (sm_control msg) \<and>
    same_objects e e'"
proof -
  from assms(1) obtain h h' where h: "message_to_msghdr msg = Inr h"
    "retry_eintr (\<lambda>len. len < 0) (recvmsg_call os (native_fd s e) flags) (h, e) = Some (len, h', e')"
    "msg' = message_after msg h'"
    by (auto simp: sync_recvmsg_def split: sum.splits)
  have "same_objects e e'"
    using retry_same_objects [OF recvmsg_call_same_objects h(2)] by simp
  moreover have "length (written_through old n new) = length old" if "n \<le> length old" for old n new
    using that by (simp add: written_through_def min_def)
  ultimately show ?thesis
    using h assms(2) by (cases "sm_address msg")
      (auto simp: retry_eintr_outcome_iff message_after_def option_wf_def)
qed

theorem recvmsg_into_message_witness:
  "\<exists>msg' e'. sync_recvmsg (logging_os\<lparr>os_recvmsg := (\<lambda>f h g w. (3, 0, h\<lparr>msg_flags := 32\<rparr>, w))\<rparr>) 0
      \<lparr>sm_address = None, sm_buffers = [], sm_control = [1, 2], sm_flags = 0\<rparr> 0 (blank_env []) =
      Some (Inr (3, msg'), e') \<and> length (sm_control msg') = 2"
proof -
  let ?os = "logging_os\<lparr>os_recvmsg := (\<lambda>f h g w. (3, 0, h\<lparr>msg_flags := 32\<rparr>, w))\<rparr>"
  let ?msg = "\<lparr>sm_address = None, sm_buffers = [], sm_control = [1, 2], sm_flags = 0\<rparr>"
  have "settles_at (\<lambda>r. r < 0) (recvmsg_call ?os (native_fd 0 (blank_env [])) 0)
      (header_to_msghdr \<lparr>hdr_name = [], hdr_iov = [], hdr_control = [1, 2], hdr_flags = 0\<rparr>, blank_env []) 0"
    by (simp add: settles_at_def interrupted_def recvmsg_call_def)
  from retry_eintr_settles [OF this] obtain msg' e' where
    "sync_recvmsg ?os 0 ?msg 0 (blank_env []) = Some (Inr (3, msg'), e')"
    by (auto simp: sync_recvmsg_def message_to_msghdr_def message_to_header_def recvmsg_call_def)
  moreover from recvmsg_into_message [OF this] have "length (sm_control msg') = 2" by simp
  ultimately show ?thesis by blast
qed

end
