(* ===== verification/Interest_List.thy ===== *)
theory Interest_List
  imports Platform
begin

text \<open>
  The interest list of the poll multiplexer: \<^verbatim>\<open>update_or_insert_event\<close>, \<^verbatim>\<open>make_poll_event\<close>,
  \<^verbatim>\<open>copy_active\<close> and \<^verbatim>\<open>clear_event\<close> of \<^verbatim>\<open>include/io/execution/impl/poll_multiplexer_impl.hpp\<close>, and the
  triggers of \<^verbatim>\<open>execution/detail/execution_trigger.hpp\<close>. The list is a vector of \<^verbatim>\<open>pollfd\<close> kept sorted
  by descriptor and searched with \<^verbatim>\<open>std::ranges::lower_bound\<close>, which is modelled as the binary search
  that it is. The locale \<open>interest_set\<close> is the contract the multiplexer relies on: per descriptor a
  set of event bits that registering extends and an event clears.
\<close>

section \<open>Event bits and triggers\<close>

definition POLLIN :: short where "POLLIN = 2 ^ 0"
definition POLLOUT :: short where "POLLOUT = 2 ^ 2"
definition POLLERR :: short where "POLLERR = 2 ^ 3"
definition POLLHUP :: short where "POLLHUP = 2 ^ 4"
definition POLLNVAL :: short where "POLLNVAL = 2 ^ 5"

lemmas poll_defs = POLLIN_def POLLOUT_def POLLERR_def POLLHUP_def POLLNVAL_def

lemma and_or_neq_0: "(w AND (a OR b) \<noteq> 0) \<longleftrightarrow> (w AND a \<noteq> 0) \<or> (w AND b \<noteq> 0)"
  for w :: "'a::len word"
  by (auto simp: bit.conj_disj_distrib or_eq_0_iff)

lemma poll_bits [bits_simps]:
  "(w AND POLLIN \<noteq> 0) \<longleftrightarrow> bit w 0"
  "(w AND POLLOUT \<noteq> 0) \<longleftrightarrow> bit w 2"
  "(w AND POLLERR \<noteq> 0) \<longleftrightarrow> bit w 3"
  "(w AND POLLHUP \<noteq> 0) \<longleftrightarrow> bit w 4"
  "(w AND POLLNVAL \<noteq> 0) \<longleftrightarrow> bit w 5"
  unfolding poll_defs bit_mask_neq_0 by (rule refl)+

lemma bit_poll [bits_simps]:
  "bit POLLIN b \<longleftrightarrow> b = 0" "bit POLLOUT b \<longleftrightarrow> b = 2" "bit POLLERR b \<longleftrightarrow> b = 3"
  "bit POLLHUP b \<longleftrightarrow> b = 4" "bit POLLNVAL b \<longleftrightarrow> b = 5"
  unfolding poll_defs bit_exp_iff by auto

datatype execution_trigger = READ | WRITE | EAGER

section \<open>Operations\<close>

text \<open>
  \<^verbatim>\<open>std::ranges::lower_bound\<close> with a projection: the first position whose key is not below the
  value, by halving the range \<open>[first, first + count)\<close>.
\<close>

function lower_bound_loop :: "('a \<Rightarrow> 'k::linorder) \<Rightarrow> 'k \<Rightarrow> 'a list \<Rightarrow> nat \<Rightarrow> nat \<Rightarrow> nat" where
  "lower_bound_loop proj v xs first count =
     (if count = 0 then first
      else let half = count div 2 in
           if proj (xs ! (first + half)) < v
           then lower_bound_loop proj v xs (first + half + 1) (count - (half + 1))
           else lower_bound_loop proj v xs first half)"
  by auto
termination by (relation "measure (\<lambda>(proj, v, xs, first, count). count)") auto

declare lower_bound_loop.simps [simp del]

definition lower_bound :: "('a \<Rightarrow> 'k::linorder) \<Rightarrow> 'k \<Rightarrow> 'a list \<Rightarrow> nat" where
  "lower_bound proj v xs = lower_bound_loop proj v xs 0 (length xs)"

text \<open>The list afterwards, with the position of the element a pointer is returned to.\<close>

definition update_or_insert_event :: "pollfd list \<Rightarrow> pollfd \<Rightarrow> nat \<times> pollfd list" where
  "update_or_insert_event list event =
     (let pos = lower_bound fd (fd event) list in
      if pos \<noteq> length list \<and> fd (list ! pos) = fd event
      then (pos, list[pos := (list ! pos)\<lparr>events := events (list ! pos) OR events event\<rparr>])
      else (pos, take pos list @ event # drop pos list))"

definition make_poll_event :: "native_socket_type \<Rightarrow> execution_trigger \<Rightarrow> pollfd" where
  "make_poll_event socket trigger =
     (let event = \<lparr>fd = socket, events = 0, revents = 0\<rparr>;
          event = (if trigger = READ then event\<lparr>events := events event OR POLLIN\<rparr> else event);
          event = (if trigger = WRITE then event\<lparr>events := events event OR POLLOUT\<rparr> else event)
      in event)"

definition copy_active :: "pollfd list \<Rightarrow> pollfd list" where
  "copy_active list = filter (\<lambda>event. events event \<noteq> 0) list"

definition clear_event :: "pollfd \<Rightarrow> pollfd list \<Rightarrow> pollfd list" where
  "clear_event event list =
     (let pos = lower_bound fd (fd event) list in
      if pos \<noteq> length list \<and> fd (list ! pos) = fd event
      then let pfd = list ! pos;
               pfd = (if revents event AND (POLLERR OR POLLNVAL) \<noteq> 0 then pfd\<lparr>events := 0\<rparr> else pfd);
               pfd = pfd\<lparr>events := events pfd AND NOT (revents event)\<rparr>
           in list[pos := pfd]
      else list)"

section \<open>Binary search is linear search\<close>

lemma lower_bound_loop_cases:
  "lower_bound_loop proj v xs first 0 = first"
  "count \<noteq> 0 \<Longrightarrow> proj (xs ! (first + count div 2)) < v \<Longrightarrow>
     lower_bound_loop proj v xs first count =
     lower_bound_loop proj v xs (first + count div 2 + 1) (count - (count div 2 + 1))"
  "count \<noteq> 0 \<Longrightarrow> \<not> proj (xs ! (first + count div 2)) < v \<Longrightarrow>
     lower_bound_loop proj v xs first count = lower_bound_loop proj v xs first (count div 2)"
  by (simp_all add: lower_bound_loop.simps [of proj v xs first] Let_def)

lemma lower_bound_loop_split:
  assumes "first + count \<le> length xs" and "sorted (map proj xs)"
    and "\<forall>i < first. proj (xs ! i) < v"
    and "\<forall>i. first + count \<le> i \<longrightarrow> i < length xs \<longrightarrow> v \<le> proj (xs ! i)"
  shows "lower_bound_loop proj v xs first count \<le> length xs \<and>
    (\<forall>i < lower_bound_loop proj v xs first count. proj (xs ! i) < v) \<and>
    (\<forall>i. lower_bound_loop proj v xs first count \<le> i \<longrightarrow> i < length xs \<longrightarrow> v \<le> proj (xs ! i))"
  using assms
proof (induction proj v xs first count rule: lower_bound_loop.induct)
  case (1 proj v xs first count)
  let ?m = "first + count div 2"
  have mono: "i \<le> j \<Longrightarrow> j < length xs \<Longrightarrow> proj (xs ! i) \<le> proj (xs ! j)" for i j
    using "1.prems"(2) by (auto simp: sorted_iff_nth_mono)
  show ?case
  proof (cases "count = 0")
    case True
    then show ?thesis using "1.prems" by (simp add: lower_bound_loop_cases(1))
  next
    case False
    then have m: "?m < length xs" using "1.prems"(1) by (simp add: less_le_trans)
    show ?thesis
    proof (cases "proj (xs ! ?m) < v")
      case True
      have "\<forall>i < ?m + 1. proj (xs ! i) < v"
        using mono [OF _ m] True by (metis Suc_eq_plus1 less_Suc_eq_le order_le_less_trans)
      then show ?thesis
        unfolding lower_bound_loop_cases(2) [of count proj xs first v, OF False True]
        using False m by (intro "1.IH"(1) [OF False refl True] "1.prems"(2))
          (auto intro: "1.prems"(1,4) [rule_format])
    next
      case ge: False
      have "\<forall>i. ?m \<le> i \<longrightarrow> i < length xs \<longrightarrow> v \<le> proj (xs ! i)"
        using mono ge by (meson leI order_trans)
      then show ?thesis
        unfolding lower_bound_loop_cases(3) [of count proj xs first v, OF False ge]
        using m by (intro "1.IH"(2) [OF False refl ge] "1.prems"(2,3)) auto
    qed
  qed
qed

lemma lower_bound_takeWhile:
  assumes "sorted (map proj xs)"
  shows "lower_bound proj v xs = length (takeWhile (\<lambda>x. proj x < v) xs)"
proof -
  let ?r = "lower_bound proj v xs"
  have r: "?r \<le> length xs" "\<forall>i < ?r. proj (xs ! i) < v"
    "\<forall>i. ?r \<le> i \<longrightarrow> i < length xs \<longrightarrow> v \<le> proj (xs ! i)"
    using lower_bound_loop_split [of 0 "length xs" xs proj v] assms by (auto simp: lower_bound_def)
  have "takeWhile (\<lambda>x. proj x < v) xs = take ?r xs"
    using r by (intro takeWhile_eq_take_P_nth) (auto simp: not_less)
  then show ?thesis using r(1) by simp
qed

section \<open>The list as a map from descriptors to event bits\<close>

definition ilist_wf :: "pollfd list \<Rightarrow> bool" where
  "ilist_wf list \<longleftrightarrow> sorted_wrt (<) (map fd list)"

fun interest :: "pollfd list \<Rightarrow> native_socket_type \<Rightarrow> short" where
  "interest [] f = 0"
| "interest (p # ps) f = (if fd p = f then events p else interest ps f)"

text \<open>What an event leaves of the interest in its descriptor.\<close>

definition interest_after :: "short \<Rightarrow> short \<Rightarrow> short" where
  "interest_after revs m = (if revs AND (POLLERR OR POLLNVAL) \<noteq> 0 then 0 else m AND NOT revs)"

lemma interest_append:
  "interest (xs @ ys) f = (if f \<in> fd ` set xs then interest xs f else interest ys f)"
  by (induction xs) auto

lemma interest_not_registered: "f \<notin> fd ` set xs \<Longrightarrow> interest xs f = 0"
  by (induction xs) auto

text \<open>A search splits a well-formed list at the descriptor.\<close>

lemma search_splits:
  assumes "ilist_wf list"
  obtains L R where "list = L @ R" and "lower_bound fd f list = length L"
    and "f \<notin> fd ` set L" and "\<And>p. p \<in> set L \<Longrightarrow> fd p < f"
    and "(\<exists>p R'. R = p # R' \<and> fd p = f \<and> f \<notin> fd ` set R') \<or> (f \<notin> fd ` set R \<and> (\<forall>p \<in> set R. f < fd p))"
proof
  let ?L = "takeWhile (\<lambda>p. fd p < f) list" and ?R = "dropWhile (\<lambda>p. fd p < f) list"
  show "list = ?L @ ?R" by simp
  show "lower_bound fd f list = length ?L"
    using assms by (intro lower_bound_takeWhile) (auto simp: ilist_wf_def intro: strict_sorted_imp_sorted)
  show "\<And>p. p \<in> set ?L \<Longrightarrow> fd p < f" by (auto dest: set_takeWhileD)
  then show "f \<notin> fd ` set ?L" by auto
  have R: "sorted_wrt (<) (map fd ?R)"
    using assms unfolding ilist_wf_def
    by (metis map_append sorted_wrt_append takeWhile_dropWhile_id)
  show "(\<exists>p R'. ?R = p # R' \<and> fd p = f \<and> f \<notin> fd ` set R') \<or> (f \<notin> fd ` set ?R \<and> (\<forall>p \<in> set ?R. f < fd p))"
  proof (cases ?R)
    case (Cons p R')
    then have "f \<le> fd p" using hd_dropWhile [of "\<lambda>p. fd p < f" list] by auto
    with Cons R show ?thesis by (cases "fd p = f") auto
  next
    case Nil
    show ?thesis unfolding Nil by simp
  qed
qed

lemma update_or_insert_event_wf:
  assumes "ilist_wf list"
  shows "ilist_wf (snd (update_or_insert_event list event))"
proof -
  obtain L R where LR: "list = L @ R" "lower_bound fd (fd event) list = length L"
    "\<And>p. p \<in> set L \<Longrightarrow> fd p < fd event"
    "(\<exists>p R'. R = p # R' \<and> fd p = fd event \<and> fd event \<notin> fd ` set R') \<or>
     (fd event \<notin> fd ` set R \<and> (\<forall>p \<in> set R. fd event < fd p))"
    using search_splits [OF assms, of "fd event"] by metis
  with assms show ?thesis
    by (cases R) (auto simp: update_or_insert_event_def Let_def ilist_wf_def sorted_wrt_append nth_append
        list_update_append)
qed

lemma interest_update_or_insert:
  assumes "ilist_wf list"
  shows "interest (snd (update_or_insert_event list event)) f =
    (if f = fd event then interest list f OR events event else interest list f)"
proof -
  obtain L R where LR: "list = L @ R" "lower_bound fd (fd event) list = length L"
    "fd event \<notin> fd ` set L"
    "(\<exists>p R'. R = p # R' \<and> fd p = fd event \<and> fd event \<notin> fd ` set R') \<or>
     (fd event \<notin> fd ` set R \<and> (\<forall>p \<in> set R. fd event < fd p))"
    using search_splits [OF assms, of "fd event"] by metis
  then show ?thesis
    by (auto simp: update_or_insert_event_def Let_def nth_append list_update_append interest_append
        interest_not_registered neq_Nil_conv)
qed

lemma map_update_same: "g (xs ! i) = v \<Longrightarrow> (map g xs)[i := v] = map g xs"
  by (cases "i < length xs") (auto simp: list_update_same_conv list_update_beyond)

lemma clear_event_wf:
  assumes "ilist_wf list"
  shows "ilist_wf (clear_event event list)"
proof -
  have "map fd (clear_event event list) = map fd list"
    by (simp add: clear_event_def Let_def map_update map_update_same)
  with assms show ?thesis by (simp add: ilist_wf_def)
qed

lemma interest_clear_event:
  assumes "ilist_wf list"
  shows "interest (clear_event event list) f =
    (if f = fd event then interest_after (revents event) (interest list f) else interest list f)"
proof -
  obtain L R where LR: "list = L @ R" "lower_bound fd (fd event) list = length L"
    "fd event \<notin> fd ` set L"
    "(\<exists>p R'. R = p # R' \<and> fd p = fd event \<and> fd event \<notin> fd ` set R') \<or>
     (fd event \<notin> fd ` set R \<and> (\<forall>p \<in> set R. fd event < fd p))"
    using search_splits [OF assms, of "fd event"] by metis
  then show ?thesis
    by (auto simp: clear_event_def Let_def nth_append list_update_append interest_append
        interest_not_registered interest_after_def neq_Nil_conv)
qed

lemma entry_events:
  assumes "ilist_wf list" and "p \<in> set list"
  shows "events p = interest list (fd p)"
  using assms(2,1) by (induction list) (auto simp: ilist_wf_def)

lemma interest_nonzero_iff:
  assumes "ilist_wf list"
  shows "(\<exists>p \<in> set (copy_active list). fd p = f) \<longleftrightarrow> interest list f \<noteq> 0"
    and "p \<in> set (copy_active list) \<Longrightarrow> events p = interest list (fd p)"
proof -
  note look = entry_events [OF assms]
  then show "(\<exists>p \<in> set (copy_active list). fd p = f) \<longleftrightarrow> interest list f \<noteq> 0"
    using interest_not_registered [of f list] by (auto simp: copy_active_def image_iff) metis
  show "p \<in> set (copy_active list) \<Longrightarrow> events p = interest list (fd p)"
    using look by (simp add: copy_active_def)
qed

lemma copy_active_distinct: "ilist_wf list \<Longrightarrow> distinct (map fd (copy_active list))"
  by (auto simp: ilist_wf_def copy_active_def strict_sorted_iff intro: distinct_map_filter)

section \<open>The contract of an interest set\<close>

text \<open>
  \<open>add\<close> registers an event, \<open>clr\<close> takes a reported event, \<open>act\<close> is what is handed to \<^verbatim>\<open>poll\<close>. The laws
  say what each does to the bits \<open>look\<close> of every descriptor and that the representation invariant
  is kept.
\<close>

locale interest_set =
  fixes wf :: "'l \<Rightarrow> bool"
    and look :: "'l \<Rightarrow> native_socket_type \<Rightarrow> short"
    and add :: "pollfd \<Rightarrow> 'l \<Rightarrow> 'l"
    and clr :: "pollfd \<Rightarrow> 'l \<Rightarrow> 'l"
    and act :: "'l \<Rightarrow> pollfd list"
  assumes add_wf: "wf l \<Longrightarrow> wf (add p l)"
    and clr_wf: "wf l \<Longrightarrow> wf (clr p l)"
    and look_add: "wf l \<Longrightarrow> look (add p l) f = (if f = fd p then look l f OR events p else look l f)"
    and look_clr: "wf l \<Longrightarrow>
      look (clr p l) f = (if f = fd p then interest_after (revents p) (look l f) else look l f)"
    and act_iff: "wf l \<Longrightarrow> (\<exists>p \<in> set (act l). fd p = f) \<longleftrightarrow> look l f \<noteq> 0"
    and act_events: "wf l \<Longrightarrow> p \<in> set (act l) \<Longrightarrow> events p = look l (fd p)"
    and act_distinct: "wf l \<Longrightarrow> distinct (map fd (act l))"
begin

lemma fold_clr_wf: "wf l \<Longrightarrow> wf (fold clr evs l)"
  by (induction evs arbitrary: l) (auto simp: clr_wf)

lemma fold_add_wf: "wf l \<Longrightarrow> wf (fold add evs l)"
  by (induction evs arbitrary: l) (auto simp: add_wf)

lemma look_fold_add:
  "wf l \<Longrightarrow> bit (look (fold add evs l) f) b \<longleftrightarrow>
     bit (look l f) b \<or> (\<exists>p \<in> set evs. fd p = f \<and> bit (events p) b)"
proof (induction evs arbitrary: l)
  case (Cons p evs)
  then show ?case using Cons.IH [OF add_wf] by (auto simp: look_add bit_or_iff)
qed simp

lemma look_fold_clr_other: "wf l \<Longrightarrow> f \<notin> fd ` set evs \<Longrightarrow> look (fold clr evs l) f = look l f"
proof (induction evs arbitrary: l)
  case (Cons p evs)
  then show ?case using Cons.IH [OF clr_wf] by (auto simp: look_clr)
qed simp

lemma look_fold_clr:
  "wf l \<Longrightarrow> distinct (map fd evs) \<Longrightarrow> p \<in> set evs \<Longrightarrow>
     look (fold clr evs l) (fd p) = interest_after (revents p) (look l (fd p))"
proof (induction evs arbitrary: l)
  case (Cons q evs)
  show ?case
  proof (cases "p = q")
    case True
    with Cons.prems show ?thesis
      using look_fold_clr_other [OF clr_wf, of l "fd q" evs] by (auto simp: look_clr)
  next
    case False
    with Cons.prems have "p \<in> set evs" "fd p \<noteq> fd q" by (auto simp: rev_image_eqI)
    with Cons.prems show ?thesis using Cons.IH [OF clr_wf] by (simp add: look_clr)
  qed
qed simp

lemma look_fold_clr_le:
  "wf l \<Longrightarrow> bit (look (fold clr evs l) f) b \<Longrightarrow> bit (look l f) b"
proof (induction evs arbitrary: l)
  case (Cons p evs)
  then show ?case using Cons.IH [OF clr_wf]
    by (fastforce simp: look_clr interest_after_def bit_and_iff split: if_splits)
qed simp

lemma registered_is_polled:
  "wf l \<Longrightarrow> bit (look l f) b \<Longrightarrow> \<exists>p \<in> set (act l). fd p = f \<and> bit (events p) b"
  using act_iff [of l f] act_events [of l] by fastforce

end

text \<open>The insertion with the list as its state.\<close>

definition register :: "pollfd \<Rightarrow> pollfd list \<Rightarrow> pollfd list" where
  "register p list = snd (update_or_insert_event list p)"

interpretation ilist: interest_set ilist_wf interest register clear_event copy_active
  by unfold_locales
    (auto simp: register_def update_or_insert_event_wf interest_update_or_insert clear_event_wf
      interest_clear_event interest_nonzero_iff copy_active_distinct)

lemma make_poll_event_bits:
  "fd (make_poll_event s tr) = s" "revents (make_poll_event s tr) = 0"
  "bit (events (make_poll_event s tr)) b \<longleftrightarrow> tr = READ \<and> b = 0 \<or> tr = WRITE \<and> b = 2"
  by (auto simp: make_poll_event_def Let_def bit_poll)

section \<open>Properties\<close>

text \<open>
  On a list sorted by the projected key, the binary search of \<^verbatim>\<open>std::ranges::lower_bound\<close> ends at
  the position a linear scan finds: the number of leading elements whose key is below the value.
\<close>

theorem lower_bound_is_linear_search:
  assumes "sorted (map proj xs)"
  shows "lower_bound proj v xs = length (takeWhile (\<lambda>x. proj x < v) xs)"
  by (rule lower_bound_takeWhile [OF assms])

theorem lower_bound_is_linear_search_witness: "lower_bound id (7::int) [1, 3, 7, 7, 9] = 2"
  using lower_bound_is_linear_search [of id "[1, 3, 7, 7, 9 :: int]" 7] by simp

text \<open>
  Registering an event keeps the interest list strictly sorted by descriptor, adds exactly the
  event's bits to its descriptor, changes no other descriptor, and returns the position of the
  entry of that descriptor, in the update and in the insertion branch alike.
\<close>

theorem register_event_correct:
  assumes "ilist_wf list" and "update_or_insert_event list event = (pos, list')"
  shows "ilist_wf list' \<and>
    (\<forall>f. interest list' f = (if f = fd event then interest list f OR events event else interest list f)) \<and>
    pos < length list' \<and> fd (list' ! pos) = fd event \<and>
    events (list' ! pos) = interest list' (fd event)"
proof -
  have list': "list' = register event list" using assms(2) by (simp add: register_def)
  obtain L R where "list = L @ R" "lower_bound fd (fd event) list = length L"
    using search_splits [OF assms(1), of "fd event"] by metis
  then have pos: "pos < length list'" "fd (list' ! pos) = fd event"
    using assms(2) by (auto simp: update_or_insert_event_def Let_def nth_append list_update_append
        neq_Nil_conv split: if_splits)
  moreover have wf': "ilist_wf list'" using ilist.add_wf [OF assms(1)] list' by simp
  moreover have "events (list' ! pos) = interest list' (fd event)"
    using entry_events [OF wf', of "list' ! pos"] pos by simp
  ultimately show ?thesis using list' ilist.look_add [OF assms(1)] by simp
qed

theorem register_event_correct_witness:
  "interest (snd (update_or_insert_event [\<lparr>fd = 3, events = POLLIN, revents = 0\<rparr>]
     (make_poll_event 3 WRITE))) 3 = POLLIN OR POLLOUT"
  using register_event_correct [of "[\<lparr>fd = 3, events = POLLIN, revents = 0\<rparr>]" "make_poll_event 3 WRITE",
      OF _ prod.collapse [symmetric]]
  by (simp add: ilist_wf_def make_poll_event_def)

text \<open>
  What handling the events that \<^verbatim>\<open>poll\<close> reported leaves of the interest list: it stays strictly
  sorted; the interest of a reported descriptor loses the reported bits, and all of its bits after
  \<^verbatim>\<open>POLLERR\<close> or \<^verbatim>\<open>POLLNVAL\<close>; no other descriptor changes; and the list handed to the next \<^verbatim>\<open>poll\<close> holds
  one entry, with the remaining bits, for each descriptor that still has some.
\<close>

theorem clear_events_correct:
  assumes "ilist_wf list" and "distinct (map fd evs)"
  shows "ilist_wf (fold clear_event evs list) \<and>
    (\<forall>f. f \<notin> fd ` set evs \<longrightarrow> interest (fold clear_event evs list) f = interest list f) \<and>
    (\<forall>p \<in> set evs. interest (fold clear_event evs list) (fd p) =
       (if bit (revents p) 3 \<or> bit (revents p) 5 then 0 else interest list (fd p) AND NOT (revents p))) \<and>
    distinct (map fd (copy_active (fold clear_event evs list))) \<and>
    (\<forall>f. (\<exists>p \<in> set (copy_active (fold clear_event evs list)).
        fd p = f \<and> events p = interest (fold clear_event evs list) f) \<longleftrightarrow>
       interest (fold clear_event evs list) f \<noteq> 0)"
proof -
  let ?list = "fold clear_event evs list"
  have wf': "ilist_wf ?list" by (rule ilist.fold_clr_wf [OF assms(1)])
  have "interest ?list (fd p) = (if bit (revents p) 3 \<or> bit (revents p) 5 then 0
      else interest list (fd p) AND NOT (revents p))" if "p \<in> set evs" for p
    using ilist.look_fold_clr [OF assms that]
    by (simp add: interest_after_def and_or_neq_0 poll_bits flip: poll_bits(3,5))
  moreover have "(\<exists>p \<in> set (copy_active ?list). fd p = f \<and> events p = interest ?list f) \<longleftrightarrow>
      interest ?list f \<noteq> 0" for f
    using ilist.act_iff [OF wf', of f] ilist.act_events [OF wf'] by auto
  ultimately show ?thesis
    using wf' ilist.act_distinct [OF wf'] ilist.look_fold_clr_other [OF assms(1)] by simp
qed

theorem clear_events_correct_witness:
  "interest (fold clear_event [\<lparr>fd = 3, events = POLLIN, revents = POLLIN\<rparr>]
      [\<lparr>fd = 3, events = POLLIN OR POLLOUT, revents = 0\<rparr>]) 3 = (POLLIN OR POLLOUT) AND NOT POLLIN"
  using clear_events_correct [of "[\<lparr>fd = 3, events = POLLIN OR POLLOUT, revents = 0\<rparr>]"
      "[\<lparr>fd = 3, events = POLLIN, revents = POLLIN\<rparr>]"]
  by (simp add: ilist_wf_def bit_poll)

end
