(* ===== verification/Poll_Call.thy ===== *)
theory Poll_Call
  imports Sync_Operations Interest_List
begin

text \<open>
  The calls the multiplexer makes while waiting: \<^verbatim>\<open>handle_poll_error\<close>, \<^verbatim>\<open>remaining_duration\<close> and \<^verbatim>\<open>poll_\<close>,
  which retries an interrupted \<^verbatim>\<open>poll\<close> with the time that is left, and \<^verbatim>\<open>handle_getsockopt_error\<close> and
  \<^verbatim>\<open>set_error\<close>, which fetch the pending error of a socket
  (\<^verbatim>\<open>include/io/execution/impl/poll_multiplexer_impl.hpp\<close>). The clock counts nanoseconds.
\<close>

section \<open>Operations\<close>

definition SO_ERROR :: int where "SO_ERROR = 4"

definition handle_poll_error :: "int \<Rightarrow> 'w env \<Rightarrow> exn + unit" where
  "handle_poll_error error e = (if error \<noteq> EINTR then fst (throw_system_error e) else Inr ())"

text \<open>
  \<^verbatim>\<open>duration_cast<milliseconds>(d).count()\<close> narrowed to \<^verbatim>\<open>int\<close>: the cast truncates towards zero.
\<close>

definition to_milliseconds :: "int \<Rightarrow> int" where
  "to_milliseconds d = to_int32 (sgn d * (\<bar>d\<bar> div 1000000))"

text \<open>
  \<^verbatim>\<open>start\<close> is passed by reference: its new value is the second component. The subtraction is on
  \<^verbatim>\<open>int\<close>, so a difference outside its range is undefined.
\<close>

definition remaining_duration :: "int \<Rightarrow> int \<Rightarrow> int \<Rightarrow> (exn + int) \<times> int" where
  "remaining_duration duration start now =
     (let old_start = start; start = now; d = duration - to_milliseconds (start - old_start)
      in (if in_int32 d then Inr (max 0 d) else Inl (Undefined ''int overflow''), start))"

text \<open>The variables of the loop of \<^verbatim>\<open>poll_\<close>.\<close>

record 'w poll_state =
  ps_list :: "pollfd list"
  ps_duration :: int
  ps_start :: int
  ps_env :: "'w env"

definition poll_attempt ::
  "'w os \<Rightarrow> 'w poll_state \<Rightarrow> ((exn + pollfd list) \<times> 'w env) + 'w poll_state" where
  "poll_attempt os s =
     (case os_poll os (ps_list s) (ps_duration s) (world (ps_env s)) of (r, err, list', w) \<Rightarrow>
        let e = (ps_env s)\<lparr>world := w, errno := (if r < 0 then err else errno (ps_env s))\<rparr>;
            s' = s\<lparr>ps_list := list', ps_env := e\<rparr>
        in if r < 0 then
             (case handle_poll_error (errno e) e of
                Inl x \<Rightarrow> Inl (Inl x, e)
              | Inr _ \<Rightarrow>
                  if ps_duration s > - 1 then
                    (case os_now os (world e) of (now, w') \<Rightarrow>
                       let e' = e\<lparr>world := w'\<rparr> in
                       (case remaining_duration (ps_duration s) (ps_start s) now of
                          (Inl x, _) \<Rightarrow> Inl (Inl x, e')
                        | (Inr d, start) \<Rightarrow> Inr (s'\<lparr>ps_duration := d, ps_start := start, ps_env := e'\<rparr>)))
                  else Inr s')
           else Inl (Inr list', e))"

definition poll_start :: "'w os \<Rightarrow> pollfd list \<Rightarrow> int \<Rightarrow> 'w env \<Rightarrow> 'w poll_state" where
  "poll_start os list duration e =
     (case os_now os (world e) of (now, w) \<Rightarrow>
        \<lparr>ps_list = list, ps_duration = duration, ps_start = now, ps_env = e\<lparr>world := w\<rparr>\<rparr>)"

definition poll_call ::
  "'w os \<Rightarrow> pollfd list \<Rightarrow> int \<Rightarrow> 'w env \<Rightarrow> ((exn + pollfd list) \<times> 'w env) option" where
  "poll_call os list duration e =
     (if list = [] then Some (Inr list, e)
      else map_option (\<lambda>(res, e'). (map_sum id (filter (\<lambda>event. revents event \<noteq> 0)) res, e'))
             (iterate (poll_attempt os) (poll_start os list duration e)))"

definition handle_getsockopt_error :: "int \<Rightarrow> 'w env \<Rightarrow> exn + int" where
  "handle_getsockopt_error error e =
     (if error \<noteq> EBADF \<and> error \<noteq> ENOTSOCK then map_sum id (\<lambda>u::unit. error) (fst (throw_system_error e))
      else Inr error)"

text \<open>The value of the four bytes of a little-endian \<^verbatim>\<open>int\<close>.\<close>

definition int_of_bytes :: "byte list \<Rightarrow> int" where
  "int_of_bytes bs = to_int32 (foldr (\<lambda>b acc. uint b + 256 * acc) bs 0)"

definition set_socket_error :: "'w os \<Rightarrow> sid \<Rightarrow> 'w env \<Rightarrow> (exn + unit) \<times> 'w env" where
  "set_socket_error os s e =
     (case sync_getsockopt os s SOL_SOCKET SO_ERROR (replicate 4 0) e of
        (Inl x, _, e') \<Rightarrow> (Inl x, e')
      | (Inr (ret, _), option, e') \<Rightarrow>
          if ret \<noteq> 0 then
            (case handle_getsockopt_error (errno e') e' of
               Inl x \<Rightarrow> (Inl x, e')
             | Inr err \<Rightarrow> (Inr (), set_error s err e'))
          else (Inr (), set_error s (int_of_bytes option) e'))"

section \<open>The retry loop\<close>

text \<open>An attempt is interrupted when \<^verbatim>\<open>poll\<close> fails with EINTR.\<close>

definition poll_result :: "'w os \<Rightarrow> 'w poll_state \<Rightarrow> int \<times> int \<times> pollfd list \<times> 'w" where
  "poll_result os s = os_poll os (ps_list s) (ps_duration s) (world (ps_env s))"

definition poll_interrupted :: "'w os \<Rightarrow> 'w poll_state \<Rightarrow> bool" where
  "poll_interrupted os s \<longleftrightarrow> fst (poll_result os s) < 0 \<and> fst (snd (poll_result os s)) = EINTR"

text \<open>The time that passed between two readings of the clock around an attempt.\<close>

definition attempt_time :: "'w os \<Rightarrow> 'w poll_state \<Rightarrow> int" where
  "attempt_time os s = fst (os_now os (snd (snd (snd (poll_result os s))))) - ps_start s"

text \<open>A steady clock that does not run ahead by more than the milliseconds an \<^verbatim>\<open>int\<close> counts.\<close>

definition clock_ok :: "'w os \<Rightarrow> 'w poll_state \<Rightarrow> bool" where
  "clock_ok os s \<longleftrightarrow> 0 \<le> attempt_time os s \<and> attempt_time os s < 2 ^ 31 * 1000000"

lemma to_milliseconds_elapsed:
  assumes "0 \<le> d" and "d < 2 ^ 31 * 1000000"
  shows "to_milliseconds d = d div 1000000"
proof -
  have "in_int32 (d div 1000000)"
    using assms by (auto simp: in_int32_def)
  then show ?thesis using assms by (cases "d = 0") (simp_all add: to_milliseconds_def to_int32_id)
qed

lemma poll_attempt_continues:
  assumes "poll_attempt os s = Inr s'"
  shows "poll_interrupted os s"
    and "ps_duration s \<le> - 1 \<Longrightarrow> ps_duration s' = ps_duration s \<and> ps_start s' = ps_start s"
    and "- 1 < ps_duration s \<Longrightarrow>
      ps_duration s' = max 0 (ps_duration s - to_milliseconds (attempt_time os s)) \<and>
      ps_start s' = ps_start s + attempt_time os s"
  using assms
  by (auto simp: poll_attempt_def poll_interrupted_def poll_result_def attempt_time_def
      handle_poll_error_def throw_system_error_def remaining_duration_def Let_def
      split: prod.splits sum.splits if_splits)

lemma poll_attempt_interrupted:
  assumes "poll_interrupted os s" and "clock_ok os s" and "in_int32 (ps_duration s)"
  shows "\<exists>s'. poll_attempt os s = Inr s'"
proof -
  have "in_int32 (ps_duration s - to_milliseconds (attempt_time os s))" if "- 1 < ps_duration s"
    using assms that to_milliseconds_elapsed [of "attempt_time os s"]
    by (auto simp: clock_ok_def in_int32_def)
  then show ?thesis
    using assms(1)
    by (auto simp: poll_attempt_def poll_interrupted_def poll_result_def attempt_time_def
        handle_poll_error_def remaining_duration_def Let_def split: prod.splits)
qed

lemma poll_attempt_cases:
  assumes "clock_ok os s" and "in_int32 (ps_duration s)"
  shows "(\<exists>s'. poll_attempt os s = Inr s') \<longleftrightarrow> poll_interrupted os s"
    and "(\<exists>e'. poll_attempt os s = Inl (Inr l, e')) \<longleftrightarrow>
      0 \<le> fst (poll_result os s) \<and> l = fst (snd (snd (poll_result os s)))"
    and "(\<exists>e'. poll_attempt os s = Inl (Inl x, e')) \<longleftrightarrow>
      fst (poll_result os s) < 0 \<and> fst (snd (poll_result os s)) \<noteq> EINTR \<and>
      x = System_error (fst (snd (poll_result os s)))"
proof -
  show cont: "(\<exists>s'. poll_attempt os s = Inr s') \<longleftrightarrow> poll_interrupted os s"
    using poll_attempt_interrupted [OF _ assms] poll_attempt_continues(1) by blast
  have ended: "poll_attempt os s =
      (if 0 \<le> fst (poll_result os s)
       then Inl (Inr (fst (snd (snd (poll_result os s)))),
              (ps_env s)\<lparr>world := snd (snd (snd (poll_result os s)))\<rparr>)
       else Inl (Inl (System_error (fst (snd (poll_result os s)))),
              (ps_env s)\<lparr>world := snd (snd (snd (poll_result os s))),
                errno := fst (snd (poll_result os s))\<rparr>))"
    if "\<not> poll_interrupted os s"
    using that by (auto simp: poll_attempt_def poll_interrupted_def poll_result_def
        handle_poll_error_def throw_system_error_def Let_def split: prod.splits)
  show "(\<exists>e'. poll_attempt os s = Inl (Inr l, e')) \<longleftrightarrow>
      0 \<le> fst (poll_result os s) \<and> l = fst (snd (snd (poll_result os s)))"
    using cont ended by (cases "poll_interrupted os s") (auto simp: poll_interrupted_def)
  show "(\<exists>e'. poll_attempt os s = Inl (Inl x, e')) \<longleftrightarrow>
      fst (poll_result os s) < 0 \<and> fst (snd (poll_result os s)) \<noteq> EINTR \<and>
      x = System_error (fst (snd (poll_result os s)))"
    using cont ended by (cases "poll_interrupted os s") (auto simp: poll_interrupted_def)
qed

text \<open>One round of the accounting of the time that is left.\<close>

lemma poll_attempt_time:
  assumes "poll_attempt os s = Inr s'" and "0 \<le> ps_duration s" and "clock_ok os s"
  shows "0 \<le> ps_duration s'" and "ps_duration s' \<le> ps_duration s"
    and "ps_duration s * 1000000 \<le> ps_duration s' * 1000000 + (ps_start s' - ps_start s)"
    and "0 < ps_duration s' \<Longrightarrow>
      ps_duration s' * 1000000 + (ps_start s' - ps_start s) \<le> ps_duration s * 1000000 + 999999"
    and "attempt_time os s < 1000000 \<Longrightarrow> ps_duration s' = ps_duration s"
proof -
  have s': "ps_duration s' = max 0 (ps_duration s - attempt_time os s div 1000000)"
    "ps_start s' - ps_start s = attempt_time os s"
    using poll_attempt_continues(3) [OF assms(1)] assms(2,3) to_milliseconds_elapsed
    by (auto simp: clock_ok_def)
  have t: "0 \<le> attempt_time os s" using assms(3) by (simp add: clock_ok_def)
  have q: "0 \<le> attempt_time os s div 1000000"
    "attempt_time os s div 1000000 * 1000000 \<le> attempt_time os s"
    "attempt_time os s \<le> attempt_time os s div 1000000 * 1000000 + 999999"
    using t by (auto simp: pos_imp_zdiv_nonneg_iff)
  show "0 \<le> ps_duration s'" using s' by simp
  show "ps_duration s' \<le> ps_duration s" using s' q(1) assms(2) by simp
  show "ps_duration s * 1000000 \<le> ps_duration s' * 1000000 + (ps_start s' - ps_start s)"
    using s' q by linarith
  show "ps_duration s' * 1000000 + (ps_start s' - ps_start s) \<le> ps_duration s * 1000000 + 999999"
    if "0 < ps_duration s'" using that s' q by linarith
  show "ps_duration s' = ps_duration s" if "attempt_time os s < 1000000"
    using that s' t assms(2) by simp
qed

text \<open>The rounds of a call, and that the clock behaves in each of them.\<close>

abbreviation poll_rounds :: "'w os \<Rightarrow> nat \<Rightarrow> 'w poll_state \<Rightarrow> 'w poll_state option" where
  "poll_rounds os \<equiv> rounds (poll_attempt os)"

definition clock_steady :: "'w os \<Rightarrow> 'w poll_state \<Rightarrow> bool" where
  "clock_steady os s0 \<longleftrightarrow> (\<forall>n s. poll_rounds os n s0 = Some s \<longrightarrow> clock_ok os s)"

lemma poll_rounds_SucE:
  assumes "poll_rounds os (Suc n) s0 = Some s'"
  obtains s where "poll_rounds os n s0 = Some s" and "poll_attempt os s = Inr s'"
  using assms by (auto simp: rounds_Suc split: option.splits sum.splits simp del: rounds.simps)

lemma poll_rounds_time:
  assumes "poll_rounds os n s0 = Some s" and "0 \<le> ps_duration s0" and "clock_steady os s0"
  shows "0 \<le> ps_duration s \<and> ps_duration s \<le> ps_duration s0 \<and>
    ps_duration s0 * 1000000 \<le> ps_duration s * 1000000 + (ps_start s - ps_start s0) \<and>
    (0 < ps_duration s \<longrightarrow>
       ps_duration s * 1000000 + (ps_start s - ps_start s0) \<le> ps_duration s0 * 1000000 + int n * 999999)"
  using assms(1)
proof (induction n arbitrary: s)
  case 0
  then show ?case using assms(2) by simp
next
  case (Suc n)
  from Suc.prems obtain s1 where s1: "poll_rounds os n s0 = Some s1" "poll_attempt os s1 = Inr s"
    by (rule poll_rounds_SucE)
  have ok: "clock_ok os s1" using assms(3) s1(1) by (auto simp: clock_steady_def)
  note IH = Suc.IH [OF s1(1)]
  then have "0 \<le> ps_duration s1" by simp
  note step = poll_attempt_time [OF s1(2) this ok]
  have "0 < ps_duration s \<Longrightarrow> 0 < ps_duration s1" using step(2) by simp
  then show ?case using IH step(1,2,3) step(4) by (auto simp: algebra_simps)
qed

lemma poll_rounds_untimed:
  assumes "poll_rounds os n s0 = Some s" and "ps_duration s0 < 0"
  shows "ps_duration s = ps_duration s0"
  using assms(1)
proof (induction n arbitrary: s)
  case (Suc n)
  from Suc.prems obtain s1 where "poll_rounds os n s0 = Some s1" "poll_attempt os s1 = Inr s"
    by (rule poll_rounds_SucE)
  with Suc.IH assms(2) show ?case using poll_attempt_continues(2) [of os s1 s] by simp
qed simp

lemma poll_rounds_int32:
  assumes "poll_rounds os n s0 = Some s" and "clock_steady os s0" and "in_int32 (ps_duration s0)"
  shows "in_int32 (ps_duration s)"
  using assms poll_rounds_time [of os n s0 s] poll_rounds_untimed [of os n s0 s]
  by (cases "0 \<le> ps_duration s0") (auto simp: in_int32_def)

lemma iterate_result_iff:
  assumes "\<And>n s. rounds body n s0 = Some s \<Longrightarrow> (\<exists>e'. body s = Inl (res, e')) \<longleftrightarrow> Q s"
  shows "(\<exists>e'. iterate body s0 = Some (res, e')) \<longleftrightarrow> (\<exists>n s. rounds body n s0 = Some s \<and> Q s)"
proof -
  have "(\<exists>e'. iterate body s0 = Some (res, e')) \<longleftrightarrow>
      (\<exists>n s. rounds body n s0 = Some s \<and> (\<exists>e'. body s = Inl (res, e')))"
    unfolding iterate_iff by blast
  also have "\<dots> \<longleftrightarrow> (\<exists>n s. rounds body n s0 = Some s \<and> Q s)"
    by (intro iff_exI conj_cong refl assms)
  finally show ?thesis .
qed

lemma map_sum_iff:
  "map_sum f g s = Inl x \<longleftrightarrow> (\<exists>y. s = Inl y \<and> x = f y)"
  "map_sum f g s = Inr z \<longleftrightarrow> (\<exists>y. s = Inr y \<and> z = g y)"
  by (cases s; auto)+

text \<open>
  A kernel for the examples: its world counts the calls of \<^verbatim>\<open>poll\<close>, each takes half a millisecond,
  and those selected by \<open>intr\<close> are interrupted; the others report every event asked for.
\<close>

definition ticking_os :: "(nat \<Rightarrow> bool) \<Rightarrow> nat os" where
  "ticking_os intr = \<lparr>os_socket = (\<lambda>d t p w. (7, 0, w)), os_close = (\<lambda>f w. (0, 0, w)),
     os_fcntl = (\<lambda>f c a w. (0, 0, w)), os_bind = (\<lambda>f b w. (0, 0, w)), os_connect = (\<lambda>f b w. (0, 0, w)),
     os_listen = (\<lambda>f n w. (0, 0, w)), os_shutdown = (\<lambda>f n w. (0, 0, w)),
     os_accept = (\<lambda>f b n w. (8, 0, b, n, w)), os_getpeername = (\<lambda>f b n w. (0, 0, b, n, w)),
     os_getsockname = (\<lambda>f b n w. (0, 0, b, n, w)), os_getsockopt = (\<lambda>f l k b n w. (0, 0, b, n, w)),
     os_setsockopt = (\<lambda>f l k b w. (0, 0, w)), os_sendmsg = (\<lambda>f m g w. (0, 0, w)),
     os_recvmsg = (\<lambda>f m g w. (0, 0, m, w)),
     os_poll = (\<lambda>l d w. if intr w then (- 1, EINTR, l, w + 1)
        else (int (length l), 0, map (\<lambda>p. p\<lparr>revents := events p\<rparr>) l, w + 1)),
     os_now = (\<lambda>w. (int w * 500000, w))\<rparr>"

lemma ticking_attempt:
  assumes "ps_start s = int (world (ps_env s)) * 500000"
  shows "attempt_time (ticking_os intr) s = 500000"
    and "poll_attempt (ticking_os intr) s = Inr s' \<Longrightarrow> 0 \<le> ps_duration s \<Longrightarrow>
      ps_start s' = int (world (ps_env s')) * 500000 \<and> 0 \<le> ps_duration s' \<and>
      world (ps_env s') = Suc (world (ps_env s)) \<and> ps_list s' = ps_list s"
  using assms by (auto simp: attempt_time_def poll_result_def ticking_os_def poll_attempt_def
      handle_poll_error_def remaining_duration_def Let_def split: if_splits)

lemma ticking_rounds:
  assumes "poll_rounds (ticking_os intr) n s0 = Some s" and "0 \<le> ps_duration s0"
    and "ps_start s0 = int (world (ps_env s0)) * 500000"
  shows "ps_start s = int (world (ps_env s)) * 500000 \<and> 0 \<le> ps_duration s \<and>
    world (ps_env s) = world (ps_env s0) + n \<and> ps_list s = ps_list s0"
  using assms(1)
proof (induction n arbitrary: s)
  case (Suc n)
  from Suc.prems obtain s1 where s1: "poll_rounds (ticking_os intr) n s0 = Some s1"
    "poll_attempt (ticking_os intr) s1 = Inr s"
    by (rule poll_rounds_SucE)
  with Suc.IH show ?case using ticking_attempt(2) [of s1 intr s] by simp
qed (use assms in simp)

lemma ticking_start:
  "ps_start (poll_start (ticking_os intr) list d (blank_env 0)) = 0"
  "ps_env (poll_start (ticking_os intr) list d (blank_env 0)) = blank_env 0"
  "ps_duration (poll_start (ticking_os intr) list d (blank_env 0)) = d"
  "ps_list (poll_start (ticking_os intr) list d (blank_env 0)) = list"
  "world (blank_env 0) = (0 :: nat)"
  by (simp_all add: poll_start_def ticking_os_def blank_env_def)

lemma ticking_steady:
  assumes "0 \<le> d"
  shows "clock_steady (ticking_os intr) (poll_start (ticking_os intr) list d (blank_env 0))"
  unfolding clock_steady_def
proof (intro allI impI)
  fix n s assume "poll_rounds (ticking_os intr) n (poll_start (ticking_os intr) list d (blank_env 0)) = Some s"
  from ticking_rounds [OF this] assms have "ps_start s = int (world (ps_env s)) * 500000"
    by (simp add: ticking_start)
  from ticking_attempt(1) [OF this] show "clock_ok (ticking_os intr) s" by (simp add: clock_ok_def)
qed

section \<open>Properties\<close>

text \<open>
  (C16) \<^verbatim>\<open>poll_\<close> on a non-empty list. It never returns exactly when every attempt is interrupted; it
  returns a list exactly when, after some number of interrupted attempts, an attempt succeeds, and
  then the list is the kernel's, without the entries that have no event; it throws exactly when an
  attempt fails with another error, and then with that error. This is for a steady clock and a
  timeout that fits an \<^verbatim>\<open>int\<close>.
\<close>

theorem poll_outcome:
  assumes "list \<noteq> []" and "clock_steady os (poll_start os list duration e)" and "in_int32 duration"
  shows "(poll_call os list duration e = None \<longleftrightarrow>
      (\<forall>n. \<exists>s. poll_rounds os n (poll_start os list duration e) = Some s \<and> poll_interrupted os s)) \<and>
    ((\<exists>e'. poll_call os list duration e = Some (Inr out, e')) \<longleftrightarrow>
      (\<exists>n s. poll_rounds os n (poll_start os list duration e) = Some s \<and> 0 \<le> fst (poll_result os s) \<and>
         out = filter (\<lambda>event. revents event \<noteq> 0) (fst (snd (snd (poll_result os s)))))) \<and>
    ((\<exists>e'. poll_call os list duration e = Some (Inl x, e')) \<longleftrightarrow>
      (\<exists>n s. poll_rounds os n (poll_start os list duration e) = Some s \<and> fst (poll_result os s) < 0 \<and>
         fst (snd (poll_result os s)) \<noteq> EINTR \<and> x = System_error (fst (snd (poll_result os s)))))"
proof -
  let ?s0 = "poll_start os list duration e"
  have d0: "in_int32 (ps_duration ?s0)"
    using assms(3) by (simp add: poll_start_def split: prod.splits)
  have ok: "clock_ok os s" "in_int32 (ps_duration s)" if "poll_rounds os n ?s0 = Some s" for n s
    using that assms(2) poll_rounds_int32 [OF that assms(2) d0] by (auto simp: clock_steady_def)
  have returns: "(\<exists>e'. poll_attempt os s = Inl (Inr l, e')) \<longleftrightarrow>
      0 \<le> fst (poll_result os s) \<and> l = fst (snd (snd (poll_result os s)))"
    if "poll_rounds os n ?s0 = Some s" for n s l
    by (rule poll_attempt_cases(2) [OF ok [OF that]])
  have throws: "(\<exists>e'. poll_attempt os s = Inl (Inl x, e')) \<longleftrightarrow> fst (poll_result os s) < 0 \<and>
      fst (snd (poll_result os s)) \<noteq> EINTR \<and> x = System_error (fst (snd (poll_result os s)))"
    if "poll_rounds os n ?s0 = Some s" for n s x
    by (rule poll_attempt_cases(3) [OF ok [OF that]])
  have "poll_call os list duration e = None \<longleftrightarrow> (\<forall>n. poll_rounds os n ?s0 \<noteq> None)"
    using assms(1) by (simp add: poll_call_def iterate_None_iff)
  also have "\<dots> \<longleftrightarrow> (\<forall>n. \<exists>s. poll_rounds os n ?s0 = Some s \<and> poll_interrupted os s)"
    using poll_attempt_continues(1) poll_rounds_SucE by (metis not_None_eq)
  finally have none: "poll_call os list duration e = None \<longleftrightarrow> \<dots>" .
  have iter: "(\<exists>e'. iterate (poll_attempt os) ?s0 = Some (Inr l, e')) \<longleftrightarrow>
      (\<exists>n s. poll_rounds os n ?s0 = Some s \<and> 0 \<le> fst (poll_result os s) \<and>
         l = fst (snd (snd (poll_result os s))))" for l
    by (rule iterate_result_iff [OF returns])
  have "(\<exists>e'. poll_call os list duration e = Some (Inr out, e')) \<longleftrightarrow>
      (\<exists>l. (\<exists>e'. iterate (poll_attempt os) ?s0 = Some (Inr l, e')) \<and> out = filter (\<lambda>p. revents p \<noteq> 0) l)"
    using assms(1) by (auto simp: poll_call_def map_sum_iff)
  also have "\<dots> \<longleftrightarrow> (\<exists>n s. poll_rounds os n ?s0 = Some s \<and> 0 \<le> fst (poll_result os s) \<and>
         out = filter (\<lambda>p. revents p \<noteq> 0) (fst (snd (snd (poll_result os s)))))"
    unfolding iter by blast
  finally have some: "(\<exists>e'. poll_call os list duration e = Some (Inr out, e')) \<longleftrightarrow> \<dots>" .
  have "(\<exists>e'. poll_call os list duration e = Some (Inl x, e')) \<longleftrightarrow>
      (\<exists>e'. iterate (poll_attempt os) ?s0 = Some (Inl x, e'))"
    using assms(1) by (auto simp: poll_call_def map_sum_iff)
  also have "\<dots> \<longleftrightarrow> (\<exists>n s. poll_rounds os n ?s0 = Some s \<and> fst (poll_result os s) < 0 \<and>
         fst (snd (poll_result os s)) \<noteq> EINTR \<and> x = System_error (fst (snd (poll_result os s))))"
    by (rule iterate_result_iff [OF throws])
  finally show ?thesis using none some by blast
qed

theorem poll_outcome_witness:
  "\<exists>e'. poll_call (ticking_os (\<lambda>w. w < 2)) [\<lparr>fd = 3, events = 1, revents = 0\<rparr>, \<lparr>fd = 4, events = 0, revents = 0\<rparr>]
     100 (blank_env 0) = Some (Inr [\<lparr>fd = 3, events = 1, revents = 1\<rparr>], e')"
proof -
  let ?os = "ticking_os (\<lambda>w. w < 2)"
  let ?list = "[\<lparr>fd = 3, events = 1, revents = 0\<rparr>, \<lparr>fd = 4, events = 0, revents = 0\<rparr>] :: pollfd list"
  have run: "\<exists>s. poll_rounds ?os 2 (poll_start ?os ?list 100 (blank_env 0)) = Some s \<and>
      0 \<le> fst (poll_result ?os s) \<and>
      [\<lparr>fd = 3, events = 1, revents = 1\<rparr>] =
        filter (\<lambda>event. revents event \<noteq> 0) (fst (snd (snd (poll_result ?os s))))"
    by (simp add: numeral_2_eq_2 poll_start_def ticking_os_def blank_env_def poll_attempt_def
        handle_poll_error_def remaining_duration_def to_milliseconds_def to_int32_def in_int32_def
        poll_result_def Let_def)
  show ?thesis
    using poll_outcome [of ?list ?os 100 "blank_env 0" "[\<lparr>fd = 3, events = 1, revents = 1\<rparr>]"]
      ticking_steady [of 100 "\<lambda>w. w < 2" ?list] run
    by (simp add: in_int32_def) blast
qed

text \<open>
  (C30) The timeout across interrupted attempts, for a steady clock. A finite timeout never grows and
  never becomes negative; the wait never ends early (what is left is at least the original timeout
  less the time that has passed); and it is late by less than one millisecond per interruption,
  because each elapsed interval is truncated to milliseconds on its own. An infinite (negative)
  timeout is passed on unchanged.
\<close>

theorem poll_timeout_accounting:
  assumes "poll_rounds os n (poll_start os list duration e) = Some s"
    and "clock_steady os (poll_start os list duration e)"
  shows "(duration < 0 \<longrightarrow> ps_duration s = duration) \<and>
    (0 \<le> duration \<longrightarrow> 0 \<le> ps_duration s \<and> ps_duration s \<le> duration \<and>
       duration * 1000000 \<le>
         ps_duration s * 1000000 + (ps_start s - ps_start (poll_start os list duration e)) \<and>
       (0 < ps_duration s \<longrightarrow>
         ps_duration s * 1000000 + (ps_start s - ps_start (poll_start os list duration e)) \<le>
         duration * 1000000 + int n * 999999))"
proof -
  have "ps_duration (poll_start os list duration e) = duration"
    by (simp add: poll_start_def split: prod.splits)
  then show ?thesis
    using poll_rounds_time [OF assms(1) _ assms(2)] poll_rounds_untimed [OF assms(1)] by simp
qed

theorem poll_timeout_accounting_witness:
  "\<exists>s. poll_rounds (ticking_os (\<lambda>w. True)) 1
       (poll_start (ticking_os (\<lambda>w. True)) [] 100 (blank_env 0)) = Some s \<and>
     ps_duration s \<le> 100 \<and> 100 * 1000000 \<le> ps_duration s * 1000000 + ps_start s"
proof -
  let ?os = "ticking_os (\<lambda>w. True)"
  have "\<exists>s. poll_rounds ?os 1 (poll_start ?os [] 100 (blank_env 0)) = Some s"
    by (simp add: poll_start_def ticking_os_def blank_env_def poll_attempt_def
        handle_poll_error_def remaining_duration_def to_milliseconds_def to_int32_def in_int32_def
        Let_def)
  then obtain s where s: "poll_rounds ?os 1 (poll_start ?os [] 100 (blank_env 0)) = Some s" by blast
  from poll_timeout_accounting [OF s ticking_steady] show ?thesis
    using s by (simp add: ticking_start)
qed

text \<open>
  (C31) Interruptions that come in less than a millisecond never use up the timeout: each elapsed
  interval is truncated to zero milliseconds and the start time is reset, so every attempt is given
  the full timeout again, and a call that goes on being interrupted at that rate never returns
  however short its timeout is.
\<close>

theorem frequent_interrupts_never_time_out:
  assumes "list \<noteq> []" and "0 \<le> duration" and "in_int32 duration"
    and "\<And>n s. poll_rounds os n (poll_start os list duration e) = Some s \<Longrightarrow>
      poll_interrupted os s \<and> 0 \<le> attempt_time os s \<and> attempt_time os s < 1000000"
  shows "poll_call os list duration e = None \<and>
    (\<forall>n. \<exists>s. poll_rounds os n (poll_start os list duration e) = Some s \<and> ps_duration s = duration)"
proof -
  let ?s0 = "poll_start os list duration e"
  have d0: "ps_duration ?s0 = duration" by (simp add: poll_start_def split: prod.splits)
  have run: "\<exists>s. poll_rounds os n ?s0 = Some s \<and> ps_duration s = duration" for n
  proof (induction n)
    case (Suc n)
    then obtain s where s: "poll_rounds os n ?s0 = Some s" "ps_duration s = duration" by blast
    from assms(4) [OF this(1)] have ok: "clock_ok os s" and s': "poll_interrupted os s"
      "attempt_time os s < 1000000" by (auto simp: clock_ok_def)
    then obtain s1 where s1: "poll_attempt os s = Inr s1"
      using poll_attempt_interrupted [of os s] s(2) assms(3) by auto
    then show ?case
      using s s'(2) assms(2) poll_attempt_time(5) [OF s1 _ ok]
      by (simp add: rounds_Suc del: rounds.simps)
  qed (use d0 in simp)
  then have "iterate (poll_attempt os) ?s0 = None" by (metis iterate_None_iff option.distinct(1))
  with run show ?thesis using assms(1) by (simp add: poll_call_def)
qed

theorem frequent_interrupts_never_time_out_witness:
  "poll_call (ticking_os (\<lambda>w. True)) [\<lparr>fd = 3, events = 1, revents = 0\<rparr>] 1 (blank_env 0) = None"
proof -
  have ok: "poll_interrupted (ticking_os (\<lambda>w. True)) s \<and> 0 \<le> attempt_time (ticking_os (\<lambda>w. True)) s \<and>
      attempt_time (ticking_os (\<lambda>w. True)) s < 1000000"
    if "poll_rounds (ticking_os (\<lambda>w. True)) n (poll_start (ticking_os (\<lambda>w. True))
        [\<lparr>fd = 3, events = 1, revents = 0\<rparr>] 1 (blank_env 0)) = Some s" for n s
  proof -
    from ticking_rounds [OF that] have "ps_start s = int (world (ps_env s)) * 500000"
      by (simp add: ticking_start)
    from ticking_attempt(1) [OF this, of "\<lambda>w. True"]
    have "0 \<le> attempt_time (ticking_os (\<lambda>w. True)) s \<and> attempt_time (ticking_os (\<lambda>w. True)) s < 1000000"
      by simp
    moreover have "poll_interrupted (ticking_os (\<lambda>w. True)) s"
      by (simp add: poll_interrupted_def poll_result_def ticking_os_def)
    ultimately show ?thesis by simp
  qed
  show ?thesis
    using frequent_interrupts_never_time_out [OF _ _ _ ok] by (simp add: in_int32_def)
qed

text \<open>
  Fetching a socket's pending error. When the query succeeds the handle records the error the
  kernel reports; when it fails because the descriptor is not an open socket the handle records
  that; any other failure throws and leaves every handle as it was. Only the handle asked about
  changes.
\<close>

theorem set_socket_error_outcome:
  assumes "os_getsockopt os (native_fd s e) SOL_SOCKET SO_ERROR (replicate 4 0) 4 (world e) =
      (r, err, buf, len, w)"
    and "r = 0 \<or> r = - 1" and "unat len \<le> length buf"
  shows "set_socket_error os s e =
     (if r = 0 then (Inr (), set_error s (int_of_bytes buf) (e\<lparr>world := w\<rparr>))
      else if err = EBADF \<or> err = ENOTSOCK then (Inr (), set_error s err (e\<lparr>world := w, errno := err\<rparr>))
      else (Inl (System_error err), e\<lparr>world := w, errno := err\<rparr>)) \<and>
    (\<forall>s'. s' \<noteq> s \<longrightarrow> handles (snd (set_socket_error os s e)) s' = handles e s') \<and>
    to_native (handles (snd (set_socket_error os s e)) s) = native_fd s e"
  using assms
  by (auto simp: set_socket_error_def sync_getsockopt_def run_buffer_sys_def subspan_def
      handle_getsockopt_error_def throw_system_error_def set_error_def native_fd_def to_native_def)

theorem set_socket_error_outcome_witness:
  "get_error 0 (snd (set_socket_error (logging_os\<lparr>os_getsockopt := (\<lambda>f l k b n w. (0, 0, [104, 0, 0, 0], 4, w))\<rparr>)
     0 (blank_env []))) = 104"
  using set_socket_error_outcome [of "logging_os\<lparr>os_getsockopt := (\<lambda>f l k b n w. (0, 0, [104, 0, 0, 0], 4, w))\<rparr>"
      0 "blank_env []" 0 0 "[104, 0, 0, 0]" 4 "[]"]
  by (simp add: logging_os_def blank_env_def get_error_def set_error_def int_of_bytes_def to_int32_def)

end
