(* ===== verification/Poll_Multiplexer.thy ===== *)
theory Poll_Multiplexer
  imports Poll_Call
begin

text \<open>
  The poll multiplexer: \<^verbatim>\<open>include/io/execution/poll_multiplexer.hpp\<close> and
  \<^verbatim>\<open>include/io/execution/impl/poll_multiplexer_impl.hpp\<close>.

  A task queue is the list of its tasks, oldest first; \<open>Task_Queue\<close> shows that the intrusive queue
  behaves like that list, and \<open>Queue_Refinement\<close> carries it over to the operations here. An
  operation state is identified by \<open>tid\<close>, the address of its task base. A pointer to a demultiplexer
  is its index: the deque only grows at its end, which keeps references valid.

  Receivers are code of the caller: \<open>rcv\<close> says what a receiver does with a completion, which may
  include connecting and starting further operations. The field \<open>completions\<close> is a history variable
  that records what was delivered.
\<close>

section \<open>State\<close>

type_synonym tid = nat

record demultiplexer =
  read_queue :: "tid list"
  write_queue :: "tid list"
  demux_socket :: "sid option"

datatype 'v completion = Set_value 'v | Set_error int

text \<open>
  The completion handler of an operation: it may never return, it may end in an exception, and
  it may give no value.
\<close>

type_synonym ('v, 'w) handler = "'w env \<Rightarrow> ('v option, 'w env) outcome"

record ('v, 'w) op_state =
  op_func :: "('v, 'w) handler"
  op_socket :: sid
  op_demux :: "nat option"
  op_trigger :: execution_trigger
  op_armed :: bool

record ('v, 'w) sender =
  snd_func :: "('v, 'w) handler"
  snd_socket :: sid
  snd_trigger :: execution_trigger

record ('v, 'w) sys =
  sys_env :: "'w env"
  demux :: "demultiplexer list"
  ilist :: "pollfd list"
  ops :: "tid \<rightharpoonup> ('v, 'w) op_state"
  completions :: "(tid \<times> 'v completion) list"

type_synonym ('v, 'w) receivers = "tid \<Rightarrow> 'v completion \<Rightarrow> ('v, 'w) sys \<Rightarrow> ('v, 'w) sys"

definition empty_demultiplexer :: demultiplexer where
  "empty_demultiplexer = \<lparr>read_queue = [], write_queue = [], demux_socket = None\<rparr>"

text \<open>\<^verbatim>\<open>error && error != std::errc::operation_would_block\<close>.\<close>

definition failed :: "int \<Rightarrow> bool" where
  "failed error \<longleftrightarrow> error \<noteq> 0 \<and> error \<noteq> EAGAIN"

section \<open>Operations\<close>

definition deliver ::
  "('v, 'w) receivers \<Rightarrow> tid \<Rightarrow> 'v completion \<Rightarrow> ('v, 'w) sys \<Rightarrow> ('v, 'w) sys" where
  "deliver rcv t c s = rcv t c (s\<lparr>completions := completions s @ [(t, c)]\<rparr>)"

definition complete ::
  "('v, 'w) receivers \<Rightarrow> tid \<Rightarrow> ('v, 'w) sys \<Rightarrow> (unit, ('v, 'w) sys) outcome" where
  "complete rcv t s =
     (case ops s t of
        None \<Rightarrow> Some (Inl (Undefined ''dangling task''), s)
      | Some self \<Rightarrow>
          let error = get_error (op_socket self) (sys_env s) in
          if failed error then Some (Inr (), deliver rcv t (Set_error error) s)
          else (case op_func self (sys_env s) of
                 None \<Rightarrow> None
               | Some (Inl x, e) \<Rightarrow> Some (Inl (under_noexcept x), s\<lparr>sys_env := e\<rparr>)
               | Some (Inr (Some result), e) \<Rightarrow>
                   Some (Inr (), deliver rcv t (Set_value result) (s\<lparr>sys_env := e\<rparr>))
               | Some (Inr None, e) \<Rightarrow>
                   Some (Inr (), deliver rcv t (Set_error (errno e)) (s\<lparr>sys_env := e\<rparr>))))"

definition start ::
  "('v, 'w) receivers \<Rightarrow> tid \<Rightarrow> ('v, 'w) sys \<Rightarrow> (unit, ('v, 'w) sys) outcome" where
  "start rcv t s =
     (case ops s t of
        None \<Rightarrow> Some (Inl (Undefined ''dangling task''), s)
      | Some self \<Rightarrow>
          let error = get_error (op_socket self) (sys_env s) in
          if op_trigger self = EAGER \<or> failed error then complete rcv t s
          else (case op_demux self of
                 None \<Rightarrow> Some (Inl (Undefined ''null demultiplexer''), s)
               | Some i \<Rightarrow>
                   let d = demux s ! i;
                       d = (if op_trigger self = WRITE then d\<lparr>write_queue := write_queue d @ [t]\<rparr> else d);
                       d = (if op_trigger self = READ then d\<lparr>read_queue := read_queue d @ [t]\<rparr> else d);
                       d = d\<lparr>demux_socket := Some (op_socket self)\<rparr>
                   in Some (Inr (), s\<lparr>demux := (demux s)[i := d],
                                      ops := (ops s)(t \<mapsto> self\<lparr>op_armed := True\<rparr>)\<rparr>)))"

text \<open>
  \<^verbatim>\<open>std::deque\<close>: \<^verbatim>\<open>resize\<close> takes a \<^verbatim>\<open>size_t\<close> and throws beyond \<^verbatim>\<open>max_size()\<close>, which is the largest
  \<^verbatim>\<open>ptrdiff_t\<close> divided by the size of an element; \<^verbatim>\<open>at\<close> throws out of range.
\<close>

definition demux_max_size :: nat where
  "demux_max_size = (2 ^ 63 - 1) div 56"

definition resize :: "demultiplexer list \<Rightarrow> size_t \<Rightarrow> exn + demultiplexer list" where
  "resize ds n =
     (if unat n > demux_max_size then Inl Length_error
      else Inr (take (unat n) ds @ replicate (unat n - length ds) empty_demultiplexer))"

definition at :: "demultiplexer list \<Rightarrow> size_t \<Rightarrow> exn + nat" where
  "at ds i = (if unat i < length ds then Inr (unat i) else Inl Out_of_range)"

text \<open>
  The conversions are those of the source: \<^verbatim>\<open>static_cast<std::size_t>(sockfd) + 1\<close> wraps, while
  \<^verbatim>\<open>sockfd + 1\<close> is computed as an \<^verbatim>\<open>int\<close> and then converted.
\<close>

definition demux_for :: "native_socket_type \<Rightarrow> demultiplexer list \<Rightarrow> (exn + nat) \<times> demultiplexer list" where
  "demux_for sockfd ds =
     (let grown = (if (of_nat (length ds) :: size_t) < of_int sockfd + 1
                   then if in_int32 (sockfd + 1) then resize ds (of_int (sockfd + 1))
                        else Inl (Undefined ''int overflow'')
                   else Inr ds)
      in case grown of
           Inl x \<Rightarrow> (Inl x, ds)
         | Inr ds' \<Rightarrow> (at ds' (of_int sockfd), ds'))"

definition connect ::
  "('v, 'w) sender \<Rightarrow> tid \<Rightarrow> ('v, 'w) sys \<Rightarrow> (exn + unit) \<times> ('v, 'w) sys" where
  "connect sender t s =
     (let error = get_error (snd_socket sender) (sys_env s);
          state = \<lparr>op_func = snd_func sender, op_socket = snd_socket sender, op_demux = None,
                   op_trigger = snd_trigger sender, op_armed = False\<rparr>
      in if (error = 0 \<or> error = EAGAIN) \<and> snd_trigger sender \<noteq> EAGER then
           let sockfd = native_fd (snd_socket sender) (sys_env s) in
           case demux_for sockfd (demux s) of
             (Inl x, ds) \<Rightarrow> (Inl x, s\<lparr>demux := ds\<rparr>)
           | (Inr i, ds) \<Rightarrow>
               (Inr (), s\<lparr>demux := ds,
                  ilist := snd (update_or_insert_event (ilist s) (make_poll_event sockfd (snd_trigger sender))),
                  ops := (ops s)(t \<mapsto> state\<lparr>op_demux := Some i\<rparr>)\<rparr>)
         else (Inr (), s\<lparr>ops := (ops s)(t \<mapsto> state)\<rparr>))"

definition set_sender :: "sid \<Rightarrow> execution_trigger \<Rightarrow> ('v, 'w) handler \<Rightarrow> ('v, 'w) sender" where
  "set_sender socket trigger func =
     \<lparr>snd_func = func, snd_socket = socket, snd_trigger = trigger\<rparr>"

text \<open>\<^verbatim>\<open>task::execute\<close> on every task of the ready queue, in order.\<close>

fun run_queue ::
  "('v, 'w) receivers \<Rightarrow> tid list \<Rightarrow> ('v, 'w) sys \<Rightarrow> (unit, ('v, 'w) sys) outcome" where
  "run_queue rcv [] s = Some (Inr (), s)"
| "run_queue rcv (t # queue) s =
     and_then
       (case ops s t of
          None \<Rightarrow> Some (Inl (Undefined ''dangling task''), s)
        | Some self \<Rightarrow> if op_armed self then complete rcv t s else Some (Inl Terminated, s))
       (\<lambda>_ s'. run_queue rcv queue s')"

definition prepare_handles ::
  "'w os \<Rightarrow> short \<Rightarrow> nat \<Rightarrow> tid list \<Rightarrow> ('v, 'w) sys \<Rightarrow> (exn + tid list) \<times> ('v, 'w) sys" where
  "prepare_handles os revs i ready s =
     (let d = demux s ! i;
          (err, e) = (if revs AND (POLLERR OR POLLNVAL) \<noteq> 0
                      then case demux_socket d of
                             None \<Rightarrow> (Inl (Undefined ''null socket''), sys_env s)
                           | Some h \<Rightarrow> set_socket_error os h (sys_env s)
                      else (Inr (), sys_env s))
      in case err of
           Inl x \<Rightarrow> (Inl x, s\<lparr>sys_env := e\<rparr>)
         | Inr _ \<Rightarrow>
             let (ready, d) = (if revs AND (POLLOUT OR POLLERR OR POLLNVAL) \<noteq> 0
                               then (ready @ write_queue d, d\<lparr>write_queue := []\<rparr>) else (ready, d));
                 (ready, d) = (if revs AND (POLLIN OR POLLHUP OR POLLERR OR POLLNVAL) \<noteq> 0
                               then (ready @ read_queue d, d\<lparr>read_queue := []\<rparr>) else (ready, d))
             in (Inr ready, s\<lparr>sys_env := e, demux := (demux s)[i := d]\<rparr>))"

text \<open>
  The critical section of \<^verbatim>\<open>wait_for\<close>. \<^verbatim>\<open>demux_[event.fd]\<close> is unchecked. An exception leaves the tasks
  that were already moved on the local ready queue, which is lost with it.
\<close>

fun dispatch ::
  "'w os \<Rightarrow> pollfd list \<Rightarrow> tid list \<Rightarrow> ('v, 'w) sys \<Rightarrow> (exn + tid list) \<times> ('v, 'w) sys" where
  "dispatch os [] ready s = (Inr ready, s)"
| "dispatch os (event # list) ready s =
     (let s = s\<lparr>ilist := clear_event event (ilist s)\<rparr> in
      if 0 \<le> fd event \<and> nat (fd event) < length (demux s) then
        (case prepare_handles os (revents event) (nat (fd event)) ready s of
           (Inl x, s') \<Rightarrow> (Inl x, s')
         | (Inr ready', s') \<Rightarrow> dispatch os list ready' s')
      else (Inl (Undefined ''demultiplexer index''), s))"

definition wait_for ::
  "'w os \<Rightarrow> ('v, 'w) receivers \<Rightarrow> int \<Rightarrow> ('v, 'w) sys \<Rightarrow> (nat, ('v, 'w) sys) outcome" where
  "wait_for os rcv interval s =
     and_then (map_option (\<lambda>(res, e). (res, s\<lparr>sys_env := e\<rparr>))
                (poll_call os (copy_active (ilist s)) (to_int32 interval) (sys_env s)))
       (\<lambda>list s1.
          and_then (Some (dispatch os list [] s1)) (\<lambda>ready_queue s2.
            and_then (run_queue rcv ready_queue s2) (\<lambda>_ s3. Some (Inr (length list), s3))))"

section \<open>Descriptor arithmetic\<close>

lemma unat_of_int_nonneg:
  assumes "0 \<le> k" and "k < 2 ^ 64"
  shows "unat (of_int k :: size_t) = nat k"
proof -
  have "uint (of_int k :: size_t) = k" using assms by (simp add: uint_word_of_int)
  then show ?thesis by (metis nat_uint_eq)
qed

lemma size_t_successor:
  assumes "0 \<le> f" and "f < 2 ^ 31"
  shows "unat (of_int f + 1 :: size_t) = nat f + 1" and "unat (of_int f :: size_t) = nat f"
  using assms unat_of_int_nonneg [of "f + 1"] unat_of_int_nonneg [of f] by simp_all

lemma unat_of_length: "n \<le> 2 ^ 31 \<Longrightarrow> unat (of_nat n :: size_t) = n"
  by (simp add: unat_of_nat)

lemma size_t_of_negative:
  assumes "- (2 ^ 31) \<le> k" and "k < 0"
  shows "demux_max_size < unat (of_int k :: size_t)" and "2 ^ 63 \<le> unat (of_int k :: size_t)"
proof -
  have "k mod 2 ^ 64 = (k + 2 ^ 64) mod 2 ^ 64" by simp
  also have "\<dots> = k + 2 ^ 64" using assms by (intro mod_pos_pos_trivial) auto
  finally have "uint (of_int k :: size_t) = k + 2 ^ 64" by (simp add: uint_word_of_int)
  then have "unat (of_int k :: size_t) = nat (k + 2 ^ 64)" by (metis nat_uint_eq)
  then show "2 ^ 63 \<le> unat (of_int k :: size_t)" using assms by (simp add: nat_le_iff)
  then show "demux_max_size < unat (of_int k :: size_t)" by (simp add: demux_max_size_def)
qed

text \<open>What \<open>connect\<close> does to the deque, for every value of a descriptor.\<close>

lemma demux_for_valid:
  assumes "0 \<le> f" and "f < 2 ^ 31 - 1" and "length ds \<le> 2 ^ 31"
  shows "demux_for f ds =
    (Inr (nat f), ds @ replicate (nat f + 1 - length ds) empty_demultiplexer)"
proof -
  have less: "(of_nat (length ds) :: size_t) < of_int f + 1 \<longleftrightarrow> length ds < nat f + 1"
    using size_t_successor(1) [of f] unat_of_length [OF assms(3)] assms by (simp add: word_less_nat_alt)
  have "resize ds (of_int (f + 1)) = Inr (ds @ replicate (nat f + 1 - length ds) empty_demultiplexer)"
    if "length ds < nat f + 1"
    using size_t_successor(1) [of f] assms that by (simp add: resize_def demux_max_size_def)
  moreover have "at ds' (of_int f) = Inr (nat f)" if "nat f < length ds'" for ds'
    using size_t_successor(2) [of f] assms that by (simp add: at_def)
  ultimately show ?thesis
    using less assms by (auto simp: demux_for_def Let_def in_int32_def not_less)
qed

lemma demux_for_invalid_socket:
  assumes "length ds \<le> 2 ^ 31"
  shows "demux_for (- 1) ds = (Inl Out_of_range, ds)"
  using assms size_t_of_negative(2) [of "- 1"] by (auto simp: demux_for_def at_def not_less)

lemma demux_for_negative:
  assumes "- (2 ^ 31) \<le> f" and "f < - 1" and "length ds \<le> 2 ^ 31"
  shows "demux_for f ds = (Inl Length_error, ds)"
proof -
  have "(of_nat (length ds) :: size_t) < of_int f + 1"
    using size_t_of_negative(2) [of "f + 1"] unat_of_length [OF assms(3)] assms
    by (simp add: word_less_nat_alt)
  then show ?thesis
    using size_t_of_negative(1) [of "f + 1"] assms
    by (simp add: demux_for_def resize_def in_int32_def)
qed

end
