(* ===== verification/Multiplexer_Invariant.thy ===== *)
theory Multiplexer_Invariant
  imports Poll_Multiplexer "HOL-Library.Sublist"
begin

text \<open>
  What the operations of the poll multiplexer maintain and do: the representation invariant
  \<open>mux_wf\<close>, the invariant \<open>covered\<close> that every queued task's event is in the interest list, the effect
  of the critical section of \<^verbatim>\<open>wait_for\<close> on queues and interest, and the order of completions.
\<close>

section \<open>The invariants\<close>

fun queue_of :: "execution_trigger \<Rightarrow> demultiplexer \<Rightarrow> tid list" where
  "queue_of READ d = read_queue d"
| "queue_of WRITE d = write_queue d"
| "queue_of EAGER d = []"

fun event_bit :: "execution_trigger \<Rightarrow> nat" where
  "event_bit READ = 0"
| "event_bit WRITE = 2"
| "event_bit EAGER = 0"

text \<open>The registered descriptors have a demultiplexer.\<close>

definition ilist_ok :: "pollfd list \<Rightarrow> nat \<Rightarrow> bool" where
  "ilist_ok list n \<longleftrightarrow> ilist_wf list \<and> (\<forall>f \<in> fd ` set list. 0 \<le> f \<and> nat f < n)"

text \<open>
  A queued task is a started operation of that queue's trigger and demultiplexer, queued once, and
  a demultiplexer with queued tasks knows its socket.
\<close>

definition demux_ok :: "(tid \<rightharpoonup> ('v, 'w) op_state) \<Rightarrow> nat \<Rightarrow> demultiplexer \<Rightarrow> bool" where
  "demux_ok os i d \<longleftrightarrow>
     (\<forall>tr. distinct (queue_of tr d) \<and> (queue_of tr d \<noteq> [] \<longrightarrow> demux_socket d \<noteq> None) \<and>
        (\<forall>t \<in> set (queue_of tr d).
           \<exists>op. os t = Some op \<and> op_armed op \<and> op_trigger op = tr \<and> op_demux op = Some i))"

definition mux_wf :: "('v, 'w) sys \<Rightarrow> bool" where
  "mux_wf s \<longleftrightarrow>
     ilist_ok (ilist s) (length (demux s)) \<and> length (demux s) \<le> 2 ^ 31 \<and>
     (\<forall>t op i. ops s t = Some op \<longrightarrow> op_demux op = Some i \<longrightarrow> i < length (demux s)) \<and>
     (\<forall>i < length (demux s). demux_ok (ops s) i (demux s ! i))"

text \<open>No lost wake-up: a queue that holds a task has its event in the interest list.\<close>

definition covered :: "('v, 'w) sys \<Rightarrow> bool" where
  "covered s \<longleftrightarrow>
     (\<forall>i < length (demux s). \<forall>tr. queue_of tr (demux s ! i) \<noteq> [] \<longrightarrow>
        bit (interest (ilist s) (int i)) (event_bit tr))"

text \<open>
  The tasks that wait for an event of a descriptor, and the operation \<open>t\<close> joining them: it comes last, and no
  other queue changes. \<open>asks_for\<close>: the next call of \<^verbatim>\<open>poll\<close> asks for the event of the descriptor.
\<close>

definition queue_at :: "execution_trigger \<Rightarrow> nat \<Rightarrow> ('v, 'w) sys \<Rightarrow> tid list" where
  "queue_at tr i s = (if i < length (demux s) then queue_of tr (demux s ! i) else [])"

definition joins_queue :: "execution_trigger \<Rightarrow> nat \<Rightarrow> tid \<Rightarrow> ('v, 'w) sys \<Rightarrow> ('v, 'w) sys \<Rightarrow> bool" where
  "joins_queue tr i t s s' \<longleftrightarrow>
     (\<forall>tr' j. queue_at tr' j s' = (if tr' = tr \<and> j = i then queue_at tr' j s @ [t] else queue_at tr' j s))"

definition asks_for :: "execution_trigger \<Rightarrow> native_socket_type \<Rightarrow> ('v, 'w) sys \<Rightarrow> bool" where
  "asks_for tr f s \<longleftrightarrow> (\<exists>p \<in> set (copy_active (ilist s)). fd p = f \<and> bit (events p) (event_bit tr))"

definition initial_sys :: "'w env \<Rightarrow> ('v, 'w) sys" where
  "initial_sys e = \<lparr>sys_env = e, demux = [], ilist = [], ops = Map.empty, completions = []\<rparr>"

lemma initial_sys_ok: "mux_wf (initial_sys e)" "covered (initial_sys e)"
  by (simp_all add: mux_wf_def covered_def initial_sys_def ilist_ok_def ilist_wf_def)

lemma empty_demultiplexer_ok: "demux_ok os i empty_demultiplexer" "queue_of tr empty_demultiplexer = []"
  unfolding demux_ok_def
  by (intro allI; case_tac tr; simp add: empty_demultiplexer_def)
    (cases tr; simp add: empty_demultiplexer_def)

section \<open>Connecting and starting\<close>

lemma fds_update_or_insert:
  "fd ` set (snd (update_or_insert_event list event)) \<subseteq> insert (fd event) (fd ` set list)"
proof -
  have "set (take n list @ event # drop n list) = insert event (set list)" for n
    by (metis (no_types, lifting) Un_insert_right append_take_drop_id list.simps(15) set_append)
  then show ?thesis
    by (auto simp: update_or_insert_event_def Let_def dest!: set_mp [OF set_update_subset_insert])
qed

lemma fds_clear_event: "map fd (clear_event event list) = map fd list"
  by (simp add: clear_event_def Let_def map_update map_update_same)

lemma ilist_ok_update:
  assumes "ilist_ok list n" and "0 \<le> fd event" and "nat (fd event) < m" and "n \<le> m"
  shows "ilist_ok (snd (update_or_insert_event list event)) m"
  using assms fds_update_or_insert [of list event] update_or_insert_event_wf [of list event]
  by (fastforce simp: ilist_ok_def)

lemma ilist_ok_clear: "ilist_ok list n \<Longrightarrow> ilist_ok (clear_event event list) n"
  using clear_event_wf [of list event] fds_clear_event [of event list]
  by (simp add: ilist_ok_def flip: set_map)

text \<open>A descriptor that \<^verbatim>\<open>connect\<close> can register; the others end in an exception.\<close>

definition usable_fd :: "native_socket_type \<Rightarrow> bool" where
  "usable_fd f \<longleftrightarrow> 0 \<le> f \<and> f < 2 ^ 31 - 1"

abbreviation registers :: "('v, 'w) sender \<Rightarrow> ('v, 'w) sys \<Rightarrow> bool" where
  "registers sender s \<equiv> \<not> failed (get_error (snd_socket sender) (sys_env s)) \<and> snd_trigger sender \<noteq> EAGER"

abbreviation sender_fd :: "('v, 'w) sender \<Rightarrow> ('v, 'w) sys \<Rightarrow> native_socket_type" where
  "sender_fd sender s \<equiv> native_fd (snd_socket sender) (sys_env s)"

lemma connect_registering:
  assumes "registers sender s" and "usable_fd (sender_fd sender s)" and "length (demux s) \<le> 2 ^ 31"
  shows "connect sender t s =
    (Inr (), s\<lparr>demux := demux s @ replicate (nat (sender_fd sender s) + 1 - length (demux s)) empty_demultiplexer,
       ilist := register (make_poll_event (sender_fd sender s) (snd_trigger sender)) (ilist s),
       ops := (ops s)(t \<mapsto> \<lparr>op_func = snd_func sender, op_socket = snd_socket sender,
         op_demux = Some (nat (sender_fd sender s)), op_trigger = snd_trigger sender, op_armed = False\<rparr>)\<rparr>)"
  using assms demux_for_valid [of "sender_fd sender s" "demux s"]
  by (auto simp: connect_def failed_def usable_fd_def register_def Let_def)

lemma connect_not_registering:
  assumes "\<not> registers sender s"
  shows "connect sender t s =
    (Inr (), s\<lparr>ops := (ops s)(t \<mapsto> \<lparr>op_func = snd_func sender, op_socket = snd_socket sender,
       op_demux = None, op_trigger = snd_trigger sender, op_armed = False\<rparr>)\<rparr>)"
  using assms by (auto simp: connect_def failed_def Let_def)

lemma demux_ok_fresh: "demux_ok os i d \<Longrightarrow> os t = None \<Longrightarrow> demux_ok (os(t \<mapsto> op)) i d"
  unfolding demux_ok_def by (metis fun_upd_apply option.distinct(1))

lemma grown_nth:
  "i < length (ds @ replicate n empty_demultiplexer) \<Longrightarrow>
     (ds @ replicate n empty_demultiplexer) ! i = (if i < length ds then ds ! i else empty_demultiplexer)"
  by (simp add: nth_append)

lemma connect_wf:
  assumes wf: "mux_wf s" and fresh: "ops s t = None"
    and usable: "registers sender s \<Longrightarrow> usable_fd (sender_fd sender s)"
  shows "mux_wf (snd (connect sender t s))"
proof (cases "registers sender s")
  case True
  let ?f = "sender_fd sender s"
  let ?ds = "demux s @ replicate (nat ?f + 1 - length (demux s)) empty_demultiplexer"
  have f: "0 \<le> ?f" "?f < 2 ^ 31 - 1" using usable [OF True] by (auto simp: usable_fd_def)
  have len: "nat ?f < length ?ds" "length (demux s) \<le> length ?ds" "length ?ds \<le> 2 ^ 31"
    using f wf by (auto simp: mux_wf_def)
  have "ilist_ok (register (make_poll_event ?f (snd_trigger sender)) (ilist s)) (length ?ds)"
    unfolding register_def
    using wf f len by (intro ilist_ok_update [of _ "length (demux s)"])
      (auto simp: mux_wf_def make_poll_event_bits)
  moreover have "demux_ok ((ops s)(t \<mapsto> op)) i (?ds ! i)" if "i < length ?ds" for i op
    unfolding grown_nth [OF that]
    using wf fresh by (auto simp: mux_wf_def demux_ok_fresh empty_demultiplexer_ok)
  moreover have "i < length ?ds" if "ops s t' = Some op" "op_demux op = Some i" for t' op i
  proof -
    have "i < length (demux s)" using wf that by (auto simp: mux_wf_def)
    with len(2) show ?thesis by linarith
  qed
  ultimately show ?thesis
    using len connect_registering [OF True usable [OF True], of t] wf
    by (auto simp: mux_wf_def split: if_splits)
next
  case False
  then show ?thesis
    using wf fresh connect_not_registering [OF False, of t]
    by (auto simp: mux_wf_def demux_ok_fresh split: if_splits)
qed

lemma connect_covered:
  assumes wf: "mux_wf s" and cov: "covered s"
    and usable: "registers sender s \<Longrightarrow> usable_fd (sender_fd sender s)"
  shows "covered (snd (connect sender t s))"
proof (cases "registers sender s")
  case True
  have "ilist_wf (ilist s)" "length (demux s) \<le> 2 ^ 31" using wf by (auto simp: mux_wf_def ilist_ok_def)
  then show ?thesis
    using cov connect_registering [OF True usable [OF True], of t] ilist.look_add
    by (auto simp: covered_def grown_nth empty_demultiplexer_ok bit_or_iff simp del: length_append
        split: if_splits)
next
  case False
  then show ?thesis using cov connect_not_registering [OF False, of t] by (simp add: covered_def)
qed

text \<open>What \<^verbatim>\<open>start\<close> does to the demultiplexer of a pending operation.\<close>

definition enqueue :: "execution_trigger \<Rightarrow> tid \<Rightarrow> sid \<Rightarrow> demultiplexer \<Rightarrow> demultiplexer" where
  "enqueue tr t h d =
     (case tr of
        READ \<Rightarrow> d\<lparr>read_queue := read_queue d @ [t], demux_socket := Some h\<rparr>
      | WRITE \<Rightarrow> d\<lparr>write_queue := write_queue d @ [t], demux_socket := Some h\<rparr>
      | EAGER \<Rightarrow> d\<lparr>demux_socket := Some h\<rparr>)"

lemma queue_of_enqueue:
  "tr \<noteq> EAGER \<Longrightarrow>
     queue_of tr' (enqueue tr t h d) = (if tr' = tr then queue_of tr d @ [t] else queue_of tr' d)"
  "demux_socket (enqueue tr t h d) = Some h"
  by (cases tr; cases tr'; simp add: enqueue_def)+

text \<open>The queues after \<^verbatim>\<open>connect\<close> and after \<^verbatim>\<open>start\<close>.\<close>

lemma queue_at_grown:
  "demux s' = demux s @ replicate n empty_demultiplexer \<Longrightarrow> queue_at tr j s' = queue_at tr j s"
  by (auto simp: queue_at_def nth_append empty_demultiplexer_ok)

lemma joins_queue_enqueue:
  fixes s s1 s2 :: "('v, 'w) sys"
  assumes "demux s1 = demux s @ replicate n empty_demultiplexer"
    and "demux s2 = (demux s1)[i := enqueue tr t h (demux s1 ! i)]" and "i < length (demux s1)" and "tr \<noteq> EAGER"
  shows "joins_queue tr i t s s2"
  unfolding joins_queue_def queue_at_grown [OF assms(1), symmetric]
  using assms(2-4) by (auto simp: queue_at_def nth_list_update queue_of_enqueue)

text \<open>An operation that \<^verbatim>\<open>start\<close> queues.\<close>

definition startable :: "tid \<Rightarrow> ('v, 'w) op_state \<Rightarrow> nat \<Rightarrow> ('v, 'w) sys \<Rightarrow> bool" where
  "startable t self i s \<longleftrightarrow> ops s t = Some self \<and> op_demux self = Some i \<and> \<not> op_armed self \<and>
     op_trigger self \<noteq> EAGER \<and> \<not> failed (get_error (op_socket self) (sys_env s))"

lemma start_queues:
  assumes "startable t self i s"
  shows "start rcv t s =
    Some (Inr (), s\<lparr>demux := (demux s)[i := enqueue (op_trigger self) t (op_socket self) (demux s ! i)],
      ops := (ops s)(t \<mapsto> self\<lparr>op_armed := True\<rparr>)\<rparr>)"
  using assms
  by (cases "op_trigger self") (auto simp: start_def startable_def enqueue_def Let_def)

lemma start_wf:
  assumes wf: "mux_wf s" and st: "startable t self i s"
  shows "\<exists>s'. start rcv t s = Some (Inr (), s') \<and> mux_wf s'"
proof -
  let ?op = "self\<lparr>op_armed := True\<rparr>"
  let ?d = "enqueue (op_trigger self) t (op_socket self) (demux s ! i)"
  have i: "i < length (demux s)" using wf st by (auto simp: mux_wf_def startable_def)
  have idle: "t \<notin> set (queue_of tr (demux s ! j))" if "j < length (demux s)" for j tr
    using wf st that by (fastforce simp: mux_wf_def demux_ok_def startable_def)
  have ok: "demux_ok ((ops s)(t \<mapsto> ?op)) j (demux s ! j)" if "j < length (demux s)" for j
    using wf idle [OF that] that by (auto simp: mux_wf_def demux_ok_def)
  moreover have "demux_ok ((ops s)(t \<mapsto> ?op)) i ?d"
    using ok [OF i] idle [OF i] st
    by (auto simp: demux_ok_def queue_of_enqueue startable_def)
  ultimately show ?thesis
    using wf st start_queues [OF st, of rcv]
    by (auto simp: mux_wf_def startable_def nth_list_update)
qed

lemma start_covered:
  assumes cov: "covered s" and st: "startable t self i s"
    and interest: "bit (interest (ilist s) (int i)) (event_bit (op_trigger self))"
    and "start rcv t s = Some (Inr (), s')"
  shows "covered s'"
  unfolding covered_def
proof (intro allI impI)
  let ?d = "enqueue (op_trigger self) t (op_socket self) (demux s ! i)"
  fix j tr assume j: "j < length (demux s')" and busy: "queue_of tr (demux s' ! j) \<noteq> []"
  have s': "demux s' = (demux s)[i := ?d]" "ilist s' = ilist s" and tr: "op_trigger self \<noteq> EAGER"
    using assms(4) start_queues [OF st, of rcv] st by (auto simp: startable_def)
  show "bit (interest (ilist s') (int j)) (event_bit tr)"
  proof (cases "j = i")
    case True
    with busy j s' tr interest cov show ?thesis
      by (auto simp: queue_of_enqueue covered_def split: if_splits)
  qed (use busy j s' cov in \<open>auto simp: covered_def\<close>)
qed

section \<open>The critical section of waiting\<close>

definition takes_write :: "short \<Rightarrow> bool" where
  "takes_write revs \<longleftrightarrow> bit revs 2 \<or> bit revs 3 \<or> bit revs 5"

definition takes_read :: "short \<Rightarrow> bool" where
  "takes_read revs \<longleftrightarrow> bit revs 0 \<or> bit revs 4 \<or> bit revs 3 \<or> bit revs 5"

definition has_error :: "short \<Rightarrow> bool" where
  "has_error revs \<longleftrightarrow> bit revs 3 \<or> bit revs 5"

text \<open>The tasks an event makes ready, writers first, and what is left of the demultiplexer.\<close>

definition ready_of :: "short \<Rightarrow> demultiplexer \<Rightarrow> tid list" where
  "ready_of revs d =
     (if takes_write revs then write_queue d else []) @ (if takes_read revs then read_queue d else [])"

definition drained :: "short \<Rightarrow> demultiplexer \<Rightarrow> demultiplexer" where
  "drained revs d =
     d\<lparr>write_queue := (if takes_write revs then [] else write_queue d),
       read_queue := (if takes_read revs then [] else read_queue d)\<rparr>"

lemma revents_masks:
  "(revs AND (POLLERR OR POLLNVAL) \<noteq> 0) \<longleftrightarrow> has_error revs"
  "(revs AND (POLLOUT OR POLLERR OR POLLNVAL) \<noteq> 0) \<longleftrightarrow> takes_write revs"
  "(revs AND (POLLIN OR POLLHUP OR POLLERR OR POLLNVAL) \<noteq> 0) \<longleftrightarrow> takes_read revs"
  by (auto simp only: and_or_neq_0 poll_bits has_error_def takes_write_def takes_read_def)

lemma prepare_handles_no_error:
  assumes "\<not> has_error revs"
  shows "prepare_handles os revs i ready s =
    (Inr (ready @ ready_of revs (demux s ! i)), s\<lparr>demux := (demux s)[i := drained revs (demux s ! i)]\<rparr>)"
  using assms unfolding prepare_handles_def revents_masks
  by (simp add: ready_of_def drained_def Let_def)

lemma prepare_handles_error:
  assumes "has_error revs" and "demux_socket (demux s ! i) = Some h"
  shows "prepare_handles os revs i ready s =
    (case set_socket_error os h (sys_env s) of
       (Inl x, e) \<Rightarrow> (Inl x, s\<lparr>sys_env := e\<rparr>)
     | (Inr _, e) \<Rightarrow> (Inr (ready @ ready_of revs (demux s ! i)),
         s\<lparr>sys_env := e, demux := (demux s)[i := drained revs (demux s ! i)]\<rparr>))"
proof -
  have "takes_write revs" "takes_read revs"
    using assms(1) by (auto simp: has_error_def takes_write_def takes_read_def)
  then show ?thesis
    using assms unfolding prepare_handles_def revents_masks
    by (auto simp: ready_of_def drained_def Let_def split: prod.splits sum.splits)
qed

lemma prepare_handles_result:
  assumes "prepare_handles os revs i ready s = (Inr ready', s')"
  shows "ready' = ready @ ready_of revs (demux s ! i)"
    and "\<exists>e. s' = s\<lparr>sys_env := e, demux := (demux s)[i := drained revs (demux s ! i)]\<rparr>"
proof -
  have "ready' = ready @ ready_of revs (demux s ! i) \<and>
      (\<exists>e. s' = s\<lparr>sys_env := e, demux := (demux s)[i := drained revs (demux s ! i)]\<rparr>)"
  proof (cases "has_error revs")
    case True
    then obtain h where "demux_socket (demux s ! i) = Some h"
      using assms unfolding prepare_handles_def revents_masks
      by (cases "demux_socket (demux s ! i)") (auto simp: Let_def)
    from prepare_handles_error [OF True this, of os ready] assms show ?thesis
      by (auto split: prod.splits sum.splits)
  next
    case False
    from prepare_handles_no_error [OF False, of os i ready s] assms show ?thesis
      by (auto intro!: exI [of _ "sys_env s"])
  qed
  then show "ready' = ready @ ready_of revs (demux s ! i)"
    "\<exists>e. s' = s\<lparr>sys_env := e, demux := (demux s)[i := drained revs (demux s ! i)]\<rparr>" by blast+
qed

text \<open>The whole loop, for the distinct descriptors that \<^verbatim>\<open>poll\<close> returns.\<close>

definition dispatched :: "pollfd list \<Rightarrow> demultiplexer list \<Rightarrow> demultiplexer list" where
  "dispatched evs ds =
     fold (\<lambda>ev ds. ds[nat (fd ev) := drained (revents ev) (ds ! nat (fd ev))]) evs ds"

lemma dispatched_other:
  "i \<notin> (\<lambda>ev. nat (fd ev)) ` set evs \<Longrightarrow> dispatched evs ds ! i = ds ! i"
  by (induction evs arbitrary: ds) (auto simp: dispatched_def)

lemma length_dispatched [simp]: "length (dispatched evs ds) = length ds"
  by (induction evs arbitrary: ds) (auto simp: dispatched_def)

lemma dispatched_event:
  assumes "distinct (map fd evs)" and "\<forall>ev \<in> set evs. 0 \<le> fd ev \<and> nat (fd ev) < length ds" and "ev \<in> set evs"
  shows "dispatched evs ds ! nat (fd ev) = drained (revents ev) (ds ! nat (fd ev))"
  using assms
proof (induction evs arbitrary: ds)
  case (Cons e evs)
  let ?ds = "ds[nat (fd e) := drained (revents e) (ds ! nat (fd e))]"
  have step: "dispatched (e # evs) ds = dispatched evs ?ds" by (simp add: dispatched_def)
  have other: "nat (fd e) \<noteq> nat (fd e')" if "e' \<in> set evs" for e'
    using Cons.prems(1,2) that by (metis distinct.simps(2) eq_nat_nat_iff image_eqI list.set_intros(1,2)
        list.set_map list.simps(9))
  show ?case
  proof (cases "ev \<in> set evs")
    case True
    then show ?thesis
      unfolding step using Cons.IH [of ?ds] Cons.prems other [OF True] by simp
  next
    case False
    then have "ev = e" using Cons.prems(3) by simp
    then show ?thesis
      unfolding step using dispatched_other [of "nat (fd e)" evs ?ds] Cons.prems(2) other by auto
  qed
qed simp

lemma dispatch_result:
  assumes "dispatch os evs ready s = (Inr ready', s')" and "distinct (map fd evs)"
  shows "ready' = ready @ concat (map (\<lambda>ev. ready_of (revents ev) (demux s ! nat (fd ev))) evs) \<and>
    (\<forall>ev \<in> set evs. 0 \<le> fd ev \<and> nat (fd ev) < length (demux s)) \<and>
    (\<exists>e. s' = s\<lparr>sys_env := e, ilist := fold clear_event evs (ilist s), demux := dispatched evs (demux s)\<rparr>)"
  using assms
proof (induction evs arbitrary: ready s)
  case Nil
  then show ?case by (auto simp: dispatched_def intro!: exI [of _ "sys_env s'"])
next
  case (Cons ev evs)
  let ?i = "nat (fd ev)"
  let ?s = "s\<lparr>ilist := clear_event ev (ilist s)\<rparr>"
  from Cons.prems(1) have i: "0 \<le> fd ev" "?i < length (demux s)"
    by (auto simp: Let_def split: if_splits)
  with Cons.prems(1) obtain ready1 s1 where
    p: "prepare_handles os (revents ev) ?i ready ?s = (Inr ready1, s1)"
    and d: "dispatch os evs ready1 s1 = (Inr ready', s')"
    by (auto simp: Let_def split: prod.splits sum.splits)
  from prepare_handles_result [OF p] obtain e where
    r1: "ready1 = ready @ ready_of (revents ev) (demux s ! ?i)"
    and s1: "s1 = ?s\<lparr>sys_env := e, demux := (demux s)[?i := drained (revents ev) (demux s ! ?i)]\<rparr>"
    by auto
  note IH = Cons.IH [OF d]
  have "?i \<noteq> nat (fd ev')" if "ev' \<in> set evs" for ev'
    using IH Cons.prems(2) that i(1) by (auto simp: eq_nat_nat_iff)
  then have same: "map (\<lambda>ev. ready_of (revents ev) (demux s1 ! nat (fd ev))) evs =
      map (\<lambda>ev. ready_of (revents ev) (demux s ! nat (fd ev))) evs"
    using s1 by simp
  show ?case
    using IH Cons.prems(2) i r1 unfolding same by (auto simp: s1 dispatched_def)
qed

lemma queue_of_drained:
  "queue_of tr (drained revs d) =
     (if tr = WRITE \<and> takes_write revs \<or> tr = READ \<and> takes_read revs then [] else queue_of tr d)"
  "demux_socket (drained revs d) = demux_socket d"
  by (cases tr; simp add: drained_def)+

lemma demux_ok_drained: "demux_ok os i d \<Longrightarrow> demux_ok os i (drained revs d)"
  by (auto simp: demux_ok_def queue_of_drained)

lemma ilist_ok_fold_clear: "ilist_ok list n \<Longrightarrow> ilist_ok (fold clear_event evs list) n"
  by (induction evs arbitrary: list) (auto simp: ilist_ok_clear)

lemma dispatched_ok:
  assumes "\<forall>i < length ds. demux_ok os i (ds ! i)"
  shows "\<forall>i < length ds. demux_ok os i (dispatched evs ds ! i)"
  using assms
proof (induction evs arbitrary: ds)
  case (Cons ev evs)
  let ?ds = "ds[nat (fd ev) := drained (revents ev) (ds ! nat (fd ev))]"
  have "\<forall>i < length ?ds. demux_ok os i (?ds ! i)"
    using Cons.prems demux_ok_drained
    by (metis length_list_update nth_list_update_eq nth_list_update_neq)
  from Cons.IH [OF this] show ?case by (simp add: dispatched_def)
qed (simp add: dispatched_def)

lemma dispatch_wf:
  assumes "dispatch os evs ready s = (Inr ready', s')" and "distinct (map fd evs)" and "mux_wf s"
  shows "mux_wf s'"
  using dispatch_result [OF assms(1,2)] assms(3)
  by (auto simp: mux_wf_def ilist_ok_fold_clear dispatched_ok)

lemma dispatch_covered:
  assumes run: "dispatch os evs ready s = (Inr ready', s')" and dist: "distinct (map fd evs)"
    and wf: "mux_wf s" and cov: "covered s"
  shows "covered s'"
  unfolding covered_def
proof (intro allI impI)
  fix i tr assume i: "i < length (demux s')" and busy: "queue_of tr (demux s' ! i) \<noteq> []"
  have s': "demux s' = dispatched evs (demux s)" "ilist s' = fold clear_event evs (ilist s)"
    and fds: "\<forall>ev \<in> set evs. 0 \<le> fd ev \<and> nat (fd ev) < length (demux s)"
    using dispatch_result [OF run dist] by auto
  have iwf: "ilist_wf (ilist s)" using wf by (simp add: mux_wf_def ilist_ok_def)
  show "bit (interest (ilist s') (int i)) (event_bit tr)"
  proof (cases "i \<in> (\<lambda>ev. nat (fd ev)) ` set evs")
    case True
    then obtain ev where ev: "ev \<in> set evs" "i = nat (fd ev)" by blast
    then have fdi: "fd ev = int i" using fds by simp
    have kept: "queue_of tr (demux s ! i) \<noteq> []" "\<not> (tr = WRITE \<and> takes_write (revents ev))"
      "\<not> (tr = READ \<and> takes_read (revents ev))"
      using busy dispatched_event [OF dist fds ev(1)] ev(2)
      unfolding s' by (auto simp: queue_of_drained split: if_splits)
    then have "tr \<noteq> EAGER" by auto
    have "bit (interest (ilist s) (int i)) (event_bit tr)"
      using cov kept(1) i unfolding s' by (simp add: covered_def)
    moreover have "interest (ilist s') (int i) = interest_after (revents ev) (interest (ilist s) (int i))"
      unfolding s' using ilist.look_fold_clr [OF iwf dist ev(1)] fdi by simp
    moreover have "\<not> has_error (revents ev)" "\<not> bit (revents ev) (event_bit tr)"
      using kept \<open>tr \<noteq> EAGER\<close> by (cases tr; auto simp: has_error_def takes_write_def takes_read_def)+
    moreover have "event_bit tr < 16" by (cases tr) auto
    ultimately show ?thesis
      unfolding interest_after_def revents_masks by (simp add: bit_and_iff bit_not_iff)
  next
    case False
    moreover from this have "int i \<notin> fd ` set evs" by force
    ultimately show ?thesis
      using busy i cov dispatched_other [OF False, of "demux s"]
        ilist.look_fold_clr_other [OF iwf, of "int i" evs]
      unfolding s' by (simp add: covered_def)
  qed
qed

text \<open>The tasks that become ready are distinct operations, all of them started.\<close>

lemma queues_disjoint:
  assumes "mux_wf s" and "i < length (demux s)" and "j < length (demux s)"
    and "t \<in> set (queue_of tr (demux s ! i))" and "t \<in> set (queue_of tr' (demux s ! j))"
  shows "i = j \<and> tr = tr'"
  using assms unfolding mux_wf_def demux_ok_def by (metis option.inject)

lemma set_ready_of:
  "t \<in> set (ready_of revs d) \<Longrightarrow> \<exists>tr. t \<in> set (queue_of tr d)"
proof -
  assume "t \<in> set (ready_of revs d)"
  then have "t \<in> set (queue_of WRITE d) \<or> t \<in> set (queue_of READ d)"
    by (auto simp: ready_of_def split: if_splits)
  then show ?thesis by blast
qed

lemma distinct_ready_of:
  assumes "mux_wf s" and "i < length (demux s)"
  shows "distinct (ready_of revs (demux s ! i))"
proof -
  have "distinct (queue_of tr (demux s ! i))" for tr
    using assms by (auto simp: mux_wf_def demux_ok_def)
  from this [of READ] this [of WRITE] show ?thesis
    using queues_disjoint [OF assms(1,2,2), of _ READ WRITE] by (auto simp: ready_of_def)
qed

lemma ready_distinct:
  assumes "mux_wf s" and "distinct (map fd evs)"
    and "\<forall>ev \<in> set evs. 0 \<le> fd ev \<and> nat (fd ev) < length (demux s)"
  shows "distinct (concat (map (\<lambda>ev. ready_of (revents ev) (demux s ! nat (fd ev))) evs))"
  using assms(2,3)
proof (induction evs)
  case (Cons ev evs)
  have "set (ready_of (revents ev) (demux s ! nat (fd ev))) \<inter>
      set (ready_of (revents ev') (demux s ! nat (fd ev'))) = {}" if "ev' \<in> set evs" for ev'
  proof -
    have "nat (fd ev) \<noteq> nat (fd ev')" using Cons.prems that by (auto simp: eq_nat_nat_iff)
    then show ?thesis
      using queues_disjoint [OF assms(1)] set_ready_of Cons.prems(2) that
      by (metis disjoint_iff list.set_intros(1,2))
  qed
  with Cons distinct_ready_of [OF assms(1)] show ?case by fastforce
qed simp

lemma ready_started:
  assumes "mux_wf s" and "\<forall>ev \<in> set evs. 0 \<le> fd ev \<and> nat (fd ev) < length (demux s)"
    and "t \<in> set (concat (map (\<lambda>ev. ready_of (revents ev) (demux s ! nat (fd ev))) evs))"
  shows "\<exists>op. ops s t = Some op \<and> op_armed op"
proof -
  from assms(3) obtain ev where ev: "ev \<in> set evs"
    "t \<in> set (ready_of (revents ev) (demux s ! nat (fd ev)))" by auto
  with assms(2) have "demux_ok (ops s) (nat (fd ev)) (demux s ! nat (fd ev))"
    using assms(1) by (auto simp: mux_wf_def)
  with set_ready_of [OF ev(2)] show ?thesis by (auto simp: demux_ok_def)
qed

section \<open>Running the ready tasks\<close>

text \<open>The handler of an operation returns normally in every environment.\<close>

definition returns :: "('v, 'w) op_state \<Rightarrow> bool" where
  "returns self \<longleftrightarrow> (\<forall>e. \<exists>r e'. op_func self e = Some (Inr r, e'))"

text \<open>
  What a receiver may do: complete further operations, but not destroy or restart an operation that
  is pending. A quiet receiver completes nothing itself.
\<close>

definition receivers_ok :: "('v, 'w) receivers \<Rightarrow> bool" where
  "receivers_ok rcv \<longleftrightarrow>
     (\<forall>t c s. (\<exists>l. completions (rcv t c s) = completions s @ l) \<and>
        (\<forall>t' op. t' \<noteq> t \<longrightarrow> ops s t' = Some op \<longrightarrow> op_armed op \<longrightarrow> ops (rcv t c s) t' = Some op))"

definition quiet :: "('v, 'w) receivers \<Rightarrow> bool" where
  "quiet rcv \<longleftrightarrow> (\<forall>t c s. completions (rcv t c s) = completions s)"

lemma delivered_completions:
  assumes "receivers_ok rcv"
  shows "\<exists>l. completions (deliver rcv t c s) = completions s @ (t, c) # l"
proof -
  have "\<exists>l. completions (rcv t c (s\<lparr>completions := completions s @ [(t, c)]\<rparr>)) =
      completions (s\<lparr>completions := completions s @ [(t, c)]\<rparr>) @ l"
    using assms unfolding receivers_ok_def by blast
  then show ?thesis by (auto simp: deliver_def)
qed

lemma complete_delivers:
  assumes "ops s t = Some self" and "returns self"
  shows "\<exists>c e. complete rcv t s = Some (Inr (), deliver rcv t c (s\<lparr>sys_env := e\<rparr>))"
proof (cases "failed (get_error (op_socket self) (sys_env s))")
  case True
  then show ?thesis
    using assms(1) by (auto simp: complete_def Let_def
        intro!: exI [of _ "Set_error (get_error (op_socket self) (sys_env s))"] exI [of _ "sys_env s"])
next
  case False
  obtain r e where "op_func self (sys_env s) = Some (Inr r, e)"
    using assms(2) unfolding returns_def by blast
  with False assms(1) show ?thesis
    by (cases r) (auto simp: complete_def Let_def)
qed

lemma run_queue_completes:
  assumes "receivers_ok rcv" and "distinct ts"
    and "\<forall>t \<in> set ts. \<exists>op. ops s t = Some op \<and> op_armed op \<and> returns op"
  shows "\<exists>s' l. run_queue rcv ts s = Some (Inr (), s') \<and> completions s' = completions s @ l \<and>
    subseq ts (map fst l) \<and> (quiet rcv \<longrightarrow> map fst l = ts)"
  using assms(2,3)
proof (induction ts arbitrary: s)
  case (Cons t ts)
  then obtain self where self: "ops s t = Some self" "op_armed self" "returns self" by auto
  from complete_delivers [OF self(1,3)] obtain c e where
    c: "complete rcv t s = Some (Inr (), deliver rcv t c (s\<lparr>sys_env := e\<rparr>))" by blast
  let ?s = "deliver rcv t c (s\<lparr>sys_env := e\<rparr>)"
  obtain l1 where l1: "completions ?s = completions s @ (t, c) # l1"
    using delivered_completions [OF assms(1), of t c "s\<lparr>sys_env := e\<rparr>"] by auto
  have keep: "\<forall>t' \<in> set ts. \<exists>op. ops ?s t' = Some op \<and> op_armed op \<and> returns op"
  proof
    fix t' assume t': "t' \<in> set ts"
    then have "t' \<noteq> t" using Cons.prems(1) by auto
    moreover obtain op where op: "ops s t' = Some op" "op_armed op" "returns op"
      using Cons.prems(2) t' by auto
    moreover have "ops ?s t' = Some op"
      using assms(1) op \<open>t' \<noteq> t\<close> unfolding receivers_ok_def deliver_def by simp
    ultimately show "\<exists>op. ops ?s t' = Some op \<and> op_armed op \<and> returns op" by blast
  qed
  from Cons.IH [OF _ keep] Cons.prems(1) obtain s' l where
    IH: "run_queue rcv ts ?s = Some (Inr (), s')" "completions s' = completions ?s @ l"
    "subseq ts (map fst l)" "quiet rcv \<longrightarrow> map fst l = ts" by auto
  have "run_queue rcv (t # ts) s = Some (Inr (), s')"
    using self c IH(1) by simp
  moreover have "completions s' = completions s @ ((t, c) # l1 @ l)"
    using IH(2) l1 by simp
  moreover have "subseq (t # ts) (map fst ((t, c) # l1 @ l))"
    using IH(3) by (simp add: list_emb_append2)
  moreover have "quiet rcv \<longrightarrow> map fst ((t, c) # l1 @ l) = t # ts"
    using IH(4) l1 by (auto simp: quiet_def deliver_def)
  ultimately show ?case by (intro exI [of _ s'] exI [of _ "(t, c) # l1 @ l"] conjI)
qed simp

lemma run_queue_keeps:
  assumes rcv: "\<And>t c s. P s \<Longrightarrow> P (rcv t c s)"
    and frame: "\<And>s e l. P s \<Longrightarrow> P (s\<lparr>sys_env := e, completions := l\<rparr>)"
    and "P s" and "run_queue rcv ts s = Some (res, s')"
  shows "P s'"
  using assms(3,4)
proof (induction ts arbitrary: s)
  case (Cons t ts)
  have env: "P (s\<lparr>sys_env := e\<rparr>)" for e using frame [OF Cons.prems(1), where e = e and l = "completions s"] by simp
  have deliver: "P (deliver rcv t c (s\<lparr>sys_env := e\<rparr>))" for c e
    unfolding deliver_def using rcv frame [OF Cons.prems(1)] by simp
  have "P s1" if "complete rcv t s = Some (r, s1)" for r s1
    using that Cons.prems(1) env deliver deliver [of _ "sys_env s"]
    by (auto simp: complete_def Let_def split: option.splits if_splits sum.splits prod.splits)
  with Cons show ?case
    by (auto simp: and_then_def split: option.splits sum.splits if_splits prod.splits)
qed simp

section \<open>What poll reports\<close>

text \<open>\<^verbatim>\<open>poll\<close> writes the \<^verbatim>\<open>revents\<close> of its array and leaves the descriptors.\<close>

definition poll_keeps_fds :: "'w os \<Rightarrow> bool" where
  "poll_keeps_fds os \<longleftrightarrow> (\<forall>l d w. map fd (fst (snd (snd (os_poll os l d w)))) = map fd l)"

lemma poll_attempt_frame:
  assumes "poll_keeps_fds os"
  shows "poll_attempt os s = Inr s' \<Longrightarrow>
      map fd (ps_list s') = map fd (ps_list s) \<and> same_objects (ps_env s) (ps_env s')"
    and "poll_attempt os s = Inl (res, e) \<Longrightarrow>
      (\<forall>l. res = Inr l \<longrightarrow> map fd l = map fd (ps_list s)) \<and> same_objects (ps_env s) e"
proof -
  have "map fd (fst (snd (snd (os_poll os (ps_list s) (ps_duration s) (world (ps_env s)))))) =
      map fd (ps_list s)"
    using assms by (simp add: poll_keeps_fds_def)
  then show "poll_attempt os s = Inr s' \<Longrightarrow>
      map fd (ps_list s') = map fd (ps_list s) \<and> same_objects (ps_env s) (ps_env s')"
    "poll_attempt os s = Inl (res, e) \<Longrightarrow>
      (\<forall>l. res = Inr l \<longrightarrow> map fd l = map fd (ps_list s)) \<and> same_objects (ps_env s) e"
    by (auto simp: poll_attempt_def handle_poll_error_def throw_system_error_def Let_def same_objects_def
        split: prod.splits sum.splits if_splits)
qed

lemma poll_rounds_frame:
  assumes "poll_keeps_fds os" and "poll_rounds os n s0 = Some s"
  shows "map fd (ps_list s) = map fd (ps_list s0) \<and> same_objects (ps_env s0) (ps_env s)"
  using assms(2)
proof (induction n arbitrary: s)
  case (Suc n)
  from Suc.prems obtain s1 where s1: "poll_rounds os n s0 = Some s1" "poll_attempt os s1 = Inr s"
    by (rule poll_rounds_SucE)
  from Suc.IH [OF s1(1)] poll_attempt_frame(1) [OF assms(1) s1(2)] show ?case
    by (auto intro: same_objects_trans)
qed simp

lemma distinct_map_filter': "distinct (map f xs) \<Longrightarrow> distinct (map f (filter P xs))"
  by (induction xs) auto

lemma poll_call_frame:
  assumes "poll_keeps_fds os" and "poll_call os l d e = Some (Inr evs, e')"
  shows "fd ` set evs \<subseteq> fd ` set l" and "distinct (map fd l) \<Longrightarrow> distinct (map fd evs)"
    and "same_objects e e'"
proof -
  have "fd ` set evs \<subseteq> fd ` set l \<and> (distinct (map fd l) \<longrightarrow> distinct (map fd evs)) \<and> same_objects e e'"
  proof (cases "l = []")
    case True
    with assms(2) show ?thesis by (simp add: poll_call_def)
  next
    case False
    with assms(2) obtain l' where l': "evs = filter (\<lambda>event. revents event \<noteq> 0) l'"
      "iterate (poll_attempt os) (poll_start os l d e) = Some (Inr l', e')"
      by (auto simp: poll_call_def map_sum_iff)
    then obtain n s where s: "poll_rounds os n (poll_start os l d e) = Some s"
      "poll_attempt os s = Inl (Inr l', e')" by (auto simp: iterate_iff)
    have start: "ps_list (poll_start os l d e) = l" "same_objects e (ps_env (poll_start os l d e))"
      by (auto simp: poll_start_def same_objects_def split: prod.splits)
    from poll_attempt_frame(2) [OF assms(1) s(2)] poll_rounds_frame [OF assms(1) s(1)] start
    have fds: "map fd l' = map fd l" and same: "same_objects e e'"
      by (auto intro: same_objects_trans)
    have "fd ` set evs \<subseteq> set (map fd l')" using l'(1) by auto
    moreover have "distinct (map fd l') \<Longrightarrow> distinct (map fd evs)"
      using l'(1) by (simp add: distinct_map_filter')
    ultimately show ?thesis using fds same by simp
  qed
  then show "fd ` set evs \<subseteq> fd ` set l" "distinct (map fd l) \<Longrightarrow> distinct (map fd evs)"
    "same_objects e e'" by blast+
qed

text \<open>The events of a wait are for distinct descriptors that have a demultiplexer.\<close>

lemma polled_events:
  assumes "mux_wf s" and "poll_keeps_fds os"
    and "poll_call os (copy_active (ilist s)) d e = Some (Inr evs, e')"
  shows "distinct (map fd evs)" and "\<forall>ev \<in> set evs. 0 \<le> fd ev \<and> nat (fd ev) < length (demux s)"
proof -
  have wf: "ilist_ok (ilist s) (length (demux s))" using assms(1) by (simp add: mux_wf_def)
  then show "distinct (map fd evs)"
    using poll_call_frame(2) [OF assms(2,3)] copy_active_distinct by (simp add: ilist_ok_def)
  have "fd ` set evs \<subseteq> fd ` set (ilist s)"
    using poll_call_frame(1) [OF assms(2,3)] by (auto simp: copy_active_def)
  then show "\<forall>ev \<in> set evs. 0 \<le> fd ev \<and> nat (fd ev) < length (demux s)"
    using wf by (auto simp: ilist_ok_def image_subset_iff)
qed

text \<open>
  The critical section returns when every descriptor with an error has a socket and its error can be
  fetched.
\<close>

definition errors_fetched :: "'w os \<Rightarrow> bool" where
  "errors_fetched os \<longleftrightarrow> (\<forall>h e. fst (set_socket_error os h e) = Inr ())"

lemma dispatch_succeeds:
  assumes "errors_fetched os"
    and "\<forall>ev \<in> set evs. 0 \<le> fd ev \<and> nat (fd ev) < length (demux s)"
    and "\<forall>ev \<in> set evs. has_error (revents ev) \<longrightarrow> demux_socket (demux s ! nat (fd ev)) \<noteq> None"
  shows "\<exists>ready' s'. dispatch os evs ready s = (Inr ready', s')"
  using assms(2,3)
proof (induction evs arbitrary: ready s)
  case (Cons ev evs)
  let ?i = "nat (fd ev)"
  let ?s = "s\<lparr>ilist := clear_event ev (ilist s)\<rparr>"
  have "\<exists>r s1. prepare_handles os (revents ev) ?i ready ?s = (Inr r, s1)"
  proof (cases "has_error (revents ev)")
    case True
    then obtain h where "demux_socket (demux ?s ! ?i) = Some h" using Cons.prems(2) by auto
    moreover obtain e where "set_socket_error os h (sys_env ?s) = (Inr (), e)"
      using assms(1) unfolding errors_fetched_def by (metis prod.collapse)
    ultimately show ?thesis using prepare_handles_error [OF True, of ?s ?i h os ready] by simp
  qed (use prepare_handles_no_error in blast)
  then obtain r s1 where p: "prepare_handles os (revents ev) ?i ready ?s = (Inr r, s1)" by blast
  from prepare_handles_result(2) [OF p]
  have s1: "demux s1 = (demux s)[?i := drained (revents ev) (demux s ! ?i)]" by auto
  have "demux_socket (demux s1 ! j) = demux_socket (demux s ! j)" if "j < length (demux s)" for j
    using that unfolding s1 by (cases "j = ?i") (auto simp: queue_of_drained)
  with Cons.prems have "\<exists>ready' s'. dispatch os evs r s1 = (Inr ready', s')"
    by (intro Cons.IH) (auto simp: s1)
  with p Cons.prems(1) show ?case by (auto simp: Let_def)
qed simp

lemma wait_for_runs:
  assumes "poll_call os (copy_active (ilist s)) (to_int32 interval) (sys_env s) = Some (Inr evs, e)"
    and "dispatch os evs [] (s\<lparr>sys_env := e\<rparr>) = (Inr ready, s1)"
  shows "wait_for os rcv interval s =
    and_then (run_queue rcv ready s1) (\<lambda>_ s'. Some (Inr (length evs), s'))"
  using assms by (simp add: wait_for_def)

lemma mux_wf_frame:
  "mux_wf (s\<lparr>sys_env := e\<rparr>) = mux_wf s" "covered (s\<lparr>sys_env := e\<rparr>) = covered s"
  "mux_wf (s\<lparr>sys_env := e, completions := l\<rparr>) = mux_wf s"
  "covered (s\<lparr>sys_env := e, completions := l\<rparr>) = covered s"
  by (simp_all add: mux_wf_def covered_def)

section \<open>Examples\<close>

text \<open>Socket 0 holds descriptor 3; the handler of the operations returns 42.\<close>

definition example_env :: "nat env" where
  "example_env = (blank_env 0)\<lparr>handles := (\<lambda>_. default_handle)(0 := \<lparr>hnd_socket = 3, hnd_error = 0\<rparr>)\<rparr>"

definition example_sender :: "execution_trigger \<Rightarrow> (nat, nat) sender" where
  "example_sender tr = set_sender 0 tr (\<lambda>e. Some (Inr (Some 42), e))"

definition no_reaction :: "('v, 'w) receivers" where
  "no_reaction = (\<lambda>t c s. s)"

lemma example_facts:
  "sender_fd (example_sender tr) (initial_sys example_env) = 3"
  "get_error (snd_socket (example_sender tr)) (sys_env (initial_sys example_env)) = 0"
  "snd_trigger (example_sender tr) = tr"
  "ops (initial_sys example_env) t = None" "demux (initial_sys example_env) = []"
  "ilist (initial_sys example_env) = []"
  by (simp_all add: example_sender_def set_sender_def native_fd_def to_native_def example_env_def
      initial_sys_def get_error_def)

lemma no_reaction_ok: "receivers_ok no_reaction" "quiet no_reaction"
  by (simp_all add: receivers_ok_def quiet_def no_reaction_def)

section \<open>Properties\<close>

text \<open>
  (C6) Connecting an operation and starting it, with nothing in between, loses no wake-up. On a socket
  without an error and a usable descriptor, \<^verbatim>\<open>connect\<close> succeeds and leaves all queues as they are, and
  \<^verbatim>\<open>start\<close> queues the operation behind those already waiting on its queue, and changes no other queue. Both
  keep the representation invariant and the invariant that every queue with a task has its event in the
  interest list, and the next call of \<^verbatim>\<open>poll\<close> asks for the event of the operation on its descriptor.
\<close>

theorem connect_start_no_lost_wakeup:
  assumes "mux_wf s" and "covered s" and "ops s t = None" and "registers sender s"
    and "usable_fd (sender_fd sender s)"
  shows "\<exists>s1 s2. connect sender t s = (Inr (), s1) \<and> start rcv t s1 = Some (Inr (), s2) \<and>
    mux_wf s1 \<and> covered s1 \<and> mux_wf s2 \<and> covered s2 \<and>
    (\<forall>tr j. queue_at tr j s1 = queue_at tr j s) \<and>
    joins_queue (snd_trigger sender) (nat (sender_fd sender s)) t s s2 \<and>
    asks_for (snd_trigger sender) (sender_fd sender s) s2"
proof -
  let ?f = "sender_fd sender s" and ?tr = "snd_trigger sender"
  let ?self = "\<lparr>op_func = snd_func sender, op_socket = snd_socket sender, op_demux = Some (nat ?f),
      op_trigger = ?tr, op_armed = False\<rparr>"
  have len: "length (demux s) \<le> 2 ^ 31" and f: "0 \<le> ?f" and iwf: "ilist_wf (ilist s)"
    using assms(1,5) by (auto simp: mux_wf_def usable_fd_def ilist_ok_def)
  note con = connect_registering [OF assms(4,5) len, of t]
  obtain s1 where s1: "connect sender t s = (Inr (), s1)" using con by simp
  have grown: "demux s1 = demux s @ replicate (nat ?f + 1 - length (demux s)) empty_demultiplexer"
    using con s1 by auto
  have wf1: "mux_wf s1" using connect_wf [OF assms(1,3), of sender] assms(5) s1 by simp
  have cov1: "covered s1" using connect_covered [OF assms(1,2), of sender t] assms(5) s1 by simp
  have st: "startable t ?self (nat ?f) s1"
    using con s1 assms(4) by (auto simp: startable_def)
  have bits: "bit (interest (ilist s1) ?f) (event_bit ?tr)"
    using con s1 ilist.look_add [OF iwf] assms(4)
    by (cases ?tr) (auto simp: make_poll_event_bits bit_or_iff)
  obtain s2 where s2: "start rcv t s1 = Some (Inr (), s2)" "mux_wf s2"
    using start_wf [OF wf1 st] by blast
  have q: "demux s2 = (demux s1)[nat ?f := enqueue ?tr t (snd_socket sender) (demux s1 ! nat ?f)]"
    "ilist s2 = ilist s1"
    using s2(1) start_queues [OF st, of rcv] by auto
  have i: "nat ?f < length (demux s1)" using wf1 st by (auto simp: mux_wf_def startable_def)
  have "covered s2" using start_covered [OF cov1 st _ s2(1)] bits f by simp
  moreover have "asks_for ?tr ?f s2"
    using ilist.registered_is_polled bits wf1 q(2) by (auto simp: asks_for_def mux_wf_def ilist_ok_def)
  moreover have "joins_queue ?tr (nat ?f) t s s2"
    by (rule joins_queue_enqueue [OF grown q(1) i]) (use assms(4) in simp)
  ultimately show ?thesis using s1 s2 wf1 cov1 queue_at_grown [OF grown] by blast
qed

theorem connect_start_no_lost_wakeup_witness:
  "\<exists>s1 s2. connect (example_sender READ) 7 (initial_sys example_env) = (Inr (), s1) \<and>
     start no_reaction 7 s1 = Some (Inr (), s2) \<and> mux_wf s2 \<and> covered s2 \<and>
     joins_queue READ 3 7 (initial_sys example_env) s2 \<and> asks_for READ 3 s2"
  using connect_start_no_lost_wakeup [OF initial_sys_ok, of example_env 7 "example_sender READ" no_reaction]
  by (auto simp: example_facts usable_fd_def failed_def)

text \<open>
  Descriptors \<^verbatim>\<open>connect\<close> refuses. An invalid socket (-1) makes the wrapped index \<^verbatim>\<open>size_t(-1) + 1\<close>
  zero, so nothing is resized and \<^verbatim>\<open>at\<close> throws \<^verbatim>\<open>std::out_of_range\<close>; any other negative descriptor
  asks for a deque beyond its maximal size and throws \<^verbatim>\<open>std::length_error\<close>. Either way nothing is
  registered and no operation state is made.
\<close>

theorem connect_rejects_negative:
  assumes "mux_wf s" and "registers sender s" and "sender_fd sender s < 0"
    and "- (2 ^ 31) \<le> sender_fd sender s"
  shows "connect sender t s =
    (Inl (if sender_fd sender s = INVALID_SOCKET then Out_of_range else Length_error), s)"
proof -
  have len: "length (demux s) \<le> 2 ^ 31" using assms(1) by (simp add: mux_wf_def)
  have "demux_for (sender_fd sender s) (demux s) =
      (Inl (if sender_fd sender s = INVALID_SOCKET then Out_of_range else Length_error), demux s)"
    using demux_for_invalid_socket [OF len] demux_for_negative [OF assms(4) _ len] assms(3)
    by (auto simp: INVALID_SOCKET_def)
  then show ?thesis
    using assms(2) by (auto simp: connect_def failed_def Let_def)
qed

theorem connect_rejects_negative_witness:
  "connect (example_sender READ) 7 (initial_sys (blank_env (0::nat))) =
     (Inl Out_of_range, initial_sys (blank_env 0))"
  using connect_rejects_negative [OF initial_sys_ok(1), of "example_sender READ" "blank_env 0" 7]
  by (simp add: example_sender_def set_sender_def initial_sys_def blank_env_def native_fd_def
      to_native_def get_error_def default_handle_def failed_def INVALID_SOCKET_def)

text \<open>
  (C13) The critical section of \<^verbatim>\<open>wait_for\<close>, when it returns. The ready queue is, event by event, the
  writers of the descriptor if it became writable and then its readers if it became readable or hung
  up (both after an error), each in the order they were queued; these queues are empty afterwards and
  the reported bits are cleared; every other queue and every other descriptor's interest is as it was;
  no task is completed yet; and both invariants hold again.
\<close>

theorem dispatch_effect:
  assumes "mux_wf s" and "distinct (map fd evs)" and "dispatch os evs [] s = (Inr ready, s')"
  shows "ready = concat (map (\<lambda>ev. ready_of (revents ev) (demux s ! nat (fd ev))) evs) \<and>
    distinct ready \<and>
    (\<forall>ev \<in> set evs. demux s' ! nat (fd ev) = drained (revents ev) (demux s ! nat (fd ev)) \<and>
       interest (ilist s') (fd ev) = interest_after (revents ev) (interest (ilist s) (fd ev))) \<and>
    (\<forall>i. int i \<notin> fd ` set evs \<longrightarrow> demux s' ! i = demux s ! i \<and>
       interest (ilist s') (int i) = interest (ilist s) (int i)) \<and>
    completions s' = completions s \<and> ops s' = ops s \<and>
    mux_wf s' \<and> (covered s \<longrightarrow> covered s')"
proof -
  note res = dispatch_result [OF assms(3,2)]
  have fds: "\<forall>ev \<in> set evs. 0 \<le> fd ev \<and> nat (fd ev) < length (demux s)" using res by blast
  have iwf: "ilist_wf (ilist s)" using assms(1) by (simp add: mux_wf_def ilist_ok_def)
  have "i \<notin> (\<lambda>ev. nat (fd ev)) ` set evs" if "int i \<notin> fd ` set evs" for i
    using that fds by force
  then show ?thesis
    using res fds ready_distinct [OF assms(1,2) fds] dispatched_event [OF assms(2) fds]
      ilist.look_fold_clr [OF iwf assms(2)] ilist.look_fold_clr_other [OF iwf] dispatched_other
      dispatch_wf [OF assms(3,2,1)] dispatch_covered [OF assms(3,2,1)]
    by auto
qed

text \<open>A system with a reader waiting on descriptor 3.\<close>

definition reader_waiting :: "(nat, nat) sys" where
  "reader_waiting = (initial_sys example_env)\<lparr>
     demux := replicate 3 empty_demultiplexer @ [\<lparr>read_queue = [7], write_queue = [], demux_socket = Some 0\<rparr>],
     ilist := [\<lparr>fd = 3, events = POLLIN, revents = 0\<rparr>],
     ops := [7 \<mapsto> \<lparr>op_func = (\<lambda>e. Some (Inr (Some 42), e)), op_socket = 0, op_demux = Some 3,
       op_trigger = READ, op_armed = True\<rparr>]\<rparr>"

lemma reader_waiting_3:
  "demux reader_waiting ! 3 = \<lparr>read_queue = [7], write_queue = [], demux_socket = Some 0\<rparr>"
  "i < 3 \<Longrightarrow> demux reader_waiting ! i = empty_demultiplexer"
  "length (demux reader_waiting) = 4" "ilist reader_waiting = [\<lparr>fd = 3, events = POLLIN, revents = 0\<rparr>]"
  by (simp_all add: reader_waiting_def nth_append)

lemma below_four: "i < (4::nat) \<Longrightarrow> i < 3 \<or> i = 3"
  by linarith

lemma reader_waiting_ok: "mux_wf reader_waiting" "covered reader_waiting"
proof -
  let ?d = "demux reader_waiting ! 3"
  have "demux_ok (ops reader_waiting) 3 ?d"
    unfolding demux_ok_def
  proof
    fix tr show "distinct (queue_of tr ?d) \<and> (queue_of tr ?d \<noteq> [] \<longrightarrow> demux_socket ?d \<noteq> None) \<and>
      (\<forall>t \<in> set (queue_of tr ?d). \<exists>op. ops reader_waiting t = Some op \<and> op_armed op \<and>
         op_trigger op = tr \<and> op_demux op = Some 3)"
      unfolding reader_waiting_3 by (cases tr) (simp_all add: reader_waiting_def)
  qed
  then have "demux_ok (ops reader_waiting) i (demux reader_waiting ! i)" if "i < 4" for i
    using below_four [OF that] reader_waiting_3(2) empty_demultiplexer_ok(1) by metis
  moreover have "op_demux op = Some i \<Longrightarrow> i < 4" if "ops reader_waiting t = Some op" for t op i
    using that by (auto simp: reader_waiting_def split: if_splits)
  ultimately show "mux_wf reader_waiting"
    by (simp add: mux_wf_def reader_waiting_3 ilist_ok_def ilist_wf_def)
  have "bit (interest (ilist reader_waiting) 3) (event_bit tr)" if "queue_of tr ?d \<noteq> []" for tr
    using that unfolding reader_waiting_3 by (cases tr) (simp_all add: bit_poll)
  then have "bit (interest (ilist reader_waiting) (int i)) (event_bit tr)"
    if "i < 4" "queue_of tr (demux reader_waiting ! i) \<noteq> []" for i tr
    using that below_four [OF that(1)] reader_waiting_3(2) empty_demultiplexer_ok(2)
    by (metis of_nat_numeral)
  then show "covered reader_waiting" by (simp add: covered_def reader_waiting_3)
qed

theorem dispatch_effect_witness:
  "\<exists>s'. dispatch (ticking_os (\<lambda>w. False)) [\<lparr>fd = 3, events = POLLIN, revents = POLLIN\<rparr>] [] reader_waiting =
     (Inr [7], s') \<and> read_queue (demux s' ! 3) = [] \<and> interest (ilist s') 3 = 0"
proof -
  let ?os = "ticking_os (\<lambda>w. False)" and ?ev = "\<lparr>fd = 3, events = POLLIN, revents = POLLIN\<rparr>"
  have no_err: "\<not> has_error POLLIN" and takes: "takes_read POLLIN" "\<not> takes_write POLLIN"
    by (simp_all add: has_error_def takes_read_def takes_write_def bit_poll)
  obtain ready s' where d: "dispatch ?os [?ev] [] reader_waiting = (Inr ready, s')"
    using no_err by (auto simp: Let_def reader_waiting_3 prepare_handles_no_error)
  from dispatch_effect [OF reader_waiting_ok(1) _ this] have
    "ready = ready_of POLLIN (demux reader_waiting ! 3)"
    "demux s' ! 3 = drained POLLIN (demux reader_waiting ! 3)"
    "interest (ilist s') 3 = interest_after POLLIN (interest (ilist reader_waiting) 3)"
    by auto
  with d takes no_err show ?thesis
    by (auto simp: reader_waiting_3 ready_of_def drained_def interest_after_def revents_masks)
qed

text \<open>
  (C3) \<^verbatim>\<open>wait_for\<close> completes the ready operations. When \<^verbatim>\<open>poll\<close> returns events, the errors of the sockets
  can be fetched and the handlers return, the wait returns the number of events, and it delivers one
  completion to each operation that the events made ready, in the order of the ready queue; a receiver
  that completes nothing itself makes these the only completions. Receivers may not destroy pending
  operations, and \<^verbatim>\<open>poll\<close> leaves the descriptors of its array alone.
\<close>

theorem wait_completes_ready:
  assumes "mux_wf s" and "receivers_ok rcv" and "poll_keeps_fds os" and "errors_fetched os"
    and "\<forall>op \<in> ran (ops s). returns op"
    and "poll_call os (copy_active (ilist s)) (to_int32 interval) (sys_env s) = Some (Inr evs, e)"
    and "\<And>ev. ev \<in> set evs \<Longrightarrow> has_error (revents ev) \<Longrightarrow> demux_socket (demux s ! nat (fd ev)) \<noteq> None"
  shows "\<exists>s' delivered. wait_for os rcv interval s = Some (Inr (length evs), s') \<and>
    completions s' = completions s @ delivered \<and>
    subseq (concat (map (\<lambda>ev. ready_of (revents ev) (demux s ! nat (fd ev))) evs)) (map fst delivered) \<and>
    (quiet rcv \<longrightarrow>
      map fst delivered = concat (map (\<lambda>ev. ready_of (revents ev) (demux s ! nat (fd ev))) evs))"
proof -
  let ?s = "s\<lparr>sys_env := e\<rparr>"
  let ?ready = "concat (map (\<lambda>ev. ready_of (revents ev) (demux s ! nat (fd ev))) evs)"
  note evs = polled_events [OF assms(1,3,6)]
  obtain ready s1 where d: "dispatch os evs [] ?s = (Inr ready, s1)"
    using dispatch_succeeds [OF assms(4), of evs ?s "[]"] evs(2) assms(7) by auto
  from dispatch_result [OF d evs(1)] have ready: "ready = ?ready"
    and s1: "ops s1 = ops s" "completions s1 = completions s" by auto
  have "\<forall>t \<in> set ?ready. \<exists>op. ops s1 t = Some op \<and> op_armed op \<and> returns op"
    using ready_started [OF assms(1) evs(2)] assms(5) s1(1) by (metis ranI)
  from run_queue_completes [OF assms(2) ready_distinct [OF assms(1) evs] this] obtain s' l where
    "run_queue rcv ?ready s1 = Some (Inr (), s')" "completions s' = completions s @ l"
    "subseq ?ready (map fst l)" "quiet rcv \<longrightarrow> map fst l = ?ready" using s1(2) by auto
  with wait_for_runs [OF assms(6) d, of rcv] ready show ?thesis
    by (intro exI [of _ s'] exI [of _ l]) simp
qed

lemma ticking_kernel:
  "poll_keeps_fds (ticking_os intr)" "errors_fetched (ticking_os intr)"
  by (auto simp: poll_keeps_fds_def errors_fetched_def ticking_os_def set_socket_error_def
      sync_getsockopt_def run_buffer_sys_def subspan_def comp_def)

lemma ticking_poll_once:
  assumes "\<not> intr (world e)" and "l \<noteq> []"
  shows "\<exists>e'. poll_call (ticking_os intr) l d e =
    Some (Inr (filter (\<lambda>p. revents p \<noteq> 0) (map (\<lambda>p. p\<lparr>revents := events p\<rparr>) l)), e')"
proof -
  let ?s = "poll_start (ticking_os intr) l d e"
  obtain e' where "poll_attempt (ticking_os intr) ?s =
      Inl (Inr (map (\<lambda>p. p\<lparr>revents := events p\<rparr>) l), e')"
    using assms(1) by (auto simp: poll_start_def poll_attempt_def ticking_os_def Let_def)
  then have "iterate (poll_attempt (ticking_os intr)) ?s =
      Some (Inr (map (\<lambda>p. p\<lparr>revents := events p\<rparr>) l), e')"
    using iterate_ends [of "poll_attempt (ticking_os intr)" 0 ?s] by simp
  with assms(2) show ?thesis by (simp add: poll_call_def)
qed

lemma reader_waiting_poll:
  "\<exists>e. poll_call (ticking_os (\<lambda>w. False)) (copy_active (ilist reader_waiting)) (to_int32 100)
     (sys_env reader_waiting) = Some (Inr [\<lparr>fd = 3, events = POLLIN, revents = POLLIN\<rparr>], e)"
proof -
  have nz: "POLLIN \<noteq> 0" by (simp add: POLLIN_def)
  then have active: "copy_active (ilist reader_waiting) = [\<lparr>fd = 3, events = POLLIN, revents = 0\<rparr>]"
    by (simp add: reader_waiting_3 copy_active_def)
  show ?thesis
    unfolding active
    using nz ticking_poll_once [of "\<lambda>w. False" "sys_env reader_waiting"
        "[\<lparr>fd = 3, events = POLLIN, revents = 0\<rparr>]" "to_int32 100"] by simp
qed

lemma reader_waiting_ops: "\<forall>op \<in> ran (ops reader_waiting). returns op"
  by (simp add: reader_waiting_def returns_def)

lemma pollin_event: "\<not> has_error POLLIN" "takes_read POLLIN" "\<not> takes_write POLLIN"
  by (simp_all add: has_error_def takes_read_def takes_write_def bit_poll)

lemma reader_waiting_ready:
  "concat (map (\<lambda>ev. ready_of (revents ev) (demux reader_waiting ! nat (fd ev)))
     [\<lparr>fd = 3, events = POLLIN, revents = POLLIN\<rparr>]) = [7]"
  by (simp add: ready_of_def reader_waiting_3 pollin_event)

theorem wait_completes_ready_witness:
  "\<exists>s'. wait_for (ticking_os (\<lambda>w. False)) no_reaction 100 reader_waiting = Some (Inr 1, s') \<and>
     map fst (completions s') = [7]"
proof -
  obtain e where p: "poll_call (ticking_os (\<lambda>w. False)) (copy_active (ilist reader_waiting)) (to_int32 100)
      (sys_env reader_waiting) = Some (Inr [\<lparr>fd = 3, events = POLLIN, revents = POLLIN\<rparr>], e)"
    using reader_waiting_poll by blast
  have "completions reader_waiting = []" by (simp add: reader_waiting_def initial_sys_def)
  then show ?thesis
    using wait_completes_ready [OF reader_waiting_ok(1) no_reaction_ok(1) ticking_kernel
        reader_waiting_ops p, unfolded reader_waiting_ready] no_reaction_ok(2)
    by (auto simp: pollin_event)
qed

text \<open>
  (C14) A wait that returns keeps both invariants: the representation invariant, and that every queue
  that holds a task has its event in the interest list. The receivers are assumed to keep them, which
  connecting and starting further operations does.
\<close>

theorem wait_keeps_invariants:
  assumes "mux_wf s" and "covered s" and "poll_keeps_fds os"
    and "\<And>t c s. mux_wf s \<and> covered s \<Longrightarrow> mux_wf (rcv t c s) \<and> covered (rcv t c s)"
    and "wait_for os rcv interval s = Some (Inr n, s')"
  shows "mux_wf s' \<and> covered s'"
proof -
  from assms(5) obtain evs e ready s1 where
    p: "poll_call os (copy_active (ilist s)) (to_int32 interval) (sys_env s) = Some (Inr evs, e)"
    and d: "dispatch os evs [] (s\<lparr>sys_env := e\<rparr>) = (Inr ready, s1)"
    and r: "run_queue rcv ready s1 = Some (Inr (), s')"
    by (auto simp: wait_for_def and_then_Some_Inr_iff)
  note evs = polled_events [OF assms(1,3) p]
  have "mux_wf s1 \<and> covered s1"
    using dispatch_wf [OF d evs(1)] dispatch_covered [OF d evs(1)] assms(1,2) by (simp add: mux_wf_frame)
  from run_queue_keeps [where P = "\<lambda>s. mux_wf s \<and> covered s", OF assms(4) _ this r]
  show ?thesis by (simp add: mux_wf_frame)
qed

lemma reader_waiting_wait:
  "\<exists>s'. wait_for (ticking_os (\<lambda>w. False)) no_reaction 100 reader_waiting = Some (Inr 1, s')"
proof -
  let ?os = "ticking_os (\<lambda>w. False)" and ?ev = "\<lparr>fd = 3, events = POLLIN, revents = POLLIN\<rparr>"
  obtain e where p: "poll_call ?os (copy_active (ilist reader_waiting)) (to_int32 100)
      (sys_env reader_waiting) = Some (Inr [?ev], e)"
    using reader_waiting_poll by blast
  obtain s1 where d: "dispatch ?os [?ev] [] (reader_waiting\<lparr>sys_env := e\<rparr>) = (Inr [7], s1)"
    and "ops s1 = ops reader_waiting"
    using pollin_event by (simp add: Let_def reader_waiting_3 prepare_handles_no_error ready_of_def)
  moreover from this have "\<forall>t \<in> set [7]. \<exists>op. ops s1 t = Some op \<and> op_armed op \<and> returns op"
    by (simp add: reader_waiting_def returns_def)
  ultimately obtain s' where "run_queue no_reaction [7] s1 = Some (Inr (), s')"
    using run_queue_completes [OF no_reaction_ok(1), of "[7]" s1] by auto
  with wait_for_runs [OF p d, of no_reaction] show ?thesis by simp
qed

theorem wait_keeps_invariants_witness:
  "\<exists>s'. wait_for (ticking_os (\<lambda>w. False)) no_reaction 100 reader_waiting = Some (Inr 1, s') \<and>
     mux_wf s' \<and> covered s'"
proof -
  obtain s' where w: "wait_for (ticking_os (\<lambda>w. False)) no_reaction 100 reader_waiting = Some (Inr 1, s')"
    using reader_waiting_wait by blast
  from wait_keeps_invariants [OF reader_waiting_ok ticking_kernel(1) _ w] w show ?thesis
    by (simp add: no_reaction_def)
qed

text \<open>Clearing an event again changes nothing more.\<close>

lemma lower_bound_keys:
  fixes list list' :: "pollfd list"
  assumes "ilist_wf list" and "map fd list' = map fd list"
  shows "lower_bound fd v list' = lower_bound fd v list"
proof -
  have keys: "lower_bound fd v l = length (takeWhile (\<lambda>k. k < v) (map fd l))"
    if "sorted (map fd l)" for l :: "pollfd list"
    unfolding lower_bound_takeWhile [OF that] by (simp add: takeWhile_map comp_def)
  have "sorted (map fd list)" using assms(1) by (simp add: ilist_wf_def strict_sorted_imp_sorted)
  then show ?thesis using keys [of list] keys [of list'] assms(2) by simp
qed

lemma clear_event_hit:
  assumes "lower_bound fd (fd event) list < length list"
    and "fd (list ! lower_bound fd (fd event) list) = fd event"
  shows "clear_event event list =
    list[lower_bound fd (fd event) list := (list ! lower_bound fd (fd event) list)
      \<lparr>events := interest_after (revents event) (events (list ! lower_bound fd (fd event) list))\<rparr>]"
  using assms by (simp add: clear_event_def interest_after_def Let_def)

lemma clear_event_idem:
  assumes "ilist_wf list"
  shows "clear_event event (clear_event event list) = clear_event event list"
proof -
  let ?pos = "lower_bound fd (fd event) list"
  have pos: "lower_bound fd (fd event) (clear_event event list) = ?pos"
    by (rule lower_bound_keys [OF assms fds_clear_event])
  have "?pos \<le> length list"
    using search_splits [OF assms, of "fd event"] by (metis le_add1 length_append)
  then consider "?pos = length list" | "?pos < length list" "fd (list ! ?pos) \<noteq> fd event"
    | "?pos < length list" "fd (list ! ?pos) = fd event" by fastforce
  then show ?thesis
  proof cases
    case 3
    let ?p = "(list ! ?pos)\<lparr>events := interest_after (revents event) (events (list ! ?pos))\<rparr>"
    have hit: "clear_event event list = list[?pos := ?p]" by (rule clear_event_hit [OF 3])
    then have "clear_event event (clear_event event list) =
        (list[?pos := ?p])[?pos := ?p\<lparr>events := interest_after (revents event) (events ?p)\<rparr>]"
      using clear_event_hit [of event "clear_event event list"] pos 3 by simp
    then show ?thesis unfolding hit by (simp add: interest_after_def)
  qed (use pos in \<open>simp_all add: clear_event_def Let_def\<close>)
qed

lemma drained_idem: "drained revs (drained revs d) = drained revs d"
  by (simp add: drained_def)

text \<open>
  (C34) A hang-up that is reported without \<^verbatim>\<open>POLLIN\<close> makes the readers ready but leaves the read interest
  registered: the descriptor stays in the list given to \<^verbatim>\<open>poll\<close> although no task waits on it, and
  handling the same report again readies nothing and changes nothing. As a hung-up descriptor is
  reported by every \<^verbatim>\<open>poll\<close>, later waits return at once without progress until someone registers on
  the descriptor again.
\<close>

theorem hangup_leaves_interest:
  assumes "mux_wf s" and "0 \<le> f" and "nat f < length (demux s)" and "bit (interest (ilist s) f) 0"
  shows "\<exists>s'. dispatch os [\<lparr>fd = f, events = m, revents = POLLHUP\<rparr>] [] s =
      (Inr (read_queue (demux s ! nat f)), s') \<and>
    read_queue (demux s' ! nat f) = [] \<and>
    (\<exists>p \<in> set (copy_active (ilist s')). fd p = f \<and> bit (events p) 0) \<and>
    dispatch os [\<lparr>fd = f, events = m, revents = POLLHUP\<rparr>] [] s' = (Inr [], s')"
proof -
  let ?ev = "\<lparr>fd = f, events = m, revents = POLLHUP\<rparr>"
  let ?s' = "s\<lparr>ilist := clear_event ?ev (ilist s),
      demux := (demux s)[nat f := drained POLLHUP (demux s ! nat f)]\<rparr>"
  have hup: "\<not> has_error POLLHUP" "takes_read POLLHUP" "\<not> takes_write POLLHUP"
    by (simp_all add: has_error_def takes_read_def takes_write_def bit_poll)
  have iwf: "ilist_wf (ilist s)" using assms(1) by (simp add: mux_wf_def ilist_ok_def)
  have "bit (interest_after POLLHUP (interest (ilist s) f)) 0"
    unfolding interest_after_def revents_masks
    using hup(1) assms(4) by (simp add: bit_and_iff bit_not_iff bit_poll)
  then have "bit (interest (clear_event ?ev (ilist s)) f) 0"
    by (simp add: interest_clear_event [OF iwf])
  then have "\<exists>p \<in> set (copy_active (ilist ?s')). fd p = f \<and> bit (events p) 0"
    using ilist.registered_is_polled [OF clear_event_wf [OF iwf]] by simp
  moreover have "dispatch os [?ev] [] s = (Inr (read_queue (demux s ! nat f)), ?s')"
    using assms(2,3) hup by (simp add: Let_def prepare_handles_no_error ready_of_def)
  moreover have "dispatch os [?ev] [] ?s' = (Inr [], ?s')"
    using assms(2,3) hup
    by (simp add: Let_def prepare_handles_no_error ready_of_def clear_event_idem [OF iwf] drained_idem)
      (simp add: drained_def)
  moreover have "read_queue (demux ?s' ! nat f) = []" using assms(3) hup by (simp add: drained_def)
  ultimately show ?thesis by blast
qed

theorem hangup_leaves_interest_witness:
  "\<exists>s'. dispatch (ticking_os (\<lambda>w. False)) [\<lparr>fd = 3, events = POLLIN, revents = POLLHUP\<rparr>] [] reader_waiting =
      (Inr [7], s') \<and> read_queue (demux s' ! 3) = [] \<and> (\<exists>p \<in> set (copy_active (ilist s')). fd p = 3)"
proof -
  have "bit (interest (ilist reader_waiting) 3) 0" by (simp add: reader_waiting_3 bit_poll)
  with hangup_leaves_interest [OF reader_waiting_ok(1), of 3 "ticking_os (\<lambda>w. False)" POLLIN]
  show ?thesis by (auto simp: reader_waiting_3)
qed

text \<open>
  (C35) An error event for a descriptor whose first operation is connected but not yet started
  dereferences a null socket pointer: \<^verbatim>\<open>connect\<close> registers the interest, but only \<^verbatim>\<open>start\<close> stores the
  socket in the demultiplexer.
\<close>

theorem error_before_start_is_undefined:
  assumes "mux_wf s" and "registers sender s" and "usable_fd (sender_fd sender s)"
    and "length (demux s) \<le> nat (sender_fd sender s)"
    and "fd ev = sender_fd sender s" and "has_error (revents ev)"
  shows "\<exists>s1 s2. connect sender t s = (Inr (), s1) \<and>
    (\<exists>p \<in> set (copy_active (ilist s1)). fd p = fd ev) \<and>
    dispatch os (ev # evs) ready s1 = (Inl (Undefined ''null socket''), s2)"
proof -
  let ?f = "sender_fd sender s" and ?tr = "snd_trigger sender"
  have len: "length (demux s) \<le> 2 ^ 31" and iwf: "ilist_wf (ilist s)" and f: "0 \<le> ?f"
    using assms(1,3) by (auto simp: mux_wf_def ilist_ok_def usable_fd_def)
  obtain s1 where s1: "connect sender t s = (Inr (), s1)"
    and ds: "demux s1 = demux s @ replicate (nat ?f + 1 - length (demux s)) empty_demultiplexer"
    and il: "ilist s1 = register (make_poll_event ?f ?tr) (ilist s)"
    using connect_registering [OF assms(2,3) len, of t] by auto
  have "bit (interest (ilist s1) ?f) (event_bit ?tr)"
    using il ilist.look_add [OF iwf] assms(2)
    by (cases ?tr) (auto simp: make_poll_event_bits bit_or_iff)
  then have "\<exists>p \<in> set (copy_active (ilist s1)). fd p = fd ev"
    using ilist.registered_is_polled [OF ilist.add_wf [OF iwf]] il assms(5) by fastforce
  moreover have "nat ?f < length (demux s1)" "demux s1 ! nat ?f = empty_demultiplexer"
    using ds assms(4) by (auto simp: nth_append)
  then have "\<exists>s2. dispatch os (ev # evs) ready s1 = (Inl (Undefined ''null socket''), s2)"
    using assms(5,6) f
    by (simp add: Let_def prepare_handles_def revents_masks empty_demultiplexer_def)
  ultimately show ?thesis using s1 by blast
qed

theorem error_before_start_is_undefined_witness:
  "\<exists>s1 s2. connect (example_sender READ) 7 (initial_sys example_env) = (Inr (), s1) \<and>
     dispatch (ticking_os (\<lambda>w. False)) [\<lparr>fd = 3, events = POLLIN, revents = POLLERR\<rparr>] [] s1 =
       (Inl (Undefined ''null socket''), s2)"
  using error_before_start_is_undefined [OF initial_sys_ok(1), of "example_sender READ" example_env
      "\<lparr>fd = 3, events = POLLIN, revents = POLLERR\<rparr>" 7 "ticking_os (\<lambda>w. False)" "[]" "[]"]
  by (auto simp: example_facts failed_def usable_fd_def has_error_def bit_poll simp del: dispatch.simps)

end
