(* ===== verification/Queue_Refinement.thy ===== *)
theory Queue_Refinement
  imports Task_Queue Multiplexer_Invariant
begin

text \<open>
  The intrusive queues implement the task lists of the multiplexer.

  \<open>Poll_Multiplexer\<close> treats a queue as the list of its tasks. Here the queue operations of
  \<^verbatim>\<open>connect\<close> (new demultiplexers), \<^verbatim>\<open>start\<close>, \<^verbatim>\<open>prepare_handles\<close> and \<^verbatim>\<open>wait_for\<close> are performed on the
  heap of \<open>Task_Queue\<close>, and a simulation relation \<open>heap_rel\<close> between heaps and multiplexer states is
  kept by each of them. A task is identified by its address on both sides.
\<close>

section \<open>The queue operations on the heap\<close>

text \<open>The queues the multiplexer owns: two per demultiplexer, and the local one of a waiting thread.\<close>

datatype queue_slot = Ready_slot | Read_slot nat | Write_slot nat

text \<open>Where the sentinels of these queues are.\<close>

type_synonym layout = "queue_slot \<Rightarrow> addr"

text \<open>\<^verbatim>\<open>task::tail = state::complete\<close>.\<close>

definition arm :: "addr \<Rightarrow> qheap \<Rightarrow> qheap" where
  "arm t h = h\<lparr>tail_of := (tail_of h)(t := Tail_fn)\<rparr>"

text \<open>The queue part of \<^verbatim>\<open>demux_.resize\<close>: the constructors of the demultiplexers from \<open>m\<close> to \<open>n\<close>.\<close>

definition grow_heap :: "layout \<Rightarrow> nat \<Rightarrow> nat \<Rightarrow> qheap \<Rightarrow> qheap" where
  "grow_heap L m n h =
     fold (\<lambda>i h. queue_init (L (Write_slot i)) (queue_init (L (Read_slot i)) h)) [m..<n] h"

definition start_heap :: "layout \<Rightarrow> execution_trigger \<Rightarrow> nat \<Rightarrow> addr \<Rightarrow> qheap \<Rightarrow> qheap option" where
  "start_heap L tr i t h =
     Option.bind (if tr = WRITE then push (L (Write_slot i)) t (arm t h) else Some (arm t h)) (\<lambda>h1.
       if tr = READ then push (L (Read_slot i)) t h1 else Some h1)"

definition prepare_handles_heap :: "layout \<Rightarrow> short \<Rightarrow> nat \<Rightarrow> qheap \<Rightarrow> qheap option" where
  "prepare_handles_heap L revs i h =
     Option.bind (if revs AND (POLLOUT OR POLLERR OR POLLNVAL) \<noteq> 0
                  then move_back (L Ready_slot) (L (Write_slot i)) h else Some h) (\<lambda>h1.
       if revs AND (POLLIN OR POLLHUP OR POLLERR OR POLLNVAL) \<noteq> 0
       then move_back (L Ready_slot) (L (Read_slot i)) h1 else Some h1)"

fun dispatch_heap :: "layout \<Rightarrow> pollfd list \<Rightarrow> qheap \<Rightarrow> qheap option" where
  "dispatch_heap L [] h = Some h"
| "dispatch_heap L (event # list) h =
     Option.bind (prepare_handles_heap L (revents event) (nat (fd event)) h) (dispatch_heap L list)"

text \<open>The queue part of \<^verbatim>\<open>wait_for\<close>, from the construction of the ready queue on.\<close>

definition wait_heap :: "layout \<Rightarrow> pollfd list \<Rightarrow> qheap \<Rightarrow> (addr list \<times> qheap) option" where
  "wait_heap L list h =
     Option.bind (dispatch_heap L list (queue_init (L Ready_slot) h)) (run_queue_heap (L Ready_slot))"

section \<open>The simulation relation\<close>

fun contents :: "demultiplexer list \<Rightarrow> tid list option \<Rightarrow> queue_slot \<Rightarrow> tid list option" where
  "contents ds ready Ready_slot = ready"
| "contents ds ready (Read_slot i) = (if i < length ds then Some (read_queue (ds ! i)) else None)"
| "contents ds ready (Write_slot i) = (if i < length ds then Some (write_queue (ds ! i)) else None)"

text \<open>
  \<open>Q\<close> is the family of all queues on the heap; other threads' ready queues may be among them. An
  operation state is not a sentinel, and one that was started holds its completion function.
\<close>

definition heap_rel ::
  "layout \<Rightarrow> (addr \<rightharpoonup> addr list) \<Rightarrow> qheap \<Rightarrow> ('v, 'w) sys \<Rightarrow> tid list option \<Rightarrow> bool" where
  "heap_rel L Q h s ready \<longleftrightarrow>
     inj L \<and> queue_family queue_rep h Q \<and> (\<forall>sl. Q (L sl) = contents (demux s) ready sl) \<and>
     (\<forall>sl. ops s (L sl) = None) \<and> (\<forall>t op. ops s t = Some op \<longrightarrow> op_armed op \<longrightarrow> has_completion h t)"

lemma family_update_tail:
  assumes "queue_family queue_rep h Q" and "a \<notin> family_nodes Q"
    and "\<And>b. b \<noteq> a \<Longrightarrow> next_of h' b = next_of h b" and "\<And>b. b \<noteq> a \<Longrightarrow> tail_of h' b = tail_of h b"
    and "\<And>xs. R a = Some xs \<Longrightarrow> xs = [] \<and> queue_rep h' a []" and "dom R \<subseteq> {a}"
  shows "queue_family queue_rep h' (Q ++ R)"
proof (rule intrusive.family_update [OF assms(1), of "{a}" "{a}"])
  show "keeps_others queue_rep has_completion {a} {a} h h'"
    using assms(3,4) by (intro keeps_othersI) auto
  fix q xs
  show "R q = Some xs \<Longrightarrow> queue_rep h' q xs" "R q = Some xs \<Longrightarrow> insert q (set xs) \<subseteq> {a}"
    using assms(5) [of xs] assms(6) by (cases "q = a"; auto)+
  show "Q q = Some xs \<Longrightarrow> R q = None \<Longrightarrow> insert q (set xs) \<inter> {a} = {}"
    using assms(2) by (auto simp: family_nodes_def)
  fix p ys show "R q = Some xs \<Longrightarrow> R p = Some ys \<Longrightarrow> q \<noteq> p \<Longrightarrow> insert q (set xs) \<inter> insert p (set ys) = {}"
    using assms(6) by auto
qed

lemma family_init:
  assumes "queue_family queue_rep h Q" and "q \<notin> family_nodes Q"
  shows "queue_family queue_rep (queue_init q h) (Q(q \<mapsto> []))"
  using family_update_tail [OF assms, of "queue_init q h" "[q \<mapsto> []]"] queue_rep_init [of q h]
  by (auto simp: queue_init_def)

lemma family_arm:
  assumes "queue_family queue_rep h Q" and "t \<notin> family_nodes Q"
  shows "queue_family queue_rep (arm t h) Q"
  using family_update_tail [OF assms, of "arm t h" Map.empty] by (auto simp: arm_def)

lemma family_nodes_init: "family_nodes (Q(q \<mapsto> [])) \<subseteq> insert q (family_nodes Q)"
  by (auto simp: family_nodes_def split: if_splits)

section \<open>Each operation keeps the relation\<close>

lemma heap_rel_step:
  assumes "heap_rel L Q h s ready" and "queue_family queue_rep h' Q'"
    and "\<And>sl. Q' (L sl) = contents ds' ready' sl"
    and "\<And>a. a \<notin> range L \<Longrightarrow> has_completion h a \<Longrightarrow> has_completion h' a"
  shows "heap_rel L Q' h' (s\<lparr>demux := ds'\<rparr>) ready'"
proof -
  have "t \<notin> range L" if "ops s t = Some op" for t op
    using assms(1) that by (auto simp: heap_rel_def)
  then show ?thesis using assms by (auto simp: heap_rel_def)
qed

lemma heap_rel_init:
  assumes "heap_rel L Q h s ready" and "L sl \<notin> family_nodes Q"
    and "contents ds' ready' = (contents (demux s) ready)(sl \<mapsto> [])"
  shows "heap_rel L (Q(L sl \<mapsto> [])) (queue_init (L sl) h) (s\<lparr>demux := ds'\<rparr>) ready'"
  using assms family_init [of h Q "L sl"]
  by (auto simp: heap_rel_def has_completion_def queue_init_def inj_eq split: if_splits)

lemma heap_rel_move_back:
  assumes rel: "heap_rel L Q h s (Some ready)" and "contents (demux s) (Some ready) sl = Some xs"
    and "sl \<noteq> Ready_slot"
    and ds': "contents ds' (Some (ready @ xs)) =
      (contents (demux s) (Some ready))(Ready_slot \<mapsto> ready @ xs, sl \<mapsto> [])"
  shows "\<exists>h' Q'. move_back (L Ready_slot) (L sl) h = Some h' \<and>
    heap_rel L Q' h' (s\<lparr>demux := ds'\<rparr>) (Some (ready @ xs))"
proof -
  let ?Q = "Q(L Ready_slot \<mapsto> ready @ xs, L sl \<mapsto> [])"
  have inj: "inj L" and fam: "queue_family queue_rep h Q"
    and Q: "Q (L Ready_slot) = Some ready" "Q (L sl) = Some xs"
    using rel assms(2) by (auto simp: heap_rel_def)
  from intrusive.family_splice [OF fam Q] obtain h' where
    h': "move_back (L Ready_slot) (L sl) h = Some h'" "queue_family queue_rep h' ?Q"
    "\<forall>a. a \<noteq> L Ready_slot \<and> a \<noteq> L sl \<longrightarrow> has_completion h' a = has_completion h a"
    using inj assms(3) by (auto simp: inj_eq)
  have "heap_rel L ?Q h' (s\<lparr>demux := ds'\<rparr>) (Some (ready @ xs))"
    by (rule heap_rel_step [OF rel h'(2)]) (use rel h'(3) ds' in \<open>auto simp: heap_rel_def inj_eq\<close>)
  with h'(1) show ?thesis by blast
qed

lemma contents_update:
  assumes "i < length ds"
  shows "contents (ds[i := (ds ! i)\<lparr>write_queue := []\<rparr>]) (Some r) =
      (contents ds ready)(Ready_slot \<mapsto> r, Write_slot i \<mapsto> [])"
    and "contents (ds[i := (ds ! i)\<lparr>read_queue := []\<rparr>]) (Some r) =
      (contents ds ready)(Ready_slot \<mapsto> r, Read_slot i \<mapsto> [])"
proof -
  show "contents (ds[i := (ds ! i)\<lparr>write_queue := []\<rparr>]) (Some r) =
      (contents ds ready)(Ready_slot \<mapsto> r, Write_slot i \<mapsto> [])"
  proof
    fix sl show "contents (ds[i := (ds ! i)\<lparr>write_queue := []\<rparr>]) (Some r) sl =
      ((contents ds ready)(Ready_slot \<mapsto> r, Write_slot i \<mapsto> [])) sl"
      using assms by (cases sl) (auto simp: nth_list_update)
  qed
  show "contents (ds[i := (ds ! i)\<lparr>read_queue := []\<rparr>]) (Some r) =
      (contents ds ready)(Ready_slot \<mapsto> r, Read_slot i \<mapsto> [])"
  proof
    fix sl show "contents (ds[i := (ds ! i)\<lparr>read_queue := []\<rparr>]) (Some r) sl =
      ((contents ds ready)(Ready_slot \<mapsto> r, Read_slot i \<mapsto> [])) sl"
      using assms by (cases sl) (auto simp: nth_list_update)
  qed
qed

lemma heap_rel_take_writers:
  assumes "heap_rel L Q h s (Some ready)" and "i < length (demux s)"
  shows "\<exists>h' Q'. (if takes_write revs then move_back (L Ready_slot) (L (Write_slot i)) h else Some h) = Some h' \<and>
    heap_rel L Q' h' (s\<lparr>demux := (demux s)[i := (demux s ! i)\<lparr>write_queue :=
        if takes_write revs then [] else write_queue (demux s ! i)\<rparr>]\<rparr>)
      (Some (ready @ (if takes_write revs then write_queue (demux s ! i) else [])))"
  using heap_rel_move_back [OF assms(1) _ _ contents_update(1) [OF assms(2)]] assms by auto

lemma heap_rel_take_readers:
  assumes "heap_rel L Q h s (Some ready)" and "i < length (demux s)"
  shows "\<exists>h' Q'. (if takes_read revs then move_back (L Ready_slot) (L (Read_slot i)) h else Some h) = Some h' \<and>
    heap_rel L Q' h' (s\<lparr>demux := (demux s)[i := (demux s ! i)\<lparr>read_queue :=
        if takes_read revs then [] else read_queue (demux s ! i)\<rparr>]\<rparr>)
      (Some (ready @ (if takes_read revs then read_queue (demux s ! i) else [])))"
  using heap_rel_move_back [OF assms(1) _ _ contents_update(2) [OF assms(2)]] assms by auto

lemma heap_rel_env: "heap_rel L Q h (s\<lparr>sys_env := e, ilist := l\<rparr>) ready = heap_rel L Q h s ready"
  by (simp add: heap_rel_def)

lemma prepare_handles_refined:
  assumes "heap_rel L Q h s (Some ready)" and i: "i < length (demux s)"
    and "prepare_handles os revs i ready s = (Inr ready', s')"
  shows "\<exists>h' Q'. prepare_handles_heap L revs i h = Some h' \<and> heap_rel L Q' h' s' (Some ready')"
proof -
  let ?w = "if takes_write revs then [] else write_queue (demux s ! i)"
  let ?s1 = "s\<lparr>demux := (demux s)[i := (demux s ! i)\<lparr>write_queue := ?w\<rparr>]\<rparr>"
  from heap_rel_take_writers [OF assms(1,2), of revs] obtain h1 Q1 where h1:
    "(if takes_write revs then move_back (L Ready_slot) (L (Write_slot i)) h else Some h) = Some h1"
    "heap_rel L Q1 h1 ?s1 (Some (ready @ (if takes_write revs then write_queue (demux s ! i) else [])))"
    by blast
  have "i < length (demux ?s1)" using i by simp
  from heap_rel_take_readers [OF h1(2) this, of revs] obtain h2 Q2 where h2:
    "(if takes_read revs then move_back (L Ready_slot) (L (Read_slot i)) h1 else Some h1) = Some h2"
    "heap_rel L Q2 h2 (s\<lparr>demux := (demux s)[i := drained revs (demux s ! i)]\<rparr>)
       (Some (ready @ ready_of revs (demux s ! i)))"
    using i by (auto simp: drained_def ready_of_def cong: if_cong)
  have "prepare_handles_heap L revs i h = Some h2"
    using h1(1) h2(1) unfolding prepare_handles_heap_def revents_masks by simp
  moreover have "heap_rel L Q2 h2 s' (Some ready')"
    using h2(2) prepare_handles_result [OF assms(3)] by (auto simp: heap_rel_def)
  ultimately show ?thesis by blast
qed

lemma dispatch_refined:
  assumes "heap_rel L Q h s (Some ready)" and "dispatch os evs ready s = (Inr ready', s')"
  shows "\<exists>h' Q'. dispatch_heap L evs h = Some h' \<and> heap_rel L Q' h' s' (Some ready')"
  using assms
proof (induction evs arbitrary: Q h s ready)
  case (Cons ev evs)
  let ?i = "nat (fd ev)" and ?s = "s\<lparr>ilist := clear_event ev (ilist s)\<rparr>"
  from Cons.prems(2) have i: "0 \<le> fd ev" "?i < length (demux ?s)"
    by (auto simp: Let_def split: if_splits)
  with Cons.prems(2) obtain ready1 s1 where
    p: "prepare_handles os (revents ev) ?i ready ?s = (Inr ready1, s1)"
    and d: "dispatch os evs ready1 s1 = (Inr ready', s')"
    by (auto simp: Let_def split: prod.splits sum.splits)
  have "heap_rel L Q h ?s (Some ready)" using Cons.prems(1) by (simp add: heap_rel_def)
  from prepare_handles_refined [OF this i(2) p] obtain h1 Q1 where
    "prepare_handles_heap L (revents ev) ?i h = Some h1" "heap_rel L Q1 h1 s1 (Some ready1)" by blast
  with Cons.IH [OF _ d] show ?case by fastforce
qed auto

lemma wait_refined_run:
  assumes rel: "heap_rel L Q h s (Some ready)" and armed: "\<forall>t \<in> set ready. \<exists>op. ops s t = Some op \<and> op_armed op"
  shows "\<exists>h' Q'. run_queue_heap (L Ready_slot) h = Some (ready, h') \<and>
    queue_family queue_rep h' Q' \<and> (\<forall>sl. Q' (L sl) = contents (demux s) (Some []) sl)"
proof -
  have fam: "queue_family queue_rep h Q" "Q (L Ready_slot) = Some ready" and inj: "inj L"
    and Q: "\<forall>sl. Q (L sl) = contents (demux s) (Some ready) sl"
    using rel by (auto simp: heap_rel_def)
  have "\<forall>t \<in> set ready. has_completion h t" using rel armed by (fastforce simp: heap_rel_def)
  from intrusive.run_drains [OF fam this] obtain h' where
    h': "run_queue_heap (L Ready_slot) h = Some (ready, h')"
    "queue_family queue_rep h' (Q(L Ready_slot \<mapsto> []))" by blast
  have "(Q(L Ready_slot \<mapsto> [])) (L sl) = contents (demux s) (Some []) sl" for sl
    using Q inj by (cases sl) (auto simp: inj_eq)
  with h' show ?thesis by blast
qed

lemma contents_enqueue:
  assumes "i < length ds" and "tr \<noteq> EAGER"
  shows "contents (ds[i := enqueue tr t h (ds ! i)]) ready =
    (contents ds ready)((if tr = WRITE then Write_slot i else Read_slot i) \<mapsto> queue_of tr (ds ! i) @ [t])"
proof
  fix sl show "contents (ds[i := enqueue tr t h (ds ! i)]) ready sl =
    ((contents ds ready)((if tr = WRITE then Write_slot i else Read_slot i) \<mapsto> queue_of tr (ds ! i) @ [t])) sl"
    using assms by (cases sl; cases tr) (auto simp: nth_list_update enqueue_def)
qed

lemma push_refined:
  assumes rel: "heap_rel L Q h s ready" and "ops s t = Some self" and t: "t \<notin> family_nodes Q"
    and sl: "contents (demux s) ready sl = Some xs"
    and ds': "contents ds' ready = (contents (demux s) ready)(sl \<mapsto> xs @ [t])"
  shows "\<exists>h' Q'. push (L sl) t (arm t h) = Some h' \<and>
    heap_rel L Q' h' (s\<lparr>demux := ds', ops := (ops s)(t \<mapsto> self\<lparr>op_armed := True\<rparr>)\<rparr>) ready"
proof -
  have inj: "inj L" and fam: "queue_family queue_rep h Q" and Q: "Q (L sl) = Some xs"
    and other: "t \<noteq> L sl'" for sl'
    using rel sl assms(2) by (auto simp: heap_rel_def)
  from intrusive.family_enq [OF family_arm [OF fam t] Q t] obtain h' where
    h': "push (L sl) t (arm t h) = Some h'" "queue_family queue_rep h' (Q(L sl \<mapsto> xs @ [t]))"
    "\<forall>a. a \<noteq> L sl \<longrightarrow> has_completion h' a = has_completion (arm t h) a" by blast
  have kept: "has_completion h' a" if "a = t \<or> (\<exists>op. ops s a = Some op \<and> op_armed op)" for a
  proof -
    have "a \<noteq> L sl" using that other [of sl] rel by (auto simp: heap_rel_def)
    then show ?thesis using h'(3) that rel by (auto simp: arm_def has_completion_def heap_rel_def)
  qed
  have "heap_rel L (Q(L sl \<mapsto> xs @ [t])) h'
      (s\<lparr>demux := ds', ops := (ops s)(t \<mapsto> self\<lparr>op_armed := True\<rparr>)\<rparr>) ready"
    using rel h'(2) ds' kept other inj unfolding heap_rel_def by (auto simp: inj_eq)
  with h'(1) show ?thesis by blast
qed

lemma grow_heap_Suc:
  "grow_heap L m (Suc (m + n)) h =
     grow_heap L (Suc m) (Suc (m + n)) (queue_init (L (Write_slot m)) (queue_init (L (Read_slot m)) h))"
  by (simp add: grow_heap_def upt_conv_Cons del: upt_Suc)

lemma heap_rel_grow:
  assumes "heap_rel L Q h s ready" and "\<forall>i \<ge> length (demux s). L (Read_slot i) \<notin> family_nodes Q \<and> L (Write_slot i) \<notin> family_nodes Q"
  shows "\<exists>Q'. heap_rel L Q' (grow_heap L (length (demux s)) (length (demux s) + n) h)
    (s\<lparr>demux := demux s @ replicate n empty_demultiplexer\<rparr>) ready"
  using assms
proof (induction n arbitrary: Q h s)
  case (Suc n)
  let ?k = "length (demux s)" and ?ds = "demux s @ [empty_demultiplexer]"
  let ?Q1 = "Q(L (Read_slot ?k) \<mapsto> [])" and ?h1 = "queue_init (L (Read_slot ?k)) h"
  let ?Q2 = "?Q1(L (Write_slot ?k) \<mapsto> [])" and ?h2 = "queue_init (L (Write_slot ?k)) ?h1"
  have inj: "inj L" using Suc.prems(1) by (simp add: heap_rel_def)
  have freshr: "L (Read_slot i) \<notin> family_nodes ?Q1" if "i > ?k" for i
    using Suc.prems(2) that family_nodes_init [of Q "L (Read_slot ?k)"] inj by (auto simp: inj_eq)
  have freshw: "L (Write_slot i) \<notin> family_nodes ?Q1" if "i \<ge> ?k" for i
    using Suc.prems(2) that family_nodes_init [of Q "L (Read_slot ?k)"] inj by (auto simp: inj_eq)
  have fam1: "queue_family queue_rep ?h1 ?Q1" and fam2: "queue_family queue_rep ?h2 ?Q2"
    using family_init [of h Q] family_init [of ?h1 ?Q1] freshw [of ?k] Suc.prems
    by (auto simp: heap_rel_def)
  have slots: "?Q2 (L sl) = contents ?ds ready sl" for sl
    using Suc.prems(1) inj
    by (cases sl) (auto simp: heap_rel_def inj_eq nth_append empty_demultiplexer_def)
  have rel2: "heap_rel L ?Q2 ?h2 (s\<lparr>demux := ?ds\<rparr>) ready"
    by (rule heap_rel_step [OF Suc.prems(1) fam2 slots]) (auto simp: has_completion_def queue_init_def)
  have "\<forall>i \<ge> length ?ds. L (Read_slot i) \<notin> family_nodes ?Q2 \<and> L (Write_slot i) \<notin> family_nodes ?Q2"
    using freshr freshw inj by (auto simp: inj_eq dest!: set_mp [OF family_nodes_init [of ?Q1]])
  then have "\<exists>Q'. heap_rel L Q' (grow_heap L (length ?ds) (length ?ds + n) ?h2)
      (s\<lparr>demux := ?ds @ replicate n empty_demultiplexer\<rparr>) ready"
    using Suc.IH [OF rel2] by (simp del: fun_upd_apply)
  then show ?case by (simp add: grow_heap_Suc)
qed (auto simp: grow_heap_def)

section \<open>Properties\<close>

text \<open>
  Starting an operation on the heap refines starting it on the lists. For an operation that
  \<^verbatim>\<open>connect\<close> registered and whose node is on no queue, storing the completion function and pushing the
  node never terminates the program, and the heap afterwards represents the state after \<^verbatim>\<open>start\<close>.
\<close>

theorem start_refined:
  assumes "heap_rel L Q h s ready" and "mux_wf s" and "startable t self i s" and "t \<notin> family_nodes Q"
  shows "\<exists>h' Q' s'. start_heap L (op_trigger self) i t h = Some h' \<and>
    start rcv t s = Some (Inr (), s') \<and> heap_rel L Q' h' s' ready"
proof -
  let ?tr = "op_trigger self" and ?sl = "if op_trigger self = WRITE then Write_slot i else Read_slot i"
  have i: "i < length (demux s)" and tr: "?tr \<noteq> EAGER" and t: "ops s t = Some self"
    using assms(2,3) by (auto simp: mux_wf_def startable_def)
  have "contents (demux s) ready ?sl = Some (queue_of ?tr (demux s ! i))"
    using i tr by (cases ?tr) auto
  from push_refined [OF assms(1) t assms(4) this contents_enqueue [OF i tr]] obtain h' Q' where
    "push (L ?sl) t (arm t h) = Some h'"
    "heap_rel L Q' h' (s\<lparr>demux := (demux s)[i := enqueue ?tr t (op_socket self) (demux s ! i)],
       ops := (ops s)(t \<mapsto> self\<lparr>op_armed := True\<rparr>)\<rparr>) ready" by blast
  moreover from this(1) tr have "start_heap L ?tr i t h = Some h'"
    by (cases ?tr) (auto simp: start_heap_def)
  ultimately show ?thesis using start_queues [OF assms(3), of rcv] by blast
qed

text \<open>
  Connecting on the heap refines connecting on the lists: after the constructors of the new
  demultiplexers have run, the heap represents the state after \<^verbatim>\<open>connect\<close>.
\<close>

theorem connect_refined:
  assumes "heap_rel L Q h s ready" and "mux_wf s" and "t \<notin> range L" and "registers sender s"
    and "usable_fd (sender_fd sender s)" and "ops s t = None"
    and "\<forall>i \<ge> length (demux s). L (Read_slot i) \<notin> family_nodes Q \<and> L (Write_slot i) \<notin> family_nodes Q"
  shows "\<exists>s' Q'. connect sender t s = (Inr (), s') \<and>
    heap_rel L Q' (grow_heap L (length (demux s)) (length (demux s')) h) s' ready"
proof -
  let ?f = "sender_fd sender s"
  let ?n = "nat ?f + 1 - length (demux s)"
  have "length (demux s) \<le> 2 ^ 31" using assms(2) by (simp add: mux_wf_def)
  note con = connect_registering [OF assms(4,5) this, of t]
  from heap_rel_grow [OF assms(1,7), of ?n] obtain Q' where
    "heap_rel L Q' (grow_heap L (length (demux s)) (length (demux s) + ?n) h)
      (s\<lparr>demux := demux s @ replicate ?n empty_demultiplexer\<rparr>) ready" by blast
  with con assms(3) show ?thesis by (auto simp: heap_rel_def intro!: exI [of _ Q'])
qed

text \<open>
  (C7) Waiting on the heap refines waiting on the lists. When the critical section succeeds, splicing
  the queues of the ready descriptors onto the local ready queue and running it never terminates the
  program; it executes exactly the tasks of the abstract ready list, in the same order, each after
  it left the queue, and the heap afterwards represents the queues the critical section left.
\<close>

theorem wait_refined:
  assumes "heap_rel L Q h s None" and "L Ready_slot \<notin> family_nodes Q" and "mux_wf s"
    and "distinct (map fd evs)" and "dispatch os evs [] s = (Inr ready, s')"
  shows "\<exists>h' Q'. wait_heap L evs h = Some (ready, h') \<and> queue_family queue_rep h' Q' \<and>
    (\<forall>sl. Q' (L sl) = contents (demux s') (Some []) sl)"
proof -
  have "contents (demux s) (Some []) = (contents (demux s) None)(Ready_slot \<mapsto> [])"
    by (rule ext, case_tac x) auto
  from heap_rel_init [OF assms(1,2) this] have
    "heap_rel L (Q(L Ready_slot \<mapsto> [])) (queue_init (L Ready_slot) h) s (Some [])" by simp
  from dispatch_refined [OF this assms(5)] obtain h1 Q1 where
    h1: "dispatch_heap L evs (queue_init (L Ready_slot) h) = Some h1" "heap_rel L Q1 h1 s' (Some ready)"
    by blast
  have "\<exists>op. ops s' t = Some op \<and> op_armed op" if "t \<in> set ready" for t
    using dispatch_result [OF assms(5,4)] ready_started [OF assms(3), of evs t] that by auto
  with wait_refined_run [OF h1(2)] h1(1) show ?thesis by (auto simp: wait_heap_def)
qed

subsection \<open>Witnesses\<close>

text \<open>
  Sentinels at 10, 11, 12, ... and the ready queue's at 0; on \<open>idle_heap\<close> every address is an empty
  queue, and on \<open>reading_heap\<close> the task 7 is on the read queue of descriptor 3.
\<close>

fun sentinels :: layout where
  "sentinels Ready_slot = 0"
| "sentinels (Read_slot i) = 2 * i + 10"
| "sentinels (Write_slot i) = 2 * i + 11"

lemma sentinels_inj: "inj sentinels" and sentinels_not_7: "sentinels sl \<noteq> 7"
proof -
  have "x = y" if "sentinels x = sentinels y" for x y
    using that by (cases x; cases y; simp) presburger+
  then show "inj sentinels" by (rule injI)
  show "sentinels sl \<noteq> 7" by (cases sl) auto
qed

definition idle_heap :: qheap where
  "idle_heap = \<lparr>next_of = (\<lambda>a. a), tail_of = Tail_ptr\<rparr>"

definition idle_queues :: "nat \<Rightarrow> addr \<rightharpoonup> addr list" where
  "idle_queues n = (\<lambda>a. if 10 \<le> a \<and> a < 2 * n + 10 then Some [] else None)"

lemma idle_queues_Some: "idle_queues n a = Some xs \<longleftrightarrow> 10 \<le> a \<and> a < 2 * n + 10 \<and> xs = []"
  by (auto simp: idle_queues_def)

lemma idle_family:
  "queue_family queue_rep idle_heap (idle_queues n)" "family_nodes (idle_queues n) = {10 ..< 2 * n + 10}"
  by (auto simp: queue_family_def queue_rep_def idle_heap_def idle_queues_Some family_nodes_def)

lemma idle_contents: "idle_queues n (sentinels sl) = contents (replicate n empty_demultiplexer) None sl"
  by (cases sl) (auto simp: idle_queues_def empty_demultiplexer_def)

definition reader_idle :: "(nat, nat) sys" where
  "reader_idle = reader_waiting\<lparr>demux := replicate 4 empty_demultiplexer,
     ops := [7 \<mapsto> \<lparr>op_func = (\<lambda>e. Some (Inr (Some 42), e)), op_socket = 0, op_demux = Some 3,
       op_trigger = READ, op_armed = False\<rparr>]\<rparr>"

lemma reader_idle_wf: "mux_wf reader_idle"
  by (auto simp: mux_wf_def reader_idle_def reader_waiting_3 ilist_ok_def ilist_wf_def
      empty_demultiplexer_ok(1) split: if_splits)

theorem start_refined_witness:
  "\<exists>h' Q' s'. start_heap sentinels READ 3 7 idle_heap = Some h' \<and>
     start no_reaction 7 reader_idle = Some (Inr (), s') \<and> heap_rel sentinels Q' h' s' None"
proof -
  let ?self = "\<lparr>op_func = (\<lambda>e. Some (Inr (Some 42), e)), op_socket = 0, op_demux = Some 3,
       op_trigger = READ, op_armed = False\<rparr>"
  have "heap_rel sentinels (idle_queues 4) idle_heap reader_idle None"
    using sentinels_not_7
    by (auto simp: heap_rel_def sentinels_inj idle_family(1) idle_contents reader_idle_def split: if_splits)
  moreover have "startable 7 ?self 3 reader_idle"
    by (simp add: startable_def reader_idle_def reader_waiting_def initial_sys_def example_env_def
        get_error_def failed_def)
  ultimately show ?thesis
    using start_refined [OF _ reader_idle_wf, of sentinels "idle_queues 4" idle_heap None 7 ?self 3 no_reaction]
    by (simp add: idle_family(2))
qed

theorem connect_refined_witness:
  "\<exists>s' Q'. connect (example_sender READ) 7 (initial_sys example_env) = (Inr (), s') \<and>
     heap_rel sentinels Q' (grow_heap sentinels 0 (length (demux s')) idle_heap) s' None"
proof -
  have "heap_rel sentinels (idle_queues 0) idle_heap (initial_sys example_env :: (nat, nat) sys) None"
    using idle_contents [of 0]
    by (simp add: heap_rel_def sentinels_inj idle_family(1) example_facts)
  moreover have "7 \<notin> range sentinels" using sentinels_not_7 by (metis rangeE)
  ultimately show ?thesis
    using connect_refined [OF _ initial_sys_ok(1), of sentinels "idle_queues 0" idle_heap example_env None 7 "example_sender READ"]
    by (auto simp: example_facts usable_fd_def failed_def idle_family(2))
qed

definition reading_heap :: qheap where
  "reading_heap = \<lparr>next_of = (\<lambda>a. a)(16 := 7, 7 := 16), tail_of = Tail_ptr(16 := Tail_ptr 7, 7 := Tail_fn)\<rparr>"

lemma reading_rel: "heap_rel sentinels ((idle_queues 4)(16 \<mapsto> [7])) reading_heap reader_waiting None"
proof -
  have "queue_family queue_rep reading_heap ((idle_queues 4)(16 \<mapsto> [7]))"
    by (auto simp: queue_family_def queue_rep_def reading_heap_def idle_queues_Some split: if_splits)
  moreover have "((idle_queues 4)(16 \<mapsto> [7])) (sentinels sl) = contents (demux reader_waiting) None sl" for sl
    using below_four reader_waiting_3
    by (cases sl) (auto simp: idle_queues_def empty_demultiplexer_def less_Suc_eq numeral_eq_Suc)
  moreover have "ops reader_waiting (sentinels sl) = None" for sl
    using sentinels_not_7 by (simp add: reader_waiting_def)
  moreover have "has_completion reading_heap t" if "ops reader_waiting t = Some op" for t op
    using that by (auto simp: reader_waiting_def reading_heap_def has_completion_def split: if_splits)
  ultimately show ?thesis by (simp add: heap_rel_def sentinels_inj)
qed

theorem wait_refined_witness:
  "\<exists>h'. wait_heap sentinels [\<lparr>fd = 3, events = POLLIN, revents = POLLIN\<rparr>] reading_heap = Some ([7], h')"
proof -
  let ?ev = "\<lparr>fd = 3, events = POLLIN, revents = POLLIN\<rparr>"
  obtain s' where d: "dispatch (ticking_os (\<lambda>w. False)) [?ev] [] reader_waiting = (Inr [7], s')"
    using pollin_event
    by (auto simp: Let_def reader_waiting_3 prepare_handles_no_error ready_of_def)
  have "sentinels Ready_slot \<notin> family_nodes ((idle_queues 4)(16 \<mapsto> [7]))"
    by (auto simp: family_nodes_def idle_queues_Some split: if_splits)
  from wait_refined [OF reading_rel this reader_waiting_ok(1) _ d] show ?thesis by auto
qed

end
