(* ===== verification/Interleaving.thy ===== *)
theory Interleaving
  imports Multiplexer_Invariant
begin

text \<open>
  Threads that share a multiplexer. The mutex of \<^verbatim>\<open>basic_poll_multiplexer\<close> makes \<^verbatim>\<open>connect\<close>, the queueing
  part of \<^verbatim>\<open>start\<close>, the copy of the interest list and the critical section of \<^verbatim>\<open>wait_for\<close> atomic;
  everything else of a wait (the call of \<^verbatim>\<open>poll\<close> and the completions) happens between these sections.
  The step relation runs any number of waiters against any number of connecting and starting threads.

  The stored error, which \<^verbatim>\<open>connect\<close> and \<^verbatim>\<open>start\<close> read just before they take the mutex, is read in the same step; a
  change of the error between the two is seen as a change before or after the step.

  What a receiver does in reaction to a completion is not part of the completion step: connecting and
  starting further operations are steps of their own.
\<close>

section \<open>Steps\<close>

text \<open>
  Where a call of \<^verbatim>\<open>wait_for\<close> is. One that threw stays \<open>Threw\<close>, with the tasks that were on its local ready
  queue; its thread may call again.
\<close>

datatype waiter =
    Idle
  | Polling "pollfd list"
  | Events "pollfd list"
  | Running "tid list"
  | Threw "tid list"

record ('v, 'w) conc =
  shared :: "('v, 'w) sys"
  waiters :: "nat \<Rightarrow> waiter"
  started :: "tid set"

text \<open>What \<^verbatim>\<open>poll\<close> may report for a list: some of its descriptors, each with some event.\<close>

definition poll_report :: "pollfd list \<Rightarrow> pollfd list \<Rightarrow> bool" where
  "poll_report l evs \<longleftrightarrow> subseq (map fd evs) (map fd l) \<and> (\<forall>ev \<in> set evs. revents ev \<noteq> 0)"

inductive conc_step :: "'w os \<Rightarrow> ('v, 'w) conc \<Rightarrow> ('v, 'w) conc \<Rightarrow> bool" for os where
  connecting:
    "ops (shared c) t = None \<Longrightarrow> (registers sender (shared c) \<longrightarrow> usable_fd (sender_fd sender (shared c))) \<Longrightarrow>
     connect sender t (shared c) = (Inr (), s') \<Longrightarrow> conc_step os c (c\<lparr>shared := s'\<rparr>)"
| starting:
    "t \<notin> started c \<Longrightarrow> start no_reaction t (shared c) = Some (Inr (), s') \<Longrightarrow>
     conc_step os c (c\<lparr>shared := s', started := insert t (started c)\<rparr>)"
| copying:
    "waiters c w = Idle \<Longrightarrow>
     conc_step os c (c\<lparr>waiters := (waiters c)(w := Polling (copy_active (ilist (shared c))))\<rparr>)"
| polling:
    "waiters c w = Polling l \<Longrightarrow> poll_report l evs \<Longrightarrow>
     conc_step os c (c\<lparr>waiters := (waiters c)(w := Events evs)\<rparr>)"
| dispatching:
    "waiters c w = Events evs \<Longrightarrow> dispatch os evs [] (shared c) = (Inr ready, s') \<Longrightarrow>
     conc_step os c (c\<lparr>shared := s', waiters := (waiters c)(w := Running ready)\<rparr>)"
| throwing:
    "waiters c w = Events (evs @ ev # later) \<Longrightarrow> dispatch os evs [] (shared c) = (Inr ready, s1) \<Longrightarrow>
     dispatch os [ev] ready s1 = (Inl x, s') \<Longrightarrow>
     conc_step os c (c\<lparr>shared := s', waiters := (waiters c)(w := Threw ready)\<rparr>)"
| executing:
    "waiters c w = Running (t # ts) \<Longrightarrow> complete no_reaction t (shared c) = Some (Inr (), s') \<Longrightarrow>
     conc_step os c (c\<lparr>shared := s', waiters := (waiters c)(w := Running ts)\<rparr>)"
| returning:
    "waiters c w = Running [] \<Longrightarrow> conc_step os c (c\<lparr>waiters := (waiters c)(w := Idle)\<rparr>)"

inductive_cases conc_stepE: "conc_step os c c'"

definition initial_conc :: "'w env \<Rightarrow> ('v, 'w) conc" where
  "initial_conc e = \<lparr>shared = initial_sys e, waiters = (\<lambda>_. Idle), started = {}\<rparr>"

abbreviation reachable :: "'w os \<Rightarrow> 'w env \<Rightarrow> ('v, 'w) conc \<Rightarrow> bool" where
  "reachable os e c \<equiv> (conc_step os)\<^sup>*\<^sup>* (initial_conc e) c"

section \<open>Where an operation is\<close>

definition queued :: "('v, 'w) sys \<Rightarrow> tid set" where
  "queued s = {t. \<exists>i tr. i < length (demux s) \<and> t \<in> set (queue_of tr (demux s ! i))}"

fun taken :: "waiter \<Rightarrow> tid list" where
  "taken (Running ts) = ts"
| "taken (Threw ts) = ts"
| "taken w = []"

fun polled :: "waiter \<Rightarrow> pollfd list" where
  "polled (Polling l) = l"
| "polled (Events l) = l"
| "polled w = []"

text \<open>
  The places of the started operations \<open>S\<close>: queued, taken off by a waiter, or completed; each in only
  one of them and only once.
\<close>

definition places_ok :: "tid set \<Rightarrow> tid set \<Rightarrow> tid list \<Rightarrow> (nat \<Rightarrow> tid list) \<Rightarrow> bool" where
  "places_ok S q d tk \<longleftrightarrow>
     q \<subseteq> S \<and> set d \<subseteq> S \<and> q \<inter> set d = {} \<and> distinct d \<and>
     (\<forall>w. set (tk w) \<subseteq> S \<and> distinct (tk w) \<and> set (tk w) \<inter> (q \<union> set d) = {} \<and>
        (\<forall>w'. w' \<noteq> w \<longrightarrow> set (tk w) \<inter> set (tk w') = {}))"

lemma places_start_queued: "places_ok S q d tk \<Longrightarrow> t \<notin> S \<Longrightarrow> places_ok (insert t S) (insert t q) d tk"
  unfolding places_ok_def by blast

lemma places_start_done: "places_ok S q d tk \<Longrightarrow> t \<notin> S \<Longrightarrow> places_ok (insert t S) q (d @ [t]) tk"
  unfolding places_ok_def by auto

lemma places_taken:
  "places_ok S (q \<union> set r) d tk \<Longrightarrow> q \<inter> set r = {} \<Longrightarrow> distinct r \<Longrightarrow> tk w = [] \<Longrightarrow>
     places_ok S q d (tk(w := r))"
  unfolding places_ok_def by (auto split: if_splits)

lemma places_executed:
  "places_ok S q d tk \<Longrightarrow> tk w = t # ts \<Longrightarrow> places_ok S q (d @ [t]) (tk(w := ts))"
proof -
  assume ok: "places_ok S q d tk" and w: "tk w = t # ts"
  then have t: "t \<in> S" "t \<notin> q" "t \<notin> set d" "t \<notin> set ts" "distinct ts" "set ts \<subseteq> S"
    "set ts \<inter> (q \<union> set d) = {}"
    unfolding places_ok_def
    by (metis Un_iff disjoint_iff distinct.simps(2) list.set_intros(1,2) subset_iff)+
  have other: "set (t # ts) \<inter> set (tk w') = {}" if "w' \<noteq> w" for w'
    using ok w that unfolding places_ok_def by metis
  have at_w: "set ts \<inter> set (d @ [t]) = {}" "q \<inter> set (d @ [t]) = {}" "set (d @ [t]) \<subseteq> S" "distinct (d @ [t])"
    using ok t unfolding places_ok_def by auto
  show ?thesis
    unfolding places_ok_def
  proof (intro conjI allI)
    fix v
    show "set ((tk(w := ts)) v) \<subseteq> S" "distinct ((tk(w := ts)) v)"
      using ok t by (auto simp: places_ok_def)
    show "set ((tk(w := ts)) v) \<inter> (q \<union> set (d @ [t])) = {}"
      using ok t at_w(1) other [of v] by (cases "v = w") (auto simp: places_ok_def)
    show "v' \<noteq> v \<longrightarrow> set ((tk(w := ts)) v) \<inter> set ((tk(w := ts)) v') = {}" for v'
      using ok other [of v] other [of v'] by (auto simp: places_ok_def)
  qed (use at_w ok in \<open>auto simp: places_ok_def\<close>)
qed

lemma places_update: "tk w = ts \<Longrightarrow> tk(w := ts) = tk"
  by auto

text \<open>The invariant of the interleaved system.\<close>

definition conc_inv :: "('v, 'w) conc \<Rightarrow> bool" where
  "conc_inv c \<longleftrightarrow>
     mux_wf (shared c) \<and>
     (\<forall>t op. ops (shared c) t = Some op \<longrightarrow> op_armed op \<longrightarrow> t \<in> started c) \<and>
     (\<forall>t \<in> started c. ops (shared c) t \<noteq> None) \<and>
     places_ok (started c) (queued (shared c)) (map fst (completions (shared c)))
       (\<lambda>w. taken (waiters c w)) \<and>
     (\<forall>w. distinct (map fd (polled (waiters c w))) \<and>
        (\<forall>f \<in> fd ` set (polled (waiters c w)). 0 \<le> f \<and> nat f < length (demux (shared c))))"

lemma initial_conc_inv: "conc_inv (initial_conc e)"
  using initial_sys_ok(1) [of e]
  by (simp add: conc_inv_def initial_conc_def queued_def places_ok_def)
    (simp add: initial_sys_def)

section \<open>What the sections do to the places\<close>

lemma connect_frame:
  assumes "mux_wf s" and "connect sender t s = (Inr (), s')"
    and "registers sender s \<longrightarrow> usable_fd (sender_fd sender s)"
  shows "queued s' = queued s" and "completions s' = completions s"
    and "length (demux s) \<le> length (demux s')" and "\<And>t'. t' \<noteq> t \<Longrightarrow> ops s' t' = ops s t'"
    and "\<exists>op. ops s' t = Some op \<and> \<not> op_armed op"
proof -
  have len: "length (demux s) \<le> 2 ^ 31" using assms(1) by (simp add: mux_wf_def)
  have "queued s' = queued s \<and> completions s' = completions s \<and> length (demux s) \<le> length (demux s') \<and>
      (\<forall>t'. t' \<noteq> t \<longrightarrow> ops s' t' = ops s t') \<and> (\<exists>op. ops s' t = Some op \<and> \<not> op_armed op)"
  proof (cases "registers sender s")
    case True
    let ?n = "nat (sender_fd sender s) + 1 - length (demux s)"
    have s': "demux s' = demux s @ replicate ?n empty_demultiplexer"
      using connect_registering [OF True _ len, of t] assms(2,3) True by auto
    have "queued s' = queued s"
    proof (intro set_eqI)
      fix x
      have "(\<exists>i tr. i < length (demux s') \<and> x \<in> set (queue_of tr (demux s' ! i))) \<longleftrightarrow>
          (\<exists>i tr. i < length (demux s) \<and> x \<in> set (queue_of tr (demux s ! i)))"
        unfolding s' by (metis empty_demultiplexer_ok(2) empty_iff grown_nth length_append list.set(1)
            trans_less_add1)
      then show "x \<in> queued s' \<longleftrightarrow> x \<in> queued s" by (simp add: queued_def)
    qed
    then show ?thesis
      using connect_registering [OF True _ len, of t] assms(2,3) True by auto
  next
    case False
    then show ?thesis
      using connect_not_registering [OF False, of t] assms(2) by (auto simp: queued_def)
  qed
  then show "queued s' = queued s" "completions s' = completions s"
    "length (demux s) \<le> length (demux s')" "\<And>t'. t' \<noteq> t \<Longrightarrow> ops s' t' = ops s t'"
    "\<exists>op. ops s' t = Some op \<and> \<not> op_armed op" by blast+
qed

lemma complete_frame:
  assumes "complete no_reaction t s = Some (Inr (), s')"
  shows "\<exists>x e. s' = s\<lparr>sys_env := e, completions := completions s @ [(t, x)]\<rparr>"
  using assms
  by (auto simp: complete_def deliver_def no_reaction_def Let_def
      split: option.splits if_splits sum.splits prod.splits) (metis sys.surjective sys.update_convs(1,5))+

lemma ready_of_iff:
  "t \<in> set (ready_of revs d) \<longleftrightarrow>
     (\<exists>tr. t \<in> set (queue_of tr d) \<and> (tr = WRITE \<and> takes_write revs \<or> tr = READ \<and> takes_read revs))"
  by (auto simp: ready_of_def intro: exI [of _ WRITE] exI [of _ READ])

lemma queued_dispatch:
  assumes wf: "mux_wf s" and dist: "distinct (map fd evs)" and run: "dispatch os evs [] s = (Inr ready, s')"
  shows "queued s = queued s' \<union> set ready" and "queued s' \<inter> set ready = {}"
proof -
  let ?d = "\<lambda>ev. demux s ! nat (fd ev)"
  note res = dispatch_result [OF run dist]
  have fds: "\<forall>ev \<in> set evs. 0 \<le> fd ev \<and> nat (fd ev) < length (demux s)"
    and ready: "set ready = (\<Union>ev \<in> set evs. set (ready_of (revents ev) (?d ev)))"
    and len: "length (demux s') = length (demux s)" and ds: "demux s' = dispatched evs (demux s)"
    using res by auto
  have at_event: "demux s' ! nat (fd ev) = drained (revents ev) (?d ev)" if "ev \<in> set evs" for ev
    unfolding ds using dispatched_event [OF dist fds that] .
  have elsewhere: "demux s' ! i = demux s ! i" if "i \<notin> (\<lambda>ev. nat (fd ev)) ` set evs" for i
    unfolding ds using dispatched_other [OF that] .
  have kept: "set (queue_of tr (demux s' ! i)) \<subseteq> set (queue_of tr (demux s ! i))" for i tr
    using at_event elsewhere by (cases "i \<in> (\<lambda>ev. nat (fd ev)) ` set evs") (auto simp: queue_of_drained split: if_splits)
  show "queued s = queued s' \<union> set ready"
  proof
    have "queued s' \<subseteq> queued s" using kept unfolding queued_def len by blast
    moreover have "set ready \<subseteq> queued s"
      using fds unfolding queued_def ready by (auto dest!: set_ready_of)
    ultimately show "queued s' \<union> set ready \<subseteq> queued s" by blast
    show "queued s \<subseteq> queued s' \<union> set ready"
    proof
      fix t assume "t \<in> queued s"
      then obtain i tr where i: "i < length (demux s)" "t \<in> set (queue_of tr (demux s ! i))"
        by (auto simp: queued_def)
      show "t \<in> queued s' \<union> set ready"
      proof (cases "i \<in> (\<lambda>ev. nat (fd ev)) ` set evs")
        case True
        then obtain ev where ev: "ev \<in> set evs" "i = nat (fd ev)" by blast
        then have "t \<in> set (queue_of tr (demux s' ! i)) \<or> t \<in> set (ready_of (revents ev) (?d ev))"
          using i(2) at_event [OF ev(1)] unfolding ready_of_iff by (auto simp: queue_of_drained)
        then show ?thesis using i(1) ev unfolding queued_def len ready by blast
      next
        case False
        then have "t \<in> set (queue_of tr (demux s' ! i))" using i elsewhere by simp
        then show ?thesis using i(1) unfolding queued_def len by blast
      qed
    qed
  qed
  show "queued s' \<inter> set ready = {}"
  proof (rule ccontr)
    assume "queued s' \<inter> set ready \<noteq> {}"
    then obtain t i tr ev where i: "i < length (demux s)" "t \<in> set (queue_of tr (demux s' ! i))"
      and ev: "ev \<in> set evs" "t \<in> set (ready_of (revents ev) (?d ev))"
      unfolding queued_def ready len by blast
    from ev(2) obtain tr' where tr': "t \<in> set (queue_of tr' (?d ev))"
      "tr' = WRITE \<and> takes_write (revents ev) \<or> tr' = READ \<and> takes_read (revents ev)"
      unfolding ready_of_iff by blast
    have "i = nat (fd ev) \<and> tr = tr'"
      using queues_disjoint [OF wf i(1) _ _ tr'(1)] fds ev(1) kept i(2) by blast
    with at_event [OF ev(1)] tr'(2) i(2) show False by (auto simp: queue_of_drained split: if_splits)
  qed
qed

text \<open>
  The critical section throws at the first event that does; the events before it have been handled. So the
  steps \<open>dispatching\<close> and \<open>throwing\<close> are all that can come of it.
\<close>

lemma dispatch_append:
  "dispatch os (pre @ post) ready s =
     (case dispatch os pre ready s of (Inl y, s1) \<Rightarrow> (Inl y, s1) | (Inr ready1, s1) \<Rightarrow> dispatch os post ready1 s1)"
  by (induction pre arbitrary: ready s) (auto simp: Let_def split: prod.splits sum.splits)

lemma dispatch_throws_iff:
  "dispatch os evs ready s = (Inl x, s') \<longleftrightarrow>
     (\<exists>pre ev post ready1 s1. evs = pre @ ev # post \<and> dispatch os pre ready s = (Inr ready1, s1) \<and>
        dispatch os [ev] ready1 s1 = (Inl x, s'))" (is "?throws \<longleftrightarrow> ?split")
proof
  show ?throws if ?split
  proof -
    from that obtain pre ev post ready1 s1 where evs: "evs = pre @ [ev] @ post"
      "dispatch os pre ready s = (Inr ready1, s1)" "dispatch os [ev] ready1 s1 = (Inl x, s')" by auto
    show ?thesis unfolding evs(1) dispatch_append [of os pre] dispatch_append [of os "[ev]"] evs(2,3)
      by (simp add: evs(3) del: dispatch.simps(2))
  qed
  show ?split if ?throws
    using that
  proof (induction evs arbitrary: ready s)
    case (Cons ev evs)
    obtain r s1 where r: "dispatch os [ev] ready s = (r, s1)" by fastforce
    show ?case
    proof (cases r)
      case (Inl y)
      then have "dispatch os [ev] ready s = (Inl x, s')"
        using Cons.prems dispatch_append [of os "[ev]" evs ready s] r by (simp del: dispatch.simps(2))
      then show ?thesis by (metis append_Nil dispatch.simps(1))
    next
      case (Inr ready1)
      then have "dispatch os evs ready1 s1 = (Inl x, s')"
        using Cons.prems dispatch_append [of os "[ev]" evs ready s] r by (simp del: dispatch.simps(2))
      from Cons.IH [OF this] obtain pre a post ready2 s2 where evs: "evs = pre @ a # post"
        "dispatch os pre ready1 s1 = (Inr ready2, s2)" "dispatch os [a] ready2 s2 = (Inl x, s')" by blast
      moreover have "dispatch os (ev # pre) ready s = (Inr ready2, s2)"
        using dispatch_append [of os "[ev]" pre ready s] r Inr evs(2) by (simp del: dispatch.simps(2))
      ultimately show ?thesis by (metis append_Cons)
    qed
  qed simp
qed

lemma dispatch_one_throws:
  assumes "dispatch os [ev] ready s = (Inl x, s')"
  shows "\<exists>e. s' = s\<lparr>sys_env := e, ilist := clear_event ev (ilist s)\<rparr>"
  using assms
  by (auto simp: prepare_handles_def Let_def split: if_splits option.splits prod.splits sum.splits)
    (metis sys.surjective sys.update_convs(1,3))+

section \<open>The invariant is kept\<close>

lemma start_frame:
  assumes wf: "mux_wf s" and run: "start no_reaction t s = Some (Inr (), s')"
    and idle: "\<forall>op. ops s t = Some op \<longrightarrow> \<not> op_armed op"
  shows "mux_wf s' \<and> (\<forall>t'. t' \<noteq> t \<longrightarrow> ops s' t' = ops s t') \<and> ops s' t \<noteq> None \<and>
    length (demux s') = length (demux s) \<and>
    (queued s' = insert t (queued s) \<and> completions s' = completions s \<or>
     queued s' = queued s \<and> (\<exists>x. completions s' = completions s @ [(t, x)]) \<and>
       (\<forall>op. ops s' t = Some op \<longrightarrow> \<not> op_armed op))"
proof -
  obtain self where self: "ops s t = Some self" using run by (auto simp: start_def split: option.splits)
  show ?thesis
  proof (cases "op_trigger self = EAGER \<or> failed (get_error (op_socket self) (sys_env s))")
    case True
    then have "complete no_reaction t s = Some (Inr (), s')"
      using run self by (simp add: start_def Let_def)
    from complete_frame [OF this] show ?thesis
      using wf self idle by (auto simp: mux_wf_frame queued_def)
  next
    case False
    then obtain i where i: "op_demux self = Some i"
      using run self by (auto simp: start_def Let_def split: option.splits)
    with False self idle have st: "startable t self i s" by (simp add: startable_def)
    let ?d = "enqueue (op_trigger self) t (op_socket self) (demux s ! i)"
    have s': "s' = s\<lparr>demux := (demux s)[i := ?d], ops := (ops s)(t \<mapsto> self\<lparr>op_armed := True\<rparr>)\<rparr>"
      using run start_queues [OF st, of no_reaction] by simp
    have il: "i < length (demux s)" using wf self i by (auto simp: mux_wf_def)
    have tr: "op_trigger self \<noteq> EAGER" using False by simp
    have nth': "demux s' ! j = (if j = i then ?d else demux s ! j)" for j
      using s' il by (cases "j = i") auto
    have at_i: "queue_of tr ?d = (if tr = op_trigger self then queue_of tr (demux s ! i) @ [t]
        else queue_of tr (demux s ! i))" for tr
      using queue_of_enqueue(1) [OF tr] by auto
    have len: "length (demux s') = length (demux s)" using s' by simp
    have "queued s' = insert t (queued s)"
    proof (intro set_eqI iffI)
      fix x assume "x \<in> queued s'"
      then obtain j tr where j: "j < length (demux s)" "x \<in> set (queue_of tr (demux s' ! j))"
        unfolding queued_def len by blast
      then have "x = t \<or> x \<in> set (queue_of tr (demux s ! j))"
        unfolding nth' by (auto simp: at_i split: if_splits)
      with j(1) show "x \<in> insert t (queued s)" unfolding queued_def by blast
    next
      fix x assume "x \<in> insert t (queued s)"
      then consider "x = t" | j tr where "j < length (demux s)" "x \<in> set (queue_of tr (demux s ! j))"
        unfolding queued_def by blast
      then obtain j tr where "j < length (demux s)" "x \<in> set (queue_of tr (demux s' ! j))"
      proof cases
        case 1
        have "t \<in> set (queue_of (op_trigger self) (demux s' ! i))" unfolding nth' by (simp add: at_i)
        with 1 il show thesis using that by blast
      next
        case (2 j tr)
        then have "x \<in> set (queue_of tr (demux s' ! j))" unfolding nth' by (auto simp: at_i)
        with 2(1) show thesis using that by blast
      qed
      then show "x \<in> queued s'" unfolding queued_def len by blast
    qed
    moreover have "mux_wf s'" using start_wf [OF wf st, of no_reaction] run by auto
    ultimately show ?thesis using s' by simp
  qed
qed

lemma taken_update: "(\<lambda>v. taken ((ws(w := x)) v)) = (\<lambda>v. taken (ws v))(w := taken x)"
  by auto

text \<open>A step of one waiter that only moves operations between their places.\<close>

lemma conc_inv_waiter:
  assumes inv: "conc_inv c" and wf: "mux_wf s'" and same: "ops s' = ops (shared c)"
    and len: "length (demux s') = length (demux (shared c))"
    and places: "places_ok (started c) (queued s') (map fst (completions s'))
      ((\<lambda>w. taken (waiters c w))(w := taken x))"
    and lists: "distinct (map fd (polled x)) \<and>
      (\<forall>f \<in> fd ` set (polled x). 0 \<le> f \<and> nat f < length (demux (shared c)))"
  shows "conc_inv (c\<lparr>shared := s', waiters := (waiters c)(w := x)\<rparr>)"
proof -
  have "places_ok (started c) (queued s') (map fst (completions s')) (\<lambda>v. taken (((waiters c)(w := x)) v))"
    using places by (simp only: taken_update)
  moreover have "\<forall>v. distinct (map fd (polled (((waiters c)(w := x)) v))) \<and>
      (\<forall>f \<in> fd ` set (polled (((waiters c)(w := x)) v)). 0 \<le> f \<and> nat f < length (demux s'))"
    using inv lists len by (simp add: conc_inv_def)
  ultimately show ?thesis
    using inv wf same unfolding conc_inv_def by (simp del: fun_upd_apply)
qed

lemma subseq_subset: "subseq xs ys \<Longrightarrow> set xs \<subseteq> set ys"
  by (induction rule: list_emb.induct) auto

lemma subseq_distinct: "subseq xs ys \<Longrightarrow> distinct ys \<Longrightarrow> distinct xs"
  by (induction rule: list_emb.induct) (auto dest: subseq_subset)

lemma conc_inv_step:
  assumes step: "conc_step os c c'" and inv: "conc_inv c"
  shows "conc_inv c'"
proof -
  let ?q = "queued (shared c)" and ?d = "map fst (completions (shared c))"
  let ?tk = "\<lambda>w. taken (waiters c w)"
  have wf: "mux_wf (shared c)" and places: "places_ok (started c) ?q ?d ?tk"
    and alive: "\<forall>t \<in> started c. ops (shared c) t \<noteq> None"
    and armed: "\<And>t op. ops (shared c) t = Some op \<Longrightarrow> op_armed op \<Longrightarrow> t \<in> started c"
    and polled: "\<And>w. distinct (map fd (polled (waiters c w))) \<and>
        (\<forall>f \<in> fd ` set (polled (waiters c w)). 0 \<le> f \<and> nat f < length (demux (shared c)))"
    using inv by (auto simp: conc_inv_def)
  from step show ?thesis
  proof cases
    case (connecting t sender s')
    note frame = connect_frame [OF wf connecting(4,3)]
    have "mux_wf s'" using connect_wf [OF wf connecting(2), of sender] connecting(3,4) by simp
    moreover have "t \<notin> started c" using alive connecting(2) by blast
    moreover have "\<forall>f \<in> fd ` set (polled (waiters c w)). 0 \<le> f \<and> nat f < length (demux s')" for w
      using polled [of w] frame(3) by (meson less_le_trans)
    moreover have "t' \<in> started c" if "ops s' t' = Some op" "op_armed op" for t' op
      using that armed frame(4) [of t'] frame(5) by (cases "t' = t") auto
    moreover have "ops s' t' \<noteq> None" if "t' \<in> started c" for t'
      using that alive frame(4) [of t'] frame(5) by (cases "t' = t") auto
    ultimately show ?thesis
      using places polled frame(1,2) connecting(1) unfolding conc_inv_def by simp
  next
    case (starting t s')
    have "\<forall>op. ops (shared c) t = Some op \<longrightarrow> \<not> op_armed op" using armed starting(2) by blast
    note frame = start_frame [OF wf starting(3) this]
    have "places_ok (insert t (started c)) (queued s') (map fst (completions s')) ?tk"
      using frame places_start_queued [OF places starting(2)] places_start_done [OF places starting(2)]
      by (elim conjE disjE exE) (simp_all only: list.map map_append fst_conv)
    moreover have "t' \<in> insert t (started c)" if "ops s' t' = Some op" "op_armed op" for t' op
      using that armed frame by (cases "t' = t") auto
    moreover have "ops s' t' \<noteq> None" if "t' \<in> insert t (started c)" for t'
      using that alive frame by (cases "t' = t") auto
    ultimately show ?thesis
      using frame polled starting(1) unfolding conc_inv_def by simp
  next
    case (copying w)
    have "ilist_ok (ilist (shared c)) (length (demux (shared c)))" using wf by (simp add: mux_wf_def)
    then have "distinct (map fd (copy_active (ilist (shared c))))"
      "\<forall>f \<in> fd ` set (copy_active (ilist (shared c))). 0 \<le> f \<and> nat f < length (demux (shared c))"
      using copy_active_distinct [of "ilist (shared c)"] by (auto simp: ilist_ok_def copy_active_def)
    then show ?thesis
      using conc_inv_waiter [OF inv wf refl refl, of w "Polling (copy_active (ilist (shared c)))"]
        places_update [of ?tk w "[]"] places copying by simp
  next
    case (polling w l evs)
    have sub: "subseq (map fd evs) (map fd l)" using polling(3) by (simp add: poll_report_def)
    have "distinct (map fd l)" using polled [of w] polling(2) by simp
    then have "distinct (map fd evs)" by (rule subseq_distinct [OF sub])
    moreover have "fd ` set evs \<subseteq> fd ` set l" using subseq_subset [OF sub] by simp
    ultimately have "distinct (map fd evs) \<and>
        (\<forall>f \<in> fd ` set evs. 0 \<le> f \<and> nat f < length (demux (shared c)))"
      using polled [of w] polling(2) by (metis polled.simps(1) subsetD)
    then show ?thesis
      using conc_inv_waiter [OF inv wf refl refl, of w "Events evs"]
        places_update [of ?tk w "[]"] places polling by simp
  next
    case (dispatching w evs ready s')
    have evs: "distinct (map fd evs)" using polled [of w] dispatching(2) by simp
    note res = dispatch_result [OF dispatching(3) evs] and q = queued_dispatch [OF wf evs dispatching(3)]
    have "distinct ready" using res ready_distinct [OF wf evs] by simp
    then have "places_ok (started c) (queued s') ?d (?tk(w := ready))"
      using places_taken [of "started c" "queued s'" ready ?d ?tk w] places q dispatching(2) by simp
    moreover have "mux_wf s'" by (rule dispatch_wf [OF dispatching(3) evs wf])
    moreover have "ops s' = ops (shared c)" "completions s' = completions (shared c)"
      "length (demux s') = length (demux (shared c))" using res by auto
    ultimately show ?thesis
      using conc_inv_waiter [OF inv, of s' w "Running ready"] dispatching(1) by simp
  next
    case (throwing w evs ev later ready s1 x s')
    have evs: "distinct (map fd evs)" using polled [of w] throwing(2) by simp
    note res = dispatch_result [OF throwing(3) evs] and q = queued_dispatch [OF wf evs throwing(3)]
    from dispatch_one_throws [OF throwing(4)] obtain e where
      s': "s' = s1\<lparr>sys_env := e, ilist := clear_event ev (ilist s1)\<rparr>" by blast
    have "distinct ready" using res ready_distinct [OF wf evs] by simp
    moreover have same: "queued s' = queued s1" by (simp add: s' queued_def)
    ultimately have "places_ok (started c) (queued s') ?d (?tk(w := ready))"
      using places_taken [of "started c" "queued s1" ready ?d ?tk w] places q throwing(2) by simp
    moreover have "mux_wf s'"
      using dispatch_wf [OF throwing(3) evs wf] ilist_ok_clear by (simp add: s' mux_wf_def)
    moreover have "ops s' = ops (shared c)" "completions s' = completions (shared c)"
      "length (demux s') = length (demux (shared c))" using res by (auto simp: s')
    ultimately show ?thesis
      using conc_inv_waiter [OF inv, of s' w "Threw ready"] throwing(1) by simp
  next
    case (executing w t ts s')
    from complete_frame [OF executing(3)] obtain x e where
      s': "s' = (shared c)\<lparr>sys_env := e, completions := completions (shared c) @ [(t, x)]\<rparr>" by blast
    have "places_ok (started c) ?q (?d @ [t]) (?tk(w := ts))"
      using places_executed [OF places, of w] executing(2) by simp
    moreover have "queued s' = ?q" by (simp add: s' queued_def)
    ultimately show ?thesis
      using conc_inv_waiter [OF inv, of s' w "Running ts"] wf executing(1)
      by (simp add: s' mux_wf_frame)
  next
    case (returning w)
    then show ?thesis
      using conc_inv_waiter [OF inv wf refl refl, of w Idle] places_update [of ?tk w "[]"] places by simp
  qed
qed

lemma reachable_inv: "reachable os e c \<Longrightarrow> conc_inv c"
  by (induction rule: rtranclp_induct) (auto intro: initial_conc_inv conc_inv_step)

text \<open>No started operation leaves its places, and there are only finitely many.\<close>

definition pending :: "('v, 'w) conc \<Rightarrow> tid set" where
  "pending c = queued (shared c) \<union> (\<Union>w. set (taken (waiters c w)))"

lemma pending_split:
  "pending c = queued (shared c) \<union> set (taken (waiters c w)) \<union> (\<Union>v \<in> - {w}. set (taken (waiters c v)))"
proof -
  have "(\<Union>v. set (taken (waiters c v))) = (\<Union>v \<in> insert w (- {w}). set (taken (waiters c v)))"
    by (metis Compl_partition2 insert_is_Un sup_commute)
  then show ?thesis by (simp add: pending_def Un_assoc)
qed

lemma places_step:
  assumes step: "conc_step os c c'" and inv: "conc_inv c"
    and all: "started c = pending c \<union> fst ` set (completions (shared c))"
  shows "started c' = pending c' \<union> fst ` set (completions (shared c'))"
  using step
proof cases
  case (connecting t sender s')
  then show ?thesis
    using all connect_frame(1,2) [OF _ connecting(4,3)] inv by (simp add: pending_def conc_inv_def)
next
  case (starting t s')
  have "\<forall>op. ops (shared c) t = Some op \<longrightarrow> \<not> op_armed op" and "mux_wf (shared c)"
    using inv starting(2) by (auto simp: conc_inv_def)
  from start_frame [OF this(2) starting(3) this(1)] show ?thesis
    using all starting(1) by (auto simp: pending_def)
next
  case (dispatching w evs ready s')
  have evs: "distinct (map fd evs)" and wf: "mux_wf (shared c)"
    using inv dispatching(2) by (simp_all add: conc_inv_def) (metis polled.simps(2))
  have "completions s' = completions (shared c)" using dispatch_result [OF dispatching(3) evs] by auto
  then show ?thesis
    using all dispatching(1,2) queued_dispatch(1) [OF wf evs dispatching(3)]
    unfolding pending_split [of c w] pending_split [of c' w] by auto
next
  case (throwing w evs ev later ready s1 x s')
  have evs: "distinct (map fd evs)" and wf: "mux_wf (shared c)"
    using inv throwing(2) by (simp_all add: conc_inv_def) (metis polled.simps(2) distinct_append map_append)
  from dispatch_one_throws [OF throwing(4)] obtain e where
    s': "s' = s1\<lparr>sys_env := e, ilist := clear_event ev (ilist s1)\<rparr>" by blast
  have "completions s' = completions (shared c)" using dispatch_result [OF throwing(3) evs] by (auto simp: s')
  moreover have "queued s' = queued s1" by (simp add: s' queued_def)
  ultimately show ?thesis
    using all throwing(1,2) queued_dispatch(1) [OF wf evs throwing(3)]
    unfolding pending_split [of c w] pending_split [of c' w] by auto
next
  case (executing w t ts s')
  from complete_frame [OF executing(3)] obtain x e where
    "s' = (shared c)\<lparr>sys_env := e, completions := completions (shared c) @ [(t, x)]\<rparr>" by blast
  then show ?thesis
    using all executing(1,2) unfolding pending_split [of c w] pending_split [of c' w]
    by (auto simp: queued_def)
next
  case (copying w)
  then show ?thesis using all unfolding pending_split [of c w] pending_split [of c' w] by simp
next
  case (polling w l evs)
  then show ?thesis using all unfolding pending_split [of c w] pending_split [of c' w] by simp
next
  case (returning w)
  then show ?thesis using all unfolding pending_split [of c w] pending_split [of c' w] by simp
qed

lemma reachable_places:
  assumes "reachable os e c"
  shows "started c = pending c \<union> fst ` set (completions (shared c)) \<and> finite (started c)"
  using assms
proof (induction rule: rtranclp_induct)
  case base
  then show ?case by (simp add: initial_conc_def initial_sys_def pending_def queued_def)
next
  case (step c c')
  have "started c' = started c \<or> (\<exists>t. started c' = insert t (started c))"
    using step.hyps(2) by cases auto
  then have "finite (started c')" using step.IH by (metis finite_insert)
  then show ?case
    using places_step [OF step.hyps(2) reachable_inv [OF step.hyps(1)]] step.IH by blast
qed

lemma pending_not_completed:
  assumes "reachable os e c"
  shows "pending c \<inter> fst ` set (completions (shared c)) = {}"
  using reachable_inv [OF assms] unfolding conc_inv_def places_ok_def pending_def
  by (auto simp: disjoint_iff) (metis fst_conv imageI)

lemma step_advances:
  assumes step: "conc_step os c c'" and inv: "conc_inv c"
  shows "queued (shared c) \<subseteq> queued (shared c') \<union> (\<Union>w. set (taken (waiters c' w))) \<and>
    (\<forall>w. set (taken (waiters c w)) \<subseteq> set (taken (waiters c' w)) \<union> fst ` set (completions (shared c'))) \<and>
    fst ` set (completions (shared c)) \<subseteq> fst ` set (completions (shared c'))"
  using step
proof cases
  case (connecting t sender s')
  then show ?thesis using connect_frame(1,2) [OF _ connecting(4,3)] inv by (simp add: conc_inv_def)
next
  case (starting t s')
  have "\<forall>op. ops (shared c) t = Some op \<longrightarrow> \<not> op_armed op" and "mux_wf (shared c)"
    using inv starting(2) by (auto simp: conc_inv_def)
  from start_frame [OF this(2) starting(3) this(1)] show ?thesis using starting(1) by auto
next
  case (dispatching w evs ready s')
  have evs: "distinct (map fd evs)" and wf: "mux_wf (shared c)"
    using inv dispatching(2) by (simp_all add: conc_inv_def) (metis polled.simps(2))
  have "completions s' = completions (shared c)" using dispatch_result [OF dispatching(3) evs] by auto
  moreover have "set ready \<subseteq> (\<Union>v. set (taken (waiters c' v)))" using dispatching(1) by auto
  ultimately show ?thesis
    using dispatching(1,2) queued_dispatch(1) [OF wf evs dispatching(3)] by auto
next
  case (throwing w evs ev later ready s1 x s')
  have evs: "distinct (map fd evs)" and wf: "mux_wf (shared c)"
    using inv throwing(2) by (simp_all add: conc_inv_def) (metis polled.simps(2) distinct_append map_append)
  from dispatch_one_throws [OF throwing(4)] obtain e where
    s': "s' = s1\<lparr>sys_env := e, ilist := clear_event ev (ilist s1)\<rparr>" by blast
  have "completions s' = completions (shared c)" using dispatch_result [OF throwing(3) evs] by (auto simp: s')
  moreover have "queued s' = queued s1" by (simp add: s' queued_def)
  moreover have "set ready \<subseteq> (\<Union>v. set (taken (waiters c' v)))" using throwing(1) by auto
  ultimately show ?thesis
    using throwing(1,2) queued_dispatch(1) [OF wf evs throwing(3)] by auto
next
  case (executing w t ts s')
  from complete_frame [OF executing(3)] obtain x e where
    "s' = (shared c)\<lparr>sys_env := e, completions := completions (shared c) @ [(t, x)]\<rparr>" by blast
  then show ?thesis using executing(1,2) by (auto simp: queued_def)
qed auto

section \<open>Properties\<close>

text \<open>
  (C1) However the threads interleave, a started operation is in one place: on the queue of its
  descriptor, or on the local queue of one call of \<^verbatim>\<open>wait_for\<close> (for good, when that call has thrown), or
  completed, and in no other; none is completed twice. The multiplexer stays well-formed, so everything queued is a live, started operation.
\<close>

theorem operations_complete_once:
  assumes "reachable os e c"
  shows "distinct (map fst (completions (shared c))) \<and>
    (\<forall>t \<in> queued (shared c). t \<notin> fst ` set (completions (shared c)) \<and> (\<forall>w. t \<notin> set (taken (waiters c w)))) \<and>
    (\<forall>w t. t \<in> set (taken (waiters c w)) \<longrightarrow> t \<notin> fst ` set (completions (shared c)) \<and>
       (\<forall>w'. t \<in> set (taken (waiters c w')) \<longrightarrow> w' = w)) \<and>
    started c = queued (shared c) \<union> (\<Union>w. set (taken (waiters c w))) \<union> fst ` set (completions (shared c)) \<and>
    mux_wf (shared c)"
proof -
  note places = reachable_places [OF assms, unfolded pending_def, THEN conjunct1]
  show ?thesis
    using reachable_inv [OF assms] unfolding places conc_inv_def places_ok_def
    by (auto 0 3 simp: disjoint_iff)
qed

text \<open>
  (C2) Started operations only move forward, whatever step any thread makes next: from the queue of the
  descriptor to the local queue of one call of \<^verbatim>\<open>wait_for\<close>, and from there to the completions; a call that
  has tasks on its local queue and has not thrown gives them up only by completing them. Such a call is
  never blocked by another thread: if the handler of its next task returns, it can complete it.
\<close>

theorem operations_advance:
  assumes "reachable os e c"
  shows "(\<forall>c' t. conc_step os c c' \<longrightarrow>
       (t \<in> queued (shared c) \<longrightarrow> t \<in> queued (shared c') \<or> (\<exists>w. t \<in> set (taken (waiters c' w)))) \<and>
       (\<forall>w. t \<in> set (taken (waiters c w)) \<longrightarrow>
          t \<in> set (taken (waiters c' w)) \<or> t \<in> fst ` set (completions (shared c'))) \<and>
       (t \<in> fst ` set (completions (shared c)) \<longrightarrow> t \<in> fst ` set (completions (shared c')))) \<and>
    (\<forall>w t ts. waiters c w = Running (t # ts) \<longrightarrow>
       (\<exists>op. ops (shared c) t = Some op \<and> (returns op \<longrightarrow>
          (\<exists>c'. conc_step os c c' \<and> waiters c' w = Running ts \<and> t \<in> fst ` set (completions (shared c'))))))"
proof -
  note inv = reachable_inv [OF assms]
  have "\<exists>op. ops (shared c) t = Some op \<and> (returns op \<longrightarrow>
      (\<exists>c'. conc_step os c c' \<and> waiters c' w = Running ts \<and> t \<in> fst ` set (completions (shared c'))))"
    if w: "waiters c w = Running (t # ts)" for w t ts
  proof -
    have "t \<in> started c" using inv w by (auto simp: conc_inv_def places_ok_def dest!: spec [of _ w])
    then obtain op where op: "ops (shared c) t = Some op" using inv by (auto simp: conc_inv_def)
    have "\<exists>c'. conc_step os c c' \<and> waiters c' w = Running ts \<and> t \<in> fst ` set (completions (shared c'))"
      if ret: "returns op"
    proof -
      obtain x e' where run: "complete no_reaction t (shared c) =
          Some (Inr (), deliver no_reaction t x ((shared c)\<lparr>sys_env := e'\<rparr>))"
        using complete_delivers [OF op ret] by blast
      show ?thesis
        by (rule exI, intro conjI, rule executing [OF w run]) (simp_all add: deliver_def no_reaction_def)
    qed
    with op show ?thesis by blast
  qed
  with step_advances [OF _ inv, of os] show ?thesis by blast
qed

text \<open>The steps of the examples: connecting the reader, then a waiter, then starting the reader.\<close>

definition reader_connected :: "(nat, nat) sys" where
  "reader_connected = snd (connect (example_sender READ) 7 (initial_sys example_env))"

definition pollin_3 :: pollfd where
  "pollin_3 = \<lparr>fd = 3, events = POLLIN, revents = POLLIN\<rparr>"

lemma reader_connected_facts:
  "connect (example_sender READ) 7 (initial_sys example_env) = (Inr (), reader_connected)"
  "demux reader_connected = replicate 4 empty_demultiplexer" "mux_wf reader_connected"
  "interest (ilist reader_connected) f = (if f = 3 then POLLIN else 0)"
  "ops reader_connected 7 = Some \<lparr>op_func = (\<lambda>e. Some (Inr (Some 42), e)), op_socket = 0,
     op_demux = Some 3, op_trigger = READ, op_armed = False\<rparr>"
  "sys_env reader_connected = example_env" "completions reader_connected = []"
proof -
  have reg: "registers (example_sender READ) (initial_sys example_env)"
    "usable_fd (sender_fd (example_sender READ) (initial_sys example_env))"
    by (auto simp: example_facts failed_def usable_fd_def)
  note con = connect_registering [OF reg, of 7]
  then have c: "connect (example_sender READ) 7 (initial_sys example_env) = (Inr (), reader_connected)"
    by (simp add: reader_connected_def example_facts)
  then show "connect (example_sender READ) 7 (initial_sys example_env) = (Inr (), reader_connected)" .
  show "mux_wf reader_connected"
    using connect_wf [OF initial_sys_ok(1), of example_env 7 "example_sender READ"] reg(2)
    by (simp add: example_facts reader_connected_def)
  have eq: "reader_connected = (initial_sys example_env)\<lparr>demux := replicate 4 empty_demultiplexer,
      ilist := register \<lparr>fd = 3, events = POLLIN, revents = 0\<rparr> [],
      ops := (ops (initial_sys example_env))(7 \<mapsto> \<lparr>op_func = snd_func (example_sender READ),
        op_socket = snd_socket (example_sender READ), op_demux = Some 3, op_trigger = READ, op_armed = False\<rparr>)\<rparr>"
    using con by (simp add: reader_connected_def example_facts make_poll_event_def)
  have wf: "ilist_wf []" by (simp add: ilist_wf_def)
  show "interest (ilist reader_connected) f = (if f = 3 then POLLIN else 0)"
    by (simp add: eq ilist.look_add [OF wf])
  show "demux reader_connected = replicate 4 empty_demultiplexer" "sys_env reader_connected = example_env"
    "completions reader_connected = []"
    "ops reader_connected 7 = Some \<lparr>op_func = (\<lambda>e. Some (Inr (Some 42), e)), op_socket = 0,
       op_demux = Some 3, op_trigger = READ, op_armed = False\<rparr>"
    by (simp_all add: eq example_sender_def set_sender_def initial_sys_def)
qed

theorem operations_complete_once_witness:
  "mux_wf (shared ((initial_conc example_env :: (nat, nat) conc)\<lparr>shared := reader_connected\<rparr>))"
proof -
  have "conc_step (ticking_os (\<lambda>w. False)) (initial_conc example_env :: (nat, nat) conc)
      ((initial_conc example_env)\<lparr>shared := reader_connected\<rparr>)"
    by (rule connecting [of _ 7 "example_sender READ"])
      (simp_all add: initial_conc_def example_facts usable_fd_def reader_connected_facts)
  then have "reachable (ticking_os (\<lambda>w. False)) example_env
      ((initial_conc example_env :: (nat, nat) conc)\<lparr>shared := reader_connected\<rparr>)" by (rule r_into_rtranclp)
  from operations_complete_once [OF this] show ?thesis by blast
qed

definition event_missed :: "(nat, nat) sys" where
  "event_missed = snd (dispatch (ticking_os (\<lambda>w. False)) [pollin_3] [] reader_connected)"

lemma event_missed_facts:
  "dispatch (ticking_os (\<lambda>w. False)) [pollin_3] [] reader_connected = (Inr [], event_missed)"
  "copy_active (ilist event_missed) = []" "ops event_missed = ops reader_connected"
  "length (demux event_missed) = 4" "sys_env event_missed = example_env"
  "demux event_missed ! 3 = empty_demultiplexer" "completions event_missed = []"
proof -
  have d: "dispatch (ticking_os (\<lambda>w. False)) [pollin_3] [] reader_connected =
      (Inr [], reader_connected\<lparr>ilist := clear_event pollin_3 (ilist reader_connected),
        demux := (replicate 4 empty_demultiplexer)[3 := empty_demultiplexer]\<rparr>)"
    by (simp add: Let_def pollin_3_def reader_connected_facts prepare_handles_no_error pollin_event
        ready_of_def drained_def) (simp add: empty_demultiplexer_def)
  then show "dispatch (ticking_os (\<lambda>w. False)) [pollin_3] [] reader_connected = (Inr [], event_missed)"
    by (simp add: event_missed_def)
  have wf: "ilist_wf (ilist reader_connected)"
    using reader_connected_facts(3) by (simp add: mux_wf_def ilist_ok_def)
  have "interest (clear_event pollin_3 (ilist reader_connected)) f = 0" for f
    unfolding interest_clear_event [OF wf] interest_after_def revents_masks
    by (simp add: reader_connected_facts pollin_3_def pollin_event)
  moreover have "ilist event_missed = clear_event pollin_3 (ilist reader_connected)"
    using d by (simp add: event_missed_def)
  ultimately show "copy_active (ilist event_missed) = []"
    using ilist.act_iff [OF clear_event_wf [OF wf]] by (metis list.set_intros(1) neq_Nil_conv)
  show "ops event_missed = ops reader_connected" "length (demux event_missed) = 4"
    "sys_env event_missed = example_env" "demux event_missed ! 3 = empty_demultiplexer"
    "completions event_missed = []"
    using d by (simp_all add: event_missed_def reader_connected_facts)
qed

lemma reader_connected_active: "\<exists>p. copy_active (ilist reader_connected) = [p] \<and> fd p = 3"
proof -
  let ?l = "copy_active (ilist reader_connected)"
  have wf: "ilist_wf (ilist reader_connected)"
    using reader_connected_facts(3) by (simp add: mux_wf_def ilist_ok_def)
  have nz: "POLLIN \<noteq> 0" by (simp add: POLLIN_def)
  then have "\<exists>p \<in> set ?l. fd p = 3" "\<forall>p \<in> set ?l. fd p = 3"
    using ilist.act_iff [OF wf] by (auto simp: reader_connected_facts) metis
  then have "fd ` set ?l = {3}" by auto
  moreover have "distinct (map fd ?l)" by (rule ilist.act_distinct [OF wf])
  ultimately have "length ?l = 1" using distinct_card [of "map fd ?l"] by simp
  with \<open>fd ` set ?l = {3}\<close> show ?thesis by (cases ?l) auto
qed

text \<open>The reader is connected, and a waiter uses up its event before it is started.\<close>

lemma event_missed_reachable:
  "reachable (ticking_os (\<lambda>w. False)) example_env ((initial_conc example_env :: (nat, nat) conc)\<lparr>shared := event_missed\<rparr>)"
proof -
  let ?os = "ticking_os (\<lambda>w. False)"
  let ?step = "conc_step ?os :: (nat, nat) conc \<Rightarrow> (nat, nat) conc \<Rightarrow> bool"
  let ?c0 = "initial_conc example_env :: (nat, nat) conc"
  let ?l = "copy_active (ilist reader_connected)"
  define at where "at s w = ?c0\<lparr>shared := s, waiters := (\<lambda>_. Idle)(0 := w)\<rparr>" for s w
  have idle: "?c0\<lparr>shared := s\<rparr> = at s Idle" for s
    by (simp add: at_def initial_conc_def fun_eq_iff)
  have "?step ?c0 (?c0\<lparr>shared := reader_connected\<rparr>)"
    by (rule connecting [of _ 7 "example_sender READ"])
      (simp_all add: initial_conc_def example_facts usable_fd_def reader_connected_facts)
  moreover have "?step (at reader_connected Idle) (at reader_connected (Polling ?l))"
    using copying [of "at reader_connected Idle" 0 ?os] by (simp add: at_def)
  moreover have "poll_report ?l [pollin_3]"
    using reader_connected_active by (auto simp: poll_report_def pollin_3_def POLLIN_def)
  then have "?step (at reader_connected (Polling ?l)) (at reader_connected (Events [pollin_3]))"
    using polling [of "at reader_connected (Polling ?l)" 0 ?l "[pollin_3]" ?os] by (simp add: at_def)
  moreover have "?step (at reader_connected (Events [pollin_3])) (at event_missed (Running []))"
    using dispatching [of "at reader_connected (Events [pollin_3])" 0 "[pollin_3]" ?os "[]" event_missed]
      event_missed_facts(1) by (simp add: at_def del: dispatch.simps)
  moreover have "?step (at event_missed (Running [])) (at event_missed Idle)"
    using returning [of "at event_missed (Running [])" 0 ?os] by (simp add: at_def)
  ultimately show ?thesis
    unfolding idle by (meson rtranclp.rtrancl_into_rtrancl rtranclp.rtrancl_refl)
qed

text \<open>
  (C32) A lost wake-up. An operation registers its interest when it is connected but is queued only when
  it is started. If another thread waits in between and the event is reported, the wait clears the
  interest and finds no task; the operation that is started afterwards sits on its queue with nothing
  registered, and every later wait polls an empty list. The interleaving: connect, copy the interest
  list, poll, critical section, return, start.
\<close>

theorem wakeup_lost_between_connect_and_start:
  "\<exists>c :: (nat, nat) conc. reachable (ticking_os (\<lambda>w. False)) example_env c \<and>
     (\<forall>w. waiters c w = Idle) \<and> 7 \<in> queued (shared c) \<and> completions (shared c) = [] \<and>
     copy_active (ilist (shared c)) = []"
proof -
  let ?os = "ticking_os (\<lambda>w. False)"
  let ?c5 = "(initial_conc example_env :: (nat, nat) conc)\<lparr>shared := event_missed\<rparr>"
  let ?op = "\<lparr>op_func = (\<lambda>e. Some (Inr (Some 42), e)), op_socket = 0, op_demux = Some 3,
      op_trigger = READ, op_armed = False\<rparr>"
  let ?s6 = "event_missed\<lparr>demux := (demux event_missed)[3 := enqueue READ 7 0 (demux event_missed ! 3)],
      ops := (ops event_missed)(7 \<mapsto> ?op\<lparr>op_armed := True\<rparr>)\<rparr>"
  let ?c6 = "?c5\<lparr>shared := ?s6, started := insert 7 (started ?c5)\<rparr>"
  have "startable 7 ?op 3 event_missed"
    by (simp add: startable_def event_missed_facts reader_connected_facts failed_def get_error_def example_env_def)
  from start_queues [OF this, of no_reaction] have "start no_reaction 7 (shared ?c5) = Some (Inr (), ?s6)" by simp
  then have "conc_step ?os ?c5 ?c6" by (intro starting) (simp_all add: initial_conc_def)
  with event_missed_reachable have "reachable ?os example_env ?c6" by (rule rtranclp.rtrancl_into_rtrancl)
  moreover have "7 \<in> queued ?s6"
    unfolding queued_def
    by (simp add: event_missed_facts) (rule exI [of _ 3], simp add: event_missed_facts,
        rule exI [of _ READ], simp add: enqueue_def)
  moreover have "completions event_missed = []" by (rule event_missed_facts)
  ultimately show ?thesis
    by (intro exI [of _ ?c6]) (simp add: event_missed_facts initial_conc_def)
qed

text \<open>The same reader when it is started in time: a call of \<^verbatim>\<open>wait_for\<close> takes it off its queue.\<close>

lemma reader_interest:
  "register (make_poll_event 3 READ) [] = [\<lparr>fd = 3, events = POLLIN, revents = 0\<rparr>]"
  by (simp add: register_def update_or_insert_event_def lower_bound_def lower_bound_loop.simps
      make_poll_event_def Let_def)

lemma reader_started: "start no_reaction 7 reader_connected = Some (Inr (), reader_waiting)"
proof -
  let ?op = "\<lparr>op_func = (\<lambda>e. Some (Inr (Some 42), e)), op_socket = 0, op_demux = Some 3, op_trigger = READ, op_armed = False\<rparr>"
  have op: "snd_func (example_sender READ) = op_func ?op" "snd_socket (example_sender READ) = 0"
    "snd_trigger (example_sender READ) = READ"
    by (simp_all add: example_sender_def set_sender_def)
  have reg: "registers (example_sender READ) (initial_sys example_env)"
    "usable_fd (sender_fd (example_sender READ) (initial_sys example_env))"
    by (auto simp: example_facts failed_def usable_fd_def)
  have fd3: "native_fd 0 example_env = 3" by (simp add: native_fd_def to_native_def example_env_def)
  have eq: "reader_connected = (initial_sys example_env)\<lparr>demux := replicate 4 empty_demultiplexer,
      ilist := [\<lparr>fd = 3, events = POLLIN, revents = 0\<rparr>], ops := [7 \<mapsto> ?op]\<rparr>"
    using connect_registering [OF reg, of 7] reader_interest op fd3
    by (simp add: reader_connected_def example_facts) (simp add: initial_sys_def numeral_eq_Suc)
  have "startable 7 ?op 3 reader_connected"
    by (simp add: startable_def reader_connected_facts failed_def get_error_def example_env_def)
  from start_queues [OF this, of no_reaction] show ?thesis
    by (simp add: eq reader_waiting_def numeral_eq_Suc empty_demultiplexer_def enqueue_def)
qed

lemma reader_running_reachable:
  "\<exists>c :: (nat, nat) conc. reachable (ticking_os (\<lambda>w. False)) example_env c \<and> waiters c 0 = Running [7] \<and>
     ops (shared c) = ops reader_waiting"
proof -
  let ?os = "ticking_os (\<lambda>w. False)"
  let ?step = "conc_step ?os :: (nat, nat) conc \<Rightarrow> (nat, nat) conc \<Rightarrow> bool"
  let ?c0 = "initial_conc example_env :: (nat, nat) conc"
  let ?l = "[\<lparr>fd = 3, events = POLLIN, revents = 0\<rparr>]"
  define at where "at s w = \<lparr>shared = s, waiters = (\<lambda>_. Idle)(0 := w), started = {7}\<rparr>" for s :: "(nat, nat) sys" and w
  obtain s' where d: "dispatch ?os [pollin_3] [] reader_waiting = (Inr [7], s')" "ops s' = ops reader_waiting"
    using pollin_event by (auto simp: Let_def pollin_3_def reader_waiting_3 prepare_handles_no_error ready_of_def)
  have "?step ?c0 (?c0\<lparr>shared := reader_connected\<rparr>)"
    by (rule connecting [of _ 7 "example_sender READ"])
      (simp_all add: initial_conc_def example_facts usable_fd_def reader_connected_facts)
  moreover have "(\<lambda>_. Idle)(0 := Idle) = (\<lambda>_ :: nat. Idle)" by auto
  then have "?step (?c0\<lparr>shared := reader_connected\<rparr>) (at reader_waiting Idle)"
    using starting [of 7 "?c0\<lparr>shared := reader_connected\<rparr>" reader_waiting ?os] reader_started
    by (simp add: at_def initial_conc_def)
  moreover have "copy_active (ilist reader_waiting) = ?l"
    by (simp add: reader_waiting_3 copy_active_def POLLIN_def)
  then have "?step (at reader_waiting Idle) (at reader_waiting (Polling ?l))"
    using copying [of "at reader_waiting Idle" 0 ?os] by (simp add: at_def)
  moreover have "poll_report ?l [pollin_3]" by (simp add: poll_report_def pollin_3_def POLLIN_def)
  then have "?step (at reader_waiting (Polling ?l)) (at reader_waiting (Events [pollin_3]))"
    using polling [of "at reader_waiting (Polling ?l)" 0 ?l "[pollin_3]" ?os] by (simp add: at_def)
  moreover have "?step (at reader_waiting (Events [pollin_3])) (at s' (Running [7]))"
    using dispatching [of "at reader_waiting (Events [pollin_3])" 0 "[pollin_3]" ?os "[7]" s'] d(1)
    by (simp add: at_def del: dispatch.simps)
  ultimately have "reachable ?os example_env (at s' (Running [7]))"
    by (meson rtranclp.rtrancl_into_rtrancl rtranclp.rtrancl_refl)
  then show ?thesis using d(2) by (intro exI [of _ "at s' (Running [7])"]) (simp add: at_def)
qed

theorem operations_advance_witness:
  "\<exists>c c' :: (nat, nat) conc. reachable (ticking_os (\<lambda>w. False)) example_env c \<and>
     conc_step (ticking_os (\<lambda>w. False)) c c' \<and> waiters c' 0 = Running [] \<and> 7 \<in> fst ` set (completions (shared c'))"
proof -
  from reader_running_reachable obtain c :: "(nat, nat) conc" where
    c: "reachable (ticking_os (\<lambda>w. False)) example_env c" "waiters c 0 = Running [7]"
      "ops (shared c) = ops reader_waiting" by blast
  have "returns op" if "ops (shared c) 7 = Some op" for op
    using reader_waiting_ops that c(3) by (metis ranI)
  with operations_advance [OF c(1)] c(1,2) show ?thesis by metis
qed

text \<open>
  (C36) Tasks lost to an exception. When the error of one socket cannot be fetched, the critical section of a wait
  throws, and the tasks that an earlier event of the same wait had moved to the local ready queue go with
  it: the wait throws, completes nothing, and the tasks are on no queue of the multiplexer any more, so no
  later wait will run them.
\<close>

theorem throwing_wait_loses_tasks:
  assumes "mux_wf s" and "t \<in> set (ready_of (revents ev1) (demux s ! nat (fd ev1)))"
    and "poll_call os (copy_active (ilist s)) (to_int32 interval) (sys_env s) = Some (Inr [ev1, ev2], e)"
    and "0 \<le> fd ev1" "nat (fd ev1) < length (demux s)" "0 \<le> fd ev2" "nat (fd ev2) < length (demux s)"
    and "fd ev1 \<noteq> fd ev2" and "\<not> has_error (revents ev1)" and "has_error (revents ev2)"
    and "demux_socket (demux s ! nat (fd ev2)) = Some h" and "set_socket_error os h e = (Inl x, e1)"
  shows "\<exists>s'. wait_for os rcv interval s = Some (Inl x, s') \<and> t \<in> queued s \<and> t \<notin> queued s' \<and>
    completions s' = completions s"
proof -
  let ?i = "nat (fd ev1)" and ?j = "nat (fd ev2)"
  let ?d = "drained (revents ev1) (demux s ! ?i)"
  let ?s1 = "s\<lparr>sys_env := e, demux := (demux s)[?i := ?d], ilist := clear_event ev2 (clear_event ev1 (ilist s))\<rparr>"
  have j: "?j \<noteq> ?i" using assms(4,6,8) by (simp add: nat_eq_iff)
  have sock: "demux_socket (demux ?s1 ! ?j) = Some h" using assms(11) j by simp
  have fail: "prepare_handles os (revents ev2) ?j (ready_of (revents ev1) (demux s ! ?i)) ?s1 = (Inl x, ?s1\<lparr>sys_env := e1\<rparr>)"
    using prepare_handles_error [OF assms(10) sock, of os] assms(12) by simp
  have "dispatch os [ev1, ev2] [] (s\<lparr>sys_env := e\<rparr>) = (Inl x, ?s1\<lparr>sys_env := e1\<rparr>)"
    using fail assms(4-7) by (simp add: prepare_handles_no_error [OF assms(9)] Let_def)
  then have "wait_for os rcv interval s = Some (Inl x, ?s1\<lparr>sys_env := e1\<rparr>)"
    using assms(3) by (simp add: wait_for_def)
  moreover obtain tr where tr: "t \<in> set (queue_of tr (demux s ! ?i))"
    "tr = WRITE \<and> takes_write (revents ev1) \<or> tr = READ \<and> takes_read (revents ev1)"
    using assms(2) unfolding ready_of_iff by blast
  moreover have "t \<notin> queued (?s1\<lparr>sys_env := e1\<rparr>)"
  proof
    assume "t \<in> queued (?s1\<lparr>sys_env := e1\<rparr>)"
    then obtain k tr' where k: "k < length (demux s)" "t \<in> set (queue_of tr' ((demux s)[?i := ?d] ! k))"
      by (auto simp: queued_def)
    then have "t \<in> set (queue_of tr' (demux s ! k))"
      by (cases "k = ?i") (auto simp: queue_of_drained split: if_splits)
    then have "k = ?i \<and> tr' = tr" using queues_disjoint [OF assms(1) k(1) assms(5) _ tr(1)] by blast
    then show False using k tr(2) assms(5) by (auto simp: queue_of_drained)
  qed
  ultimately show ?thesis using assms(5) unfolding queued_def by (intro exI [of _ "?s1\<lparr>sys_env := e1\<rparr>"]) auto
qed

text \<open>A reader on descriptor 3, and a socket on descriptor 4 whose error cannot be fetched.\<close>

definition failing_fetch_os :: "nat os" where
  "failing_fetch_os = (ticking_os (\<lambda>w. False))\<lparr>os_getsockopt := (\<lambda>f l k b n w. (- 1, 105, b, n, w)),
     os_poll := (\<lambda>l d w. (int (length l), 0, map (\<lambda>p. p\<lparr>revents := if fd p = 3 then POLLIN else POLLERR\<rparr>) l, w))\<rparr>"

definition two_sockets :: "(nat, nat) sys" where
  "two_sockets = reader_waiting\<lparr>
     demux := demux reader_waiting @ [\<lparr>read_queue = [], write_queue = [], demux_socket = Some 1\<rparr>],
     ilist := ilist reader_waiting @ [\<lparr>fd = 4, events = POLLIN, revents = 0\<rparr>]\<rparr>"

lemma two_sockets_ok: "mux_wf two_sockets"
proof -
  let ?new = "\<lparr>read_queue = [], write_queue = [], demux_socket = Some 1\<rparr>"
  have "queue_of tr ?new = []" for tr by (cases tr) simp_all
  then have "demux_ok (ops reader_waiting) 4 ?new" by (simp add: demux_ok_def)
  moreover have "demux_ok (ops reader_waiting) i (demux reader_waiting ! i)" if "i < 4" for i
    using reader_waiting_ok(1) that by (simp add: mux_wf_def reader_waiting_3)
  ultimately have "demux_ok (ops reader_waiting) i ((demux reader_waiting @ [?new]) ! i)" if "i < 5" for i
    using that by (cases "i = 4") (simp_all add: nth_append reader_waiting_3)
  moreover have "i < 5" if "ops reader_waiting t = Some op" "op_demux op = Some i" for t op i
  proof -
    have "i < 4" using that reader_waiting_ok(1) unfolding mux_wf_def reader_waiting_3(3) by blast
    then show ?thesis by simp
  qed
  ultimately show ?thesis
    by (simp add: mux_wf_def two_sockets_def reader_waiting_3 ilist_ok_def ilist_wf_def)
qed

theorem throwing_wait_loses_tasks_witness:
  "\<exists>s'. wait_for failing_fetch_os no_reaction 100 two_sockets = Some (Inl (System_error 105), s') \<and>
     7 \<in> queued two_sockets \<and> 7 \<notin> queued s' \<and> completions s' = []"
proof -
  let ?l = "[\<lparr>fd = 3, events = POLLIN, revents = 0\<rparr>, \<lparr>fd = 4, events = POLLIN, revents = 0\<rparr>]"
  let ?ev1 = "\<lparr>fd = 3, events = POLLIN, revents = POLLIN\<rparr>" and ?ev2 = "\<lparr>fd = 4, events = POLLIN, revents = POLLERR\<rparr>"
  have nz: "POLLIN \<noteq> 0" "POLLERR \<noteq> 0" "has_error POLLERR"
    by (simp_all add: POLLIN_def POLLERR_def has_error_def)
  let ?s = "poll_start failing_fetch_os ?l (to_int32 100) (sys_env two_sockets)"
  obtain e where "poll_attempt failing_fetch_os ?s = Inl (Inr [?ev1, ?ev2], e)"
    by (auto simp: poll_start_def poll_attempt_def failing_fetch_os_def ticking_os_def Let_def)
  then have "iterate (poll_attempt failing_fetch_os) ?s = Some (Inr [?ev1, ?ev2], e)"
    using iterate_ends [of "poll_attempt failing_fetch_os" 0 ?s] by simp
  moreover have "copy_active (ilist two_sockets) = ?l"
    using nz by (simp add: two_sockets_def reader_waiting_3 copy_active_def)
  ultimately have poll: "poll_call failing_fetch_os (copy_active (ilist two_sockets)) (to_int32 100) (sys_env two_sockets) =
      Some (Inr [?ev1, ?ev2], e)"
    using nz by (simp add: poll_call_def)
  have "\<exists>e1. set_socket_error failing_fetch_os 1 e = (Inl (System_error 105), e1)"
    by (simp add: set_socket_error_def failing_fetch_os_def sync_getsockopt_def run_buffer_sys_def subspan_def
        handle_getsockopt_error_def throw_system_error_def errno_defs)
  then obtain e1 where "set_socket_error failing_fetch_os 1 e = (Inl (System_error 105), e1)" by blast
  with throwing_wait_loses_tasks [OF two_sockets_ok _ poll, of 7 1] nz show ?thesis
    by (auto simp: two_sockets_def reader_waiting_3 nth_append ready_of_def pollin_event)
      (auto simp: reader_waiting_def initial_sys_def)
qed

end
