(* ===== verification/Critical_Section.thy ===== *)
theory Critical_Section
  imports Interleaving
begin

text \<open>
  Why the sections under the mutex of the multiplexer may be treated as single steps. A thread takes the
  mutex (\<^verbatim>\<open>with_lock\<close> of \<^verbatim>\<open>include/io/execution/detail/utilities.hpp\<close>, or a \<^verbatim>\<open>std::lock_guard\<close>), runs its section
  in small steps that interleave with the steps of all other threads, and releases the mutex at the
  end or when a step throws.

  The mutex guards the demultiplexers and the interest list (\<open>guarded\<close>). Each section of
  \<^verbatim>\<open>include/io/execution/impl/poll_multiplexer_impl.hpp\<close> is a list of steps on them and on locals of the
  thread; what a section learns from elsewhere (the descriptor, the outcome of fetching a socket
  error) is part of its description. The locale \<open>critical_sections\<close> is the contract: the steps of a
  section compose to a whole operation.
\<close>

section \<open>Threads and a mutex\<close>

text \<open>A step may throw.\<close>

type_synonym ('g, 'l) micro = "'g \<times> 'l \<Rightarrow> exn option \<times> 'g \<times> 'l"

fun run_micros :: "('g, 'l) micro list \<Rightarrow> ('g, 'l) micro" where
  "run_micros [] gl = (None, gl)"
| "run_micros (f # fs) gl =
     (case f gl of (Some x, gl') \<Rightarrow> (Some x, gl') | (None, gl') \<Rightarrow> run_micros fs gl')"

datatype ('g, 'l) phase = Outside | Inside 'l "('g, 'l) micro list"

text \<open>
  \<open>entered\<close> records the sections in the order in which the mutex was taken, \<open>outcomes\<close> the locals with which the
  threads left them.
\<close>

record ('c, 'g, 'l) locked =
  mem :: 'g
  owner :: "nat option"
  phases :: "nat \<Rightarrow> ('g, 'l) phase"
  entered :: "('c \<times> 'l) list"
  outcomes :: "'l list"

inductive with_lock :: "('c \<Rightarrow> ('g, 'l) micro list) \<Rightarrow> ('c, 'g, 'l) locked \<Rightarrow> ('c, 'g, 'l) locked \<Rightarrow> bool"
  for code where
  acquire:
    "owner c = None \<Longrightarrow> phases c t = Outside \<Longrightarrow>
     with_lock code c (c\<lparr>owner := Some t, phases := (phases c)(t := Inside l (code sec)),
                         entered := entered c @ [(sec, l)]\<rparr>)"
| run:
    "phases c t = Inside l (f # fs) \<Longrightarrow> f (mem c, l) = (None, g, l') \<Longrightarrow>
     with_lock code c (c\<lparr>mem := g, phases := (phases c)(t := Inside l' fs)\<rparr>)"
| throw:
    "phases c t = Inside l (f # fs) \<Longrightarrow> f (mem c, l) = (Some x, g, l') \<Longrightarrow>
     with_lock code c (c\<lparr>mem := g, phases := (phases c)(t := Inside l' [])\<rparr>)"
| release:
    "phases c t = Inside l [] \<Longrightarrow>
     with_lock code c (c\<lparr>owner := None, phases := (phases c)(t := Outside), outcomes := outcomes c @ [l]\<rparr>)"

definition initial_locked :: "'g \<Rightarrow> ('c, 'g, 'l) locked" where
  "initial_locked g = \<lparr>mem = g, owner = None, phases = (\<lambda>_. Outside), entered = [], outcomes = []\<rparr>"

text \<open>The sections one after the other, each as a whole, and the locals each leaves.\<close>

definition in_order :: "('c \<Rightarrow> ('g, 'l) micro) \<Rightarrow> ('c \<times> 'l) list \<Rightarrow> 'g \<Rightarrow> 'g" where
  "in_order whole secs g = fold (\<lambda>(sec, l) g. fst (snd (whole sec (g, l)))) secs g"

fun locals_in_order :: "('c \<Rightarrow> ('g, 'l) micro) \<Rightarrow> ('c \<times> 'l) list \<Rightarrow> 'g \<Rightarrow> 'l list" where
  "locals_in_order whole [] g = []"
| "locals_in_order whole ((sec, l) # secs) g =
     (case whole sec (g, l) of (_, g', l') \<Rightarrow> l' # locals_in_order whole secs g')"

lemma in_order_simps [simp]:
  "in_order whole [] g = g"
  "in_order whole (secs @ [(sec, l)]) g = fst (snd (whole sec (in_order whole secs g, l)))"
  by (simp_all add: in_order_def)

lemma in_order_Cons: "in_order whole ((sec, l) # secs) g = in_order whole secs (fst (snd (whole sec (g, l))))"
  by (simp add: in_order_def)

lemma locals_in_order_append [simp]:
  "locals_in_order whole (secs @ [(sec, l)]) g =
     locals_in_order whole secs g @ [snd (snd (whole sec (in_order whole secs g, l)))]"
  by (induction secs arbitrary: g) (auto simp: in_order_Cons split: prod.splits)

text \<open>What the guarded data and the outcomes will be when the owner, if any, has finished.\<close>

definition settled :: "('c, 'g, 'l) locked \<Rightarrow> 'g" where
  "settled c =
     (case owner c of
        None \<Rightarrow> mem c
      | Some t \<Rightarrow> (case phases c t of
                    Outside \<Rightarrow> mem c
                  | Inside l fs \<Rightarrow> fst (snd (run_micros fs (mem c, l)))))"

definition settled_outcomes :: "('c, 'g, 'l) locked \<Rightarrow> 'l list" where
  "settled_outcomes c = outcomes c @
     (case owner c of
        None \<Rightarrow> []
      | Some t \<Rightarrow> (case phases c t of
                    Outside \<Rightarrow> []
                  | Inside l fs \<Rightarrow> [snd (snd (run_micros fs (mem c, l)))]))"



locale critical_sections =
  fixes code :: "'c \<Rightarrow> ('g, 'l) micro list" and whole :: "'c \<Rightarrow> ('g, 'l) micro"
  assumes whole_code: "run_micros (code sec) gl = whole sec gl"
begin

lemma exclusive_step:
  assumes "with_lock code c c'"
    and "\<And>t. phases c t \<noteq> Outside \<longleftrightarrow> owner c = Some t"
    and "settled c = in_order whole (entered c) g"
    and "settled_outcomes c = locals_in_order whole (entered c) g"
  shows "(\<forall>t. phases c' t \<noteq> Outside \<longleftrightarrow> owner c' = Some t) \<and>
    settled c' = in_order whole (entered c') g \<and> settled_outcomes c' = locals_in_order whole (entered c') g"
  using assms(1)
proof cases
  case (acquire t l sec)
  then show ?thesis using assms(2-4) by (auto simp: settled_def settled_outcomes_def whole_code)
next
  case (run t l f fs h l')
  then have "owner c = Some t" using assms(2) [of t] by simp
  then show ?thesis using run assms(2-4) by (auto simp: settled_def settled_outcomes_def)
next
  case (throw t l f fs x h l')
  then have "owner c = Some t" using assms(2) [of t] by simp
  then show ?thesis using throw assms(2-4) by (auto simp: settled_def settled_outcomes_def)
next
  case (release t l)
  then have "owner c = Some t" using assms(2) [of t] by simp
  moreover from this have "phases c t' = Outside" if "t' \<noteq> t" for t' using that assms(2) [of t'] by auto
  ultimately show ?thesis using release assms(3,4) by (auto simp: settled_def settled_outcomes_def)
qed

lemma serialized:
  assumes "(with_lock code)\<^sup>*\<^sup>* (initial_locked g) c"
  shows "(\<forall>t. phases c t \<noteq> Outside \<longleftrightarrow> owner c = Some t) \<and> settled c = in_order whole (entered c) g \<and>
    settled_outcomes c = locals_in_order whole (entered c) g"
  using assms
proof (induction rule: rtranclp_induct)
  case base
  then show ?case by (simp add: initial_locked_def settled_def settled_outcomes_def)
next
  case (step c c')
  then show ?case using exclusive_step [OF step.hyps(2)] by blast
qed

end

section \<open>The sections of the multiplexer\<close>

record guarded =
  g_demux :: "demultiplexer list"
  g_list :: "pollfd list"

text \<open>The locals: \<^verbatim>\<open>demux_ptr\<close> of \<^verbatim>\<open>connect\<close>, the copied list and the ready queue of \<^verbatim>\<open>wait_for\<close>.\<close>

record section_locals =
  loc_demux :: "nat option"
  loc_list :: "pollfd list"
  loc_ready :: "tid list"

text \<open>
  The sections of \<^verbatim>\<open>connect\<close> (descriptor, trigger), \<^verbatim>\<open>start\<close> (demultiplexer, operation, trigger, socket)
  and \<^verbatim>\<open>wait_for\<close>; the events of the last with what fetching the error of the socket throws, if it is
  fetched and throws.
\<close>

datatype mux_section =
    Sec_connect native_socket_type execution_trigger
  | Sec_start nat tid execution_trigger sid
  | Sec_copy
  | Sec_dispatch "(pollfd \<times> exn option) list"

type_synonym mux_micro = "(guarded, section_locals) micro"

definition grow :: "native_socket_type \<Rightarrow> mux_micro" where
  "grow sockfd = (\<lambda>(g, l).
     if (of_nat (length (g_demux g)) :: size_t) < of_int sockfd + 1
     then if in_int32 (sockfd + 1)
          then case resize (g_demux g) (of_int (sockfd + 1)) of
                 Inl x \<Rightarrow> (Some x, g, l)
               | Inr ds \<Rightarrow> (None, g\<lparr>g_demux := ds\<rparr>, l)
          else (Some (Undefined ''int overflow''), g, l)
     else (None, g, l))"

definition take_demux :: "native_socket_type \<Rightarrow> mux_micro" where
  "take_demux sockfd = (\<lambda>(g, l).
     case at (g_demux g) (of_int sockfd) of
       Inl x \<Rightarrow> (Some x, g, l)
     | Inr i \<Rightarrow> (None, g, l\<lparr>loc_demux := Some i\<rparr>))"

definition add_interest :: "native_socket_type \<Rightarrow> execution_trigger \<Rightarrow> mux_micro" where
  "add_interest sockfd tr = (\<lambda>(g, l).
     (None, g\<lparr>g_list := snd (update_or_insert_event (g_list g) (make_poll_event sockfd tr))\<rparr>, l))"

definition on_demux :: "nat \<Rightarrow> (demultiplexer \<Rightarrow> demultiplexer) \<Rightarrow> mux_micro" where
  "on_demux i f = (\<lambda>(g, l). (None, g\<lparr>g_demux := (g_demux g)[i := f (g_demux g ! i)]\<rparr>, l))"

definition copy_list :: mux_micro where
  "copy_list = (\<lambda>(g, l). (None, g, l\<lparr>loc_list := copy_active (g_list g)\<rparr>))"

definition clear_one :: "pollfd \<Rightarrow> mux_micro" where
  "clear_one ev = (\<lambda>(g, l).
     (if 0 \<le> fd ev \<and> nat (fd ev) < length (g_demux g) then None else Some (Undefined ''demultiplexer index''),
      g\<lparr>g_list := clear_event ev (g_list g)\<rparr>, l))"

definition fetch_error :: "pollfd \<Rightarrow> exn option \<Rightarrow> mux_micro" where
  "fetch_error ev x = (\<lambda>(g, l). (if revents ev AND (POLLERR OR POLLNVAL) \<noteq> 0 then x else None, g, l))"

definition move_writers :: "pollfd \<Rightarrow> mux_micro" where
  "move_writers ev = (\<lambda>(g, l).
     let i = nat (fd ev); d = g_demux g ! i in
     if revents ev AND (POLLOUT OR POLLERR OR POLLNVAL) \<noteq> 0
     then (None, g\<lparr>g_demux := (g_demux g)[i := d\<lparr>write_queue := []\<rparr>]\<rparr>, l\<lparr>loc_ready := loc_ready l @ write_queue d\<rparr>)
     else (None, g, l))"

definition move_readers :: "pollfd \<Rightarrow> mux_micro" where
  "move_readers ev = (\<lambda>(g, l).
     let i = nat (fd ev); d = g_demux g ! i in
     if revents ev AND (POLLIN OR POLLHUP OR POLLERR OR POLLNVAL) \<noteq> 0
     then (None, g\<lparr>g_demux := (g_demux g)[i := d\<lparr>read_queue := []\<rparr>]\<rparr>, l\<lparr>loc_ready := loc_ready l @ read_queue d\<rparr>)
     else (None, g, l))"

fun mux_code :: "mux_section \<Rightarrow> mux_micro list" where
  "mux_code (Sec_connect sockfd tr) = [grow sockfd, take_demux sockfd, add_interest sockfd tr]"
| "mux_code (Sec_start i t tr h) =
     [on_demux i (\<lambda>d. if tr = WRITE then d\<lparr>write_queue := write_queue d @ [t]\<rparr> else d),
      on_demux i (\<lambda>d. if tr = READ then d\<lparr>read_queue := read_queue d @ [t]\<rparr> else d),
      on_demux i (\<lambda>d. d\<lparr>demux_socket := Some h\<rparr>)]"
| "mux_code Sec_copy = [copy_list]"
| "mux_code (Sec_dispatch evs) =
     concat (map (\<lambda>(ev, x). [clear_one ev, fetch_error ev x, move_writers ev, move_readers ev]) evs)"

section \<open>The sections as whole operations\<close>

text \<open>What a critical section does to a multiplexer: it replaces the guarded part of its state.\<close>

definition guarded_of :: "('v, 'w) sys \<Rightarrow> guarded" where
  "guarded_of s = \<lparr>g_demux = demux s, g_list = ilist s\<rparr>"

text \<open>One event: \<open>clear_event\<close> and \<open>prepare_handles\<close> on the guarded data.\<close>

definition take_event :: "pollfd \<times> exn option \<Rightarrow> mux_micro" where
  "take_event = (\<lambda>(ev, x) (g, l).
     let g = g\<lparr>g_list := clear_event ev (g_list g)\<rparr>; i = nat (fd ev); d = g_demux g ! i in
     if 0 \<le> fd ev \<and> nat (fd ev) < length (g_demux g) then
       (case (if has_error (revents ev) then x else None) of
          Some err \<Rightarrow> (Some err, g, l)
        | None \<Rightarrow>
            (None, g\<lparr>g_demux := (g_demux g)[i := drained (revents ev) d]\<rparr>,
             l\<lparr>loc_ready := loc_ready l @ ready_of (revents ev) d\<rparr>))
     else (Some (Undefined ''demultiplexer index''), g, l))"

fun mux_whole :: "mux_section \<Rightarrow> mux_micro" where
  "mux_whole (Sec_connect sockfd tr) (g, l) =
     (case demux_for sockfd (g_demux g) of
        (Inl x, ds) \<Rightarrow> (Some x, g\<lparr>g_demux := ds\<rparr>, l)
      | (Inr i, ds) \<Rightarrow>
          (None, \<lparr>g_demux = ds, g_list = snd (update_or_insert_event (g_list g) (make_poll_event sockfd tr))\<rparr>,
           l\<lparr>loc_demux := Some i\<rparr>))"
| "mux_whole (Sec_start i t tr h) (g, l) =
     (None, g\<lparr>g_demux := (g_demux g)[i :=
        \<lparr>read_queue = read_queue (g_demux g ! i) @ (if tr = READ then [t] else []),
         write_queue = write_queue (g_demux g ! i) @ (if tr = WRITE then [t] else []),
         demux_socket = Some h\<rparr>]\<rparr>, l)"
| "mux_whole Sec_copy (g, l) = (None, g, l\<lparr>loc_list := copy_active (g_list g)\<rparr>)"
| "mux_whole (Sec_dispatch evs) (g, l) = run_micros (map take_event evs) (g, l)"

lemma run_micros_append:
  "run_micros (fs @ gs) gl =
     (case run_micros fs gl of (Some x, gl') \<Rightarrow> (Some x, gl') | (None, gl') \<Rightarrow> run_micros gs gl')"
  by (induction fs arbitrary: gl) (auto split: prod.splits option.splits)

lemma take_event_code:
  "run_micros [clear_one ev, fetch_error ev x, move_writers ev, move_readers ev] gl = take_event (ev, x) gl"
proof (cases gl)
  case (Pair g l)
  show ?thesis
    unfolding Pair clear_one_def fetch_error_def move_writers_def move_readers_def take_event_def revents_masks
    by (auto simp: Let_def drained_def ready_of_def split: option.splits)
qed

lemma mux_whole_code: "run_micros (mux_code sec) gl = mux_whole sec gl"
proof (cases sec)
  case (Sec_connect sockfd tr)
  then show ?thesis
    by (cases gl; cases "fst gl")
      (auto simp: grow_def take_demux_def add_interest_def demux_for_def Let_def split: sum.splits)
next
  case (Sec_start i t tr h)
  then show ?thesis
    by (cases gl; cases "g_demux (fst gl) ! i"; cases "i < length (g_demux (fst gl))") (auto simp: on_demux_def list_update_beyond)
next
  case Sec_copy
  then show ?thesis by (cases gl) (simp add: copy_list_def)
next
  case (Sec_dispatch evs)
  have "run_micros (mux_code (Sec_dispatch evs)) gl = run_micros (map take_event evs) gl" for gl
  proof (induction evs arbitrary: gl)
    case (Cons e evs)
    obtain ev x where e: "e = (ev, x)" by fastforce
    have "mux_code (Sec_dispatch (e # evs)) =
        [clear_one ev, fetch_error ev x, move_writers ev, move_readers ev] @ mux_code (Sec_dispatch evs)"
      by (simp add: e)
    then show ?case
      unfolding list.map run_micros.simps(2) e using Cons.IH
      by (simp only: run_micros_append take_event_code)
  qed simp
  then show ?thesis using Sec_dispatch by (cases gl) simp
qed

interpretation mux: critical_sections mux_code mux_whole
  by unfold_locales (rule mux_whole_code)

section \<open>The whole operations are those of the multiplexer\<close>

lemma connect_section:
  assumes "registers sender s"
  shows "\<exists>x l'. mux_whole (Sec_connect (sender_fd sender s) (snd_trigger sender)) (guarded_of s, l) =
      (x, guarded_of (snd (connect sender t s)), l') \<and>
    fst (connect sender t s) = (case x of None \<Rightarrow> Inr () | Some y \<Rightarrow> Inl y)"
  using assms
  by (auto simp: connect_def failed_def guarded_of_def Let_def split: prod.splits sum.splits)

lemma start_section:
  assumes "ops s t = Some self" and "op_demux self = Some i"
    and "op_trigger self \<noteq> EAGER" and "\<not> failed (get_error (op_socket self) (sys_env s))"
  shows "\<exists>s'. start rcv t s = Some (Inr (), s') \<and>
    mux_whole (Sec_start i t (op_trigger self) (op_socket self)) (guarded_of s, l) = (None, guarded_of s', l)"
  using assms
  by (cases "demux s ! i") (auto simp: start_def guarded_of_def Let_def)

lemma prepare_handles_throws:
  assumes "prepare_handles os revs i ready s = (Inl x, s')"
  shows "has_error revs" and "guarded_of s' = guarded_of s"
proof -
  show "has_error revs"
    using assms prepare_handles_no_error [of revs os i ready s] by (cases "has_error revs") auto
  then show "guarded_of s' = guarded_of s"
    using assms unfolding prepare_handles_def revents_masks
    by (auto simp: Let_def guarded_of_def split: option.splits prod.splits sum.splits if_splits)
qed

lemma dispatch_section:
  assumes "dispatch os evs ready s = (r, s')"
  shows "\<exists>errs l'. length errs = length evs \<and>
    mux_whole (Sec_dispatch (zip evs errs)) (guarded_of s, l\<lparr>loc_ready := ready\<rparr>) =
      (case r of Inl x \<Rightarrow> Some x | Inr _ \<Rightarrow> None, guarded_of s', l') \<and>
    (\<forall>rdy. r = Inr rdy \<longrightarrow> l' = l\<lparr>loc_ready := rdy\<rparr>)"
  using assms
proof (induction evs arbitrary: ready s)
  case Nil
  then show ?case by auto
next
  case (Cons ev evs)
  let ?s = "s\<lparr>ilist := clear_event ev (ilist s)\<rparr>"
  have g: "guarded_of ?s = (guarded_of s)\<lparr>g_list := clear_event ev (g_list (guarded_of s))\<rparr>"
    "g_demux (guarded_of s) = demux s"
    by (simp_all add: guarded_of_def)
  show ?case
  proof (cases "0 \<le> fd ev \<and> nat (fd ev) < length (demux s)")
    case False
    then have r: "r = Inl (Undefined ''demultiplexer index'')" "s' = ?s" using Cons.prems by auto
    have "take_event (ev, None) (guarded_of s, l\<lparr>loc_ready := ready\<rparr>) =
        (Some (Undefined ''demultiplexer index''), guarded_of ?s, l\<lparr>loc_ready := ready\<rparr>)"
      using False g by (auto simp: take_event_def)
    then show ?thesis
      using r by (intro exI [of _ "replicate (length (ev # evs)) None"]) simp
  next
    case True
    show ?thesis
    proof (cases "prepare_handles os (revents ev) (nat (fd ev)) ready ?s")
      case (Pair p s1)
      show ?thesis
      proof (cases p)
        case (Inl x)
        note prep = prepare_handles_throws [OF Pair [unfolded Inl]]
        have r: "r = Inl x" "s' = s1" using Cons.prems True Pair Inl by auto
        have "take_event (ev, Some x) (guarded_of s, l\<lparr>loc_ready := ready\<rparr>) =
            (Some x, guarded_of s1, l\<lparr>loc_ready := ready\<rparr>)"
          using True prep g by (simp add: take_event_def)
        then show ?thesis
          using r by (intro exI [of _ "replicate (length (ev # evs)) (Some x)"]) simp
      next
        case (Inr ready1)
        note prep = prepare_handles_result [OF Pair [unfolded Inr]]
        have "dispatch os evs ready1 s1 = (r, s')" using Cons.prems True Pair Inr by auto
        then obtain errs l' where IH: "length errs = length evs"
          "run_micros (map take_event (zip evs errs)) (guarded_of s1, l\<lparr>loc_ready := ready1\<rparr>) =
            (case r of Inl x \<Rightarrow> Some x | Inr _ \<Rightarrow> None, guarded_of s', l')"
          "\<forall>rdy. r = Inr rdy \<longrightarrow> l' = l\<lparr>loc_ready := rdy\<rparr>"
          using Cons.IH [of ready1 s1] by auto
        have "take_event (ev, None) (guarded_of s, l\<lparr>loc_ready := ready\<rparr>) =
            (None, guarded_of s1, l\<lparr>loc_ready := ready1\<rparr>)"
          using True prep by (auto simp: take_event_def guarded_of_def Let_def)
        then show ?thesis using IH by (intro exI [of _ "None # errs"]) auto
      qed
    qed
  qed
qed

text \<open>
  The sections run as a whole are what the model of the multiplexer does in one step: the
  demultiplexers and the interest list after \<^verbatim>\<open>connect\<close>, after queueing by \<^verbatim>\<open>start\<close> and after the
  critical section of \<^verbatim>\<open>wait_for\<close> are those that the section leaves, the exceptions are the same, and
  so is the queue of ready tasks.
\<close>

lemma sections_are_operations:
  shows "(registers sender s \<longrightarrow>
      (\<exists>x l'. run_micros (mux_code (Sec_connect (sender_fd sender s) (snd_trigger sender))) (guarded_of s, l) =
         (x, guarded_of (snd (connect sender t s)), l') \<and>
       fst (connect sender t s) = (case x of None \<Rightarrow> Inr () | Some y \<Rightarrow> Inl y))) \<and>
    (\<forall>self i. ops s t = Some self \<and> op_demux self = Some i \<and> op_trigger self \<noteq> EAGER \<and>
        \<not> failed (get_error (op_socket self) (sys_env s)) \<longrightarrow>
      (\<exists>s'. start rcv t s = Some (Inr (), s') \<and>
         run_micros (mux_code (Sec_start i t (op_trigger self) (op_socket self))) (guarded_of s, l) =
           (None, guarded_of s', l))) \<and>
    (\<exists>errs l'. length errs = length evs \<and>
       run_micros (mux_code (Sec_dispatch (zip evs errs))) (guarded_of s, l\<lparr>loc_ready := []\<rparr>) =
         (case fst (dispatch os evs [] s) of Inl x \<Rightarrow> Some x | Inr _ \<Rightarrow> None,
          guarded_of (snd (dispatch os evs [] s)), l') \<and>
       (\<forall>rdy. fst (dispatch os evs [] s) = Inr rdy \<longrightarrow> l' = l\<lparr>loc_ready := rdy\<rparr>))"
  unfolding mux_whole_code
proof (intro conjI impI allI)
  show "\<exists>x l'. mux_whole (Sec_connect (sender_fd sender s) (snd_trigger sender)) (guarded_of s, l) =
      (x, guarded_of (snd (connect sender t s)), l') \<and>
    fst (connect sender t s) = (case x of None \<Rightarrow> Inr () | Some y \<Rightarrow> Inl y)" if "registers sender s"
    using connect_section [OF that] .
  show "\<exists>s'. start rcv t s = Some (Inr (), s') \<and>
      mux_whole (Sec_start i t (op_trigger self) (op_socket self)) (guarded_of s, l) = (None, guarded_of s', l)"
    if "ops s t = Some self \<and> op_demux self = Some i \<and> op_trigger self \<noteq> EAGER \<and>
        \<not> failed (get_error (op_socket self) (sys_env s))" for self i
    using that start_section by blast
qed (rule dispatch_section, simp)

section \<open>Where the tasks are\<close>




lemma sum_list_empties [simp]: "sum_list (replicate n {#}) = {#}"
  by (induction n) simp_all









section \<open>Properties\<close>

text \<open>
  (C10) The sections under the mutex are atomic. However the steps of any number of threads interleave,
  with exceptions in the middle of a section: only the thread that holds the mutex is inside a
  section; while nobody holds it, the demultiplexers and the interest list are what the sections
  entered so far give when each is run as a whole, in the order in which the mutex was taken, and every thread
  has left its section with the locals (the copied list, the ready queue) of that run; and while a thread
  holds it, finishing its section will give that.
\<close>

theorem sections_atomic:
  assumes "(with_lock mux_code)\<^sup>*\<^sup>* (initial_locked g) c"
  shows "(\<forall>t. phases c t \<noteq> Outside \<longleftrightarrow> owner c = Some t) \<and>
    (owner c = None \<longrightarrow> mem c = in_order mux_whole (entered c) g \<and>
       outcomes c = locals_in_order mux_whole (entered c) g) \<and>
    (\<forall>t l fs. owner c = Some t \<and> phases c t = Inside l fs \<longrightarrow>
       fst (snd (run_micros fs (mem c, l))) = in_order mux_whole (entered c) g \<and>
       outcomes c @ [snd (snd (run_micros fs (mem c, l)))] = locals_in_order mux_whole (entered c) g)"
  using mux.serialized [OF assms] by (auto simp: settled_def settled_outcomes_def)

theorem sections_atomic_witness:
  "\<exists>c. (with_lock mux_code)\<^sup>*\<^sup>* (initial_locked \<lparr>g_demux = [], g_list = []\<rparr>) c \<and> owner c = Some 3 \<and>
     phases c 3 \<noteq> Outside \<and> phases c 4 = Outside"
proof -
  let ?l = "\<lparr>loc_demux = None, loc_list = [], loc_ready = []\<rparr>"
  let ?init = "initial_locked \<lparr>g_demux = [], g_list = []\<rparr> :: (mux_section, guarded, section_locals) locked"
  let ?c = "?init\<lparr>owner := Some 3, phases := (phases ?init)(3 := Inside ?l (mux_code Sec_copy)),
      entered := entered ?init @ [(Sec_copy, ?l)]\<rparr>"
  have "with_lock mux_code ?init ?c"
    by (rule with_lock.acquire) (simp_all add: initial_locked_def)
  then have reach: "(with_lock mux_code)\<^sup>*\<^sup>* ?init ?c" by (rule r_into_rtranclp)
  moreover have "owner ?c = Some 3" by simp
  moreover note sections_atomic [OF reach]
  ultimately show ?thesis by (metis option.inject numeral_eq_iff num.distinct(1,5) semiring_norm(86,87,88,89))
qed



end
