(* ===== verification/Async_Operations.thy ===== *)
theory Async_Operations
  imports Multiplexer_Invariant
begin

text \<open>
  The asynchronous side of the library: the executor (\<^verbatim>\<open>include/io/execution/executor.hpp\<close>), the triggers
  that own it (\<^verbatim>\<open>execution/triggers.hpp\<close>), the socket dialog (\<^verbatim>\<open>socket/socket_dialog.hpp\<close> and its
  implementation) and the asynchronous operations (\<^verbatim>\<open>socket/detail/async_operations.hpp\<close>).

  An executor is identified by \<open>eid\<close>; \<open>alive\<close> says which executors still exist, which is what locking
  a weak pointer asks. \<^verbatim>\<open>executor::set\<close> passes the multiplexer's sender through the counting scope of
  the sender library, which forwards connecting, starting and completing; the model is the
  multiplexer's sender. Of a message passed by reference only the \<^verbatim>\<open>flags\<close> member is followed
  (\<open>user_flags\<close>), the member these operations write; the storage its pointers refer to is written by
  the kernel and is part of the world.
\<close>

section \<open>Socket dialogs\<close>

type_synonym eid = nat

record socket_dialog =
  dlg_executor :: eid
  dlg_socket :: "sid option"

definition dialog_to_bool :: "(eid \<Rightarrow> bool) \<Rightarrow> 'w env \<Rightarrow> socket_dialog \<Rightarrow> bool" where
  "dialog_to_bool alive e d \<longleftrightarrow>
     alive (dlg_executor d) \<and> (case dlg_socket d of None \<Rightarrow> False | Some s \<Rightarrow> to_bool (handles e s))"

definition dialog_to_native :: "'w env \<Rightarrow> socket_dialog \<Rightarrow> exn + native_socket_type" where
  "dialog_to_native e d =
     (case dlg_socket d of None \<Rightarrow> Inl Invalid_argument | Some s \<Rightarrow> Inr (to_native (handles e s)))"

definition dialog_compare :: "'w env \<Rightarrow> socket_dialog \<Rightarrow> socket_dialog \<Rightarrow> exn + strong_ordering" where
  "dialog_compare e lhs rhs =
     (case (dlg_socket lhs, dlg_socket rhs) of
        (Some a, Some b) \<Rightarrow> Inr (compare (handles e a) (handles e b))
      | _ \<Rightarrow> Inl Invalid_argument)"

definition dialog_equals :: "'w env \<Rightarrow> socket_dialog \<Rightarrow> socket_dialog \<Rightarrow> exn + bool" where
  "dialog_equals e lhs rhs = map_sum id (\<lambda>r. r = Equal) (dialog_compare e lhs rhs)"

definition dialog_compare_handle :: "'w env \<Rightarrow> socket_dialog \<Rightarrow> socket_handle \<Rightarrow> exn + strong_ordering" where
  "dialog_compare_handle e lhs rhs =
     (case dlg_socket lhs of
        None \<Rightarrow> Inl Invalid_argument
      | Some a \<Rightarrow> Inr (compare (handles e a) rhs))"

definition dialog_equals_handle :: "'w env \<Rightarrow> socket_dialog \<Rightarrow> socket_handle \<Rightarrow> exn + bool" where
  "dialog_equals_handle e lhs rhs = map_sum id (\<lambda>r. r = Equal) (dialog_compare_handle e lhs rhs)"

definition dialog_compare_native ::
  "'w env \<Rightarrow> socket_dialog \<Rightarrow> native_socket_type \<Rightarrow> exn + strong_ordering" where
  "dialog_compare_native e lhs rhs =
     (case dlg_socket lhs of
        None \<Rightarrow> Inl Invalid_argument
      | Some a \<Rightarrow> Inr (compare_native (handles e a) rhs))"

definition dialog_equals_native :: "'w env \<Rightarrow> socket_dialog \<Rightarrow> native_socket_type \<Rightarrow> exn + bool" where
  "dialog_equals_native e lhs rhs = map_sum id (\<lambda>r. r = Equal) (dialog_compare_native e lhs rhs)"

section \<open>Executor\<close>

definition F_GETFL :: int where "F_GETFL = 3"
definition F_SETFL :: int where "F_SETFL = 4"
definition O_NONBLOCK :: int where "O_NONBLOCK = 2048"

text \<open>\<^verbatim>\<open>push\<close> of a shared pointer.\<close>

definition executor_push :: "'w os \<Rightarrow> sid \<Rightarrow> 'w env \<Rightarrow> (exn + sid) \<times> 'w env" where
  "executor_push os s e =
     (let (fl, e1) = sync_fcntl os s F_GETFL [] e;
          (r, e2) = sync_fcntl os s F_SETFL [fl OR O_NONBLOCK] e1
      in if r \<noteq> 0 then throw_system_error e2 else (Inr s, e2))"

text \<open>
  \<^verbatim>\<open>push\<close> of a handle: it is moved into a new shared object, which is destroyed again when the
  configuration throws.
\<close>

definition executor_push_handle :: "'w os \<Rightarrow> sid \<Rightarrow> 'w env \<Rightarrow> (exn + sid) \<times> 'w env" where
  "executor_push_handle os h e =
     (let new = next_sid e;
          e1 = e\<lparr>handles := move_construct new h (handles e), next_sid := Suc new\<rparr>
      in case executor_push os new e1 of
           (Inl x, e2) \<Rightarrow> (Inl x, destroy os new e2)
         | (Inr s, e2) \<Rightarrow> (Inr s, e2))"

text \<open>
  \<^verbatim>\<open>emplace\<close> builds a temporary handle from its arguments (a native socket, or domain, type and
  protocol), pushes it and destroys what is left of it.
\<close>

definition executor_emplace_with ::
  "'w os \<Rightarrow> (sid \<Rightarrow> 'w env \<Rightarrow> (exn + unit) \<times> 'w env) \<Rightarrow> 'w env \<Rightarrow> (exn + sid) \<times> 'w env" where
  "executor_emplace_with os construct e =
     (let tmp = next_sid e in
      case construct tmp (e\<lparr>next_sid := Suc tmp\<rparr>) of
        (Inl x, e1) \<Rightarrow> (Inl x, e1)
      | (Inr _, e1) \<Rightarrow>
          (case executor_push_handle os tmp e1 of (r, e2) \<Rightarrow> (r, destroy os tmp e2)))"

definition executor_emplace_native ::
  "'w os \<Rightarrow> native_socket_type \<Rightarrow> 'w env \<Rightarrow> (exn + sid) \<times> 'w env" where
  "executor_emplace_native os f = executor_emplace_with os (\<lambda>this. construct_native os this f)"

definition executor_emplace_socket ::
  "'w os \<Rightarrow> int \<Rightarrow> int \<Rightarrow> int \<Rightarrow> 'w env \<Rightarrow> (exn + sid) \<times> 'w env" where
  "executor_emplace_socket os domain type protocol =
     executor_emplace_with os (\<lambda>this. construct_socket os this domain type protocol)"

definition executor_set :: "sid \<Rightarrow> execution_trigger \<Rightarrow> ('v, 'w) handler \<Rightarrow> ('v, 'w) sender" where
  "executor_set socket trigger func = set_sender socket trigger func"

definition executor_wait_for ::
  "'w os \<Rightarrow> ('v, 'w) receivers \<Rightarrow> int \<Rightarrow> ('v, 'w) sys \<Rightarrow> (nat, ('v, 'w) sys) outcome" where
  "executor_wait_for os rcv interval s = wait_for os rcv interval s"

definition executor_wait ::
  "'w os \<Rightarrow> ('v, 'w) receivers \<Rightarrow> ('v, 'w) sys \<Rightarrow> (nat, ('v, 'w) sys) outcome" where
  "executor_wait os rcv s = executor_wait_for os rcv (- 1) s"

section \<open>Triggers\<close>

definition triggers_push :: "'w os \<Rightarrow> eid \<Rightarrow> sid \<Rightarrow> 'w env \<Rightarrow> (exn + socket_dialog) \<times> 'w env" where
  "triggers_push os ex s e =
     (case executor_push os s e of
        (Inl x, e') \<Rightarrow> (Inl x, e')
      | (Inr s', e') \<Rightarrow> (Inr \<lparr>dlg_executor = ex, dlg_socket = Some s'\<rparr>, e'))"

definition triggers_emplace_native ::
  "'w os \<Rightarrow> eid \<Rightarrow> native_socket_type \<Rightarrow> 'w env \<Rightarrow> (exn + socket_dialog) \<times> 'w env" where
  "triggers_emplace_native os ex f e =
     (case executor_emplace_native os f e of
        (Inl x, e') \<Rightarrow> (Inl x, e')
      | (Inr s, e') \<Rightarrow> (Inr \<lparr>dlg_executor = ex, dlg_socket = Some s\<rparr>, e'))"

definition triggers_emplace_socket ::
  "'w os \<Rightarrow> eid \<Rightarrow> int \<Rightarrow> int \<Rightarrow> int \<Rightarrow> 'w env \<Rightarrow> (exn + socket_dialog) \<times> 'w env" where
  "triggers_emplace_socket os ex domain type protocol e =
     (case executor_emplace_socket os domain type protocol e of
        (Inl x, e') \<Rightarrow> (Inl x, e')
      | (Inr s, e') \<Rightarrow> (Inr \<lparr>dlg_executor = ex, dlg_socket = Some s\<rparr>, e'))"

definition triggers_set :: "sid \<Rightarrow> execution_trigger \<Rightarrow> ('v, 'w) handler \<Rightarrow> ('v, 'w) sender" where
  "triggers_set socket trigger func = executor_set socket trigger func"

definition triggers_wait_for ::
  "'w os \<Rightarrow> ('v, 'w) receivers \<Rightarrow> int \<Rightarrow> ('v, 'w) sys \<Rightarrow> (nat, ('v, 'w) sys) outcome" where
  "triggers_wait_for os rcv interval s = executor_wait_for os rcv interval s"

definition triggers_wait ::
  "'w os \<Rightarrow> ('v, 'w) receivers \<Rightarrow> ('v, 'w) sys \<Rightarrow> (nat, ('v, 'w) sys) outcome" where
  "triggers_wait os rcv s = executor_wait os rcv s"

section \<open>Helpers of the asynchronous operations\<close>

definition MSG_NOSIGNAL :: int where "MSG_NOSIGNAL = 16384"

definition get_executor :: "(eid \<Rightarrow> bool) \<Rightarrow> socket_dialog \<Rightarrow> exn + eid" where
  "get_executor alive dialog =
     (if alive (dlg_executor dialog) then Inr (dlg_executor dialog) else Inl Invalid_argument)"

definition handle_connect_error :: "sid \<Rightarrow> 'w env \<Rightarrow> 'w env" where
  "handle_connect_error s e =
     (let error = errno e in
      if error = EINPROGRESS \<or> error = EAGAIN \<or> error = EALREADY \<or> error = EISCONN then e
      else set_error s error e)"

text \<open>\<^verbatim>\<open>++fairness::counter()\<close> on the shared 8-bit counter.\<close>

definition fairness_tick :: "'w env \<Rightarrow> byte \<times> 'w env" where
  "fairness_tick e = (fair_counter e + 1, e\<lparr>fair_counter := fair_counter e + 1\<rparr>)"

text \<open>A default-constructed \<^verbatim>\<open>small_functor\<close>: calling it goes through a null table.\<close>

definition empty_functor :: "('v, 'w) handler" where
  "empty_functor = (\<lambda>e. Some (Inl (Undefined ''empty functor''), e))"

definition constant_functor :: "'v \<Rightarrow> ('v, 'w) handler" where
  "constant_functor v = (\<lambda>e. Some (Inr (Some v), e))"

text \<open>Every operation starts by taking the executor and the socket of the dialog.\<close>

definition with_socket ::
  "(eid \<Rightarrow> bool) \<Rightarrow> socket_dialog \<Rightarrow> 'w env \<Rightarrow> (eid \<Rightarrow> sid \<Rightarrow> ('a, 'w env) outcome) \<Rightarrow> ('a, 'w env) outcome"
  where
  "with_socket alive dialog e k =
     (case get_executor alive dialog of
        Inl x \<Rightarrow> Some (Inl x, e)
      | Inr ex \<Rightarrow>
          (case dlg_socket dialog of
             None \<Rightarrow> Some (Inl (Undefined ''null socket''), e)
           | Some s \<Rightarrow> k ex s))"

section \<open>Asynchronous operations\<close>

type_synonym accepted = "socket_dialog \<times> byte list"

text \<open>
  The handler of a waiting \<^verbatim>\<open>accept\<close>. It is \<^verbatim>\<open>noexcept\<close>: an exception of \<^verbatim>\<open>accept\<close> or \<^verbatim>\<open>push\<close> terminates.
\<close>

definition accept_handler :: "'w os \<Rightarrow> eid \<Rightarrow> sid \<Rightarrow> byte list \<Rightarrow> (accepted, 'w) handler" where
  "accept_handler os ex s address e =
     (case sync_accept os s address e of
        None \<Rightarrow> None
      | Some (Inl x, e1) \<Rightarrow> Some (Inl (under_noexcept x), e1)
      | Some (Inr (sock, addr), e1) \<Rightarrow>
          if to_bool (handles e1 sock) then
            (case executor_push_handle os sock e1 of
               (Inl x, e2) \<Rightarrow> Some (Inl (under_noexcept x), e2)
             | (Inr new, e2) \<Rightarrow>
                 Some (Inr (Some (\<lparr>dlg_executor = ex, dlg_socket = Some new\<rparr>, addr)), destroy os sock e2))
          else Some (Inr None, destroy os sock e1))"

definition async_accept ::
  "bool \<Rightarrow> (eid \<Rightarrow> bool) \<Rightarrow> 'w os \<Rightarrow> socket_dialog \<Rightarrow> byte list \<Rightarrow> 'w env
     \<Rightarrow> ((accepted, 'w) sender, 'w env) outcome" where
  "async_accept eager alive os dialog address e =
     with_socket alive dialog e (\<lambda>ex s.
       let lazily = (\<lambda>e. Some (Inr (executor_set s READ (accept_handler os ex s address)), e)) in
       if eager then
         (case fairness_tick e of (c, e0) \<Rightarrow>
            if c \<noteq> 0 then
              (case sync_accept os s address e0 of
                 None \<Rightarrow> None
               | Some (Inl x, e1) \<Rightarrow> Some (Inl x, e1)
               | Some (Inr (sock, addr), e1) \<Rightarrow>
                   if to_bool (handles e1 sock) then
                     (case executor_push_handle os sock e1 of
                        (Inl x, e2) \<Rightarrow> Some (Inl x, destroy os sock e2)
                      | (Inr new, e2) \<Rightarrow>
                          Some (Inr (executor_set s EAGER (constant_functor
                              (\<lparr>dlg_executor = ex, dlg_socket = Some new\<rparr>, addr))),
                            destroy os sock e2))
                   else
                     let e2 = set_error s (errno e1) e1 in
                     if failed (get_error s e2)
                     then Some (Inr (executor_set s EAGER empty_functor), destroy os sock e2)
                     else lazily (destroy os sock e2))
            else lazily e0)
       else lazily e)"

definition async_connect ::
  "(eid \<Rightarrow> bool) \<Rightarrow> 'w os \<Rightarrow> socket_dialog \<Rightarrow> byte list \<Rightarrow> 'w env \<Rightarrow> ((int, 'w) sender, 'w env) outcome" where
  "async_connect alive os dialog address e =
     with_socket alive dialog e (\<lambda>ex s.
       case sync_connect os s address e of
         None \<Rightarrow> None
       | Some (r, e1) \<Rightarrow>
           let e2 = (if r \<noteq> 0 then handle_connect_error s e1 else e1)
           in Some (Inr (executor_set s WRITE (constant_functor 0)), e2))"

text \<open>\<open>mid\<close> identifies the caller's message, whose flags the operations write.\<close>

definition recvmsg_handler :: "'w os \<Rightarrow> sid \<Rightarrow> msgid \<Rightarrow> msghdr \<Rightarrow> int \<Rightarrow> (int, 'w) handler" where
  "recvmsg_handler os s mid h flags e =
     (case sync_recvmsg_native os s h flags e of
        None \<Rightarrow> None
      | Some (len, h', e1) \<Rightarrow>
          Some (Inr (if len < 0 then None else Some len),
            e1\<lparr>user_flags := (user_flags e1)(mid := msg_flags h')\<rparr>))"

definition async_recvmsg ::
  "bool \<Rightarrow> (eid \<Rightarrow> bool) \<Rightarrow> 'w os \<Rightarrow> socket_dialog \<Rightarrow> msgid \<Rightarrow> socket_message \<Rightarrow> int \<Rightarrow> 'w env
     \<Rightarrow> ((int, 'w) sender, 'w env) outcome" where
  "async_recvmsg eager alive os dialog mid msg flags e =
     with_socket alive dialog e (\<lambda>ex s.
       let lazily = (\<lambda>msg e. case message_to_msghdr msg of
              Inl x \<Rightarrow> Some (Inl x, e)
            | Inr h \<Rightarrow> Some (Inr (executor_set s READ (recvmsg_handler os s mid h flags)), e)) in
       if eager then
         (case fairness_tick e of (c, e0) \<Rightarrow>
            if c \<noteq> 0 then
              (case sync_recvmsg os s msg flags e0 of
                 None \<Rightarrow> None
               | Some (Inl x, e1) \<Rightarrow> Some (Inl x, e1)
               | Some (Inr (len, msg'), e1) \<Rightarrow>
                   let e2 = e1\<lparr>user_flags := (user_flags e1)(mid := sm_flags msg')\<rparr> in
                   if len \<ge> 0 then Some (Inr (executor_set s EAGER (constant_functor len)), e2)
                   else let e3 = set_error s (errno e2) e2 in
                        if failed (get_error s e3)
                        then Some (Inr (executor_set s EAGER empty_functor), e3)
                        else lazily msg' e3)
            else lazily msg e0)
       else lazily msg e)"

definition sendmsg_handler :: "'w os \<Rightarrow> sid \<Rightarrow> socket_message \<Rightarrow> int \<Rightarrow> (int, 'w) handler" where
  "sendmsg_handler os s msg flags e =
     (case sync_sendmsg os s msg (flags OR MSG_NOSIGNAL) e of
        None \<Rightarrow> None
      | Some (Inl x, e1) \<Rightarrow> Some (Inl (under_noexcept x), e1)
      | Some (Inr len, e1) \<Rightarrow> Some (Inr (if len < 0 then None else Some len), e1))"

definition async_sendmsg ::
  "bool \<Rightarrow> (eid \<Rightarrow> bool) \<Rightarrow> 'w os \<Rightarrow> socket_dialog \<Rightarrow> socket_message \<Rightarrow> int \<Rightarrow> 'w env
     \<Rightarrow> ((int, 'w) sender, 'w env) outcome" where
  "async_sendmsg eager alive os dialog msg flags e =
     with_socket alive dialog e (\<lambda>ex s.
       let lazily = (\<lambda>e. Some (Inr (executor_set s WRITE (sendmsg_handler os s msg flags)), e)) in
       if eager then
         (case fairness_tick e of (c, e0) \<Rightarrow>
            if c \<noteq> 0 then
              (case sync_sendmsg os s msg (flags OR MSG_NOSIGNAL) e0 of
                 None \<Rightarrow> None
               | Some (Inl x, e1) \<Rightarrow> Some (Inl x, e1)
               | Some (Inr len, e1) \<Rightarrow>
                   if len \<ge> 0 then Some (Inr (executor_set s EAGER (constant_functor len)), e1)
                   else let e2 = set_error s (errno e1) e1 in
                        if failed (get_error s e2)
                        then Some (Inr (executor_set s EAGER empty_functor), e2)
                        else lazily e2)
            else lazily e0)
       else lazily e)"

section \<open>Operations forwarded to the socket of the dialog\<close>

text \<open>\<^verbatim>\<open>*dialog.socket\<close>, undefined for a dialog without a socket.\<close>

definition on_socket ::
  "socket_dialog \<Rightarrow> (sid \<Rightarrow> 'w env \<Rightarrow> (exn + 'a) \<times> 'w env) \<Rightarrow> 'w env \<Rightarrow> (exn + 'a) \<times> 'w env" where
  "on_socket dialog k e =
     (case dlg_socket dialog of None \<Rightarrow> (Inl (Undefined ''null socket''), e) | Some s \<Rightarrow> k s e)"

definition async_bind :: "'w os \<Rightarrow> socket_dialog \<Rightarrow> byte list \<Rightarrow> 'w env \<Rightarrow> (exn + int) \<times> 'w env" where
  "async_bind os dialog address = on_socket dialog (\<lambda>s e. map_prod Inr id (sync_bind os s address e))"

definition async_fcntl :: "'w os \<Rightarrow> socket_dialog \<Rightarrow> int \<Rightarrow> int list \<Rightarrow> 'w env \<Rightarrow> (exn + int) \<times> 'w env" where
  "async_fcntl os dialog cmd args = on_socket dialog (\<lambda>s e. map_prod Inr id (sync_fcntl os s cmd args e))"

definition async_getpeername ::
  "'w os \<Rightarrow> socket_dialog \<Rightarrow> byte list \<Rightarrow> 'w env \<Rightarrow> (exn + byte list) \<times> 'w env" where
  "async_getpeername os dialog address = on_socket dialog (\<lambda>s. sync_getpeername os s address)"

definition async_getsockname ::
  "'w os \<Rightarrow> socket_dialog \<Rightarrow> byte list \<Rightarrow> 'w env \<Rightarrow> (exn + byte list) \<times> 'w env" where
  "async_getsockname os dialog address = on_socket dialog (\<lambda>s. sync_getsockname os s address)"

definition async_getsockopt ::
  "'w os \<Rightarrow> socket_dialog \<Rightarrow> int \<Rightarrow> int \<Rightarrow> byte list \<Rightarrow> 'w env
     \<Rightarrow> (exn + (exn + int \<times> byte list) \<times> byte list) \<times> 'w env" where
  "async_getsockopt os dialog level optname opt =
     on_socket dialog (\<lambda>s e. case sync_getsockopt os s level optname opt e of (r, buf, e') \<Rightarrow> (Inr (r, buf), e'))"

definition async_listen :: "'w os \<Rightarrow> socket_dialog \<Rightarrow> int \<Rightarrow> 'w env \<Rightarrow> (exn + int) \<times> 'w env" where
  "async_listen os dialog backlog = on_socket dialog (\<lambda>s e. map_prod Inr id (sync_listen os s backlog e))"

definition async_setsockopt ::
  "'w os \<Rightarrow> socket_dialog \<Rightarrow> int \<Rightarrow> int \<Rightarrow> byte list \<Rightarrow> 'w env \<Rightarrow> (exn + int) \<times> 'w env" where
  "async_setsockopt os dialog level optname opt =
     on_socket dialog (\<lambda>s e. map_prod Inr id (sync_setsockopt os s level optname opt e))"

definition async_shutdown :: "'w os \<Rightarrow> socket_dialog \<Rightarrow> int \<Rightarrow> 'w env \<Rightarrow> (exn + int) \<times> 'w env" where
  "async_shutdown os dialog how = on_socket dialog (\<lambda>s e. map_prod Inr id (sync_shutdown os s how e))"

section \<open>From the operation to its completion\<close>

text \<open>
  An operation as the caller uses it: the sender it returns is connected and started on the
  multiplexer as operation \<open>t\<close>.
\<close>

definition launch ::
  "('v, 'w) receivers \<Rightarrow> tid \<Rightarrow> (('v, 'w) sender, 'w env) outcome \<Rightarrow> ('v, 'w) sys
     \<Rightarrow> (unit, ('v, 'w) sys) outcome" where
  "launch rcv t m s =
     and_then (map_option (\<lambda>(r, e). (r, s\<lparr>sys_env := e\<rparr>)) m) (\<lambda>sender s1.
       and_then (Some (connect sender t s1)) (\<lambda>_ s2. start rcv t s2))"

lemma launch_eager:
  assumes "m = Some (Inr (executor_set h EAGER f), e)"
  shows "launch rcv t m s =
    complete rcv t (s\<lparr>sys_env := e, ops := (ops s)(t \<mapsto>
      \<lparr>op_func = f, op_socket = h, op_demux = None, op_trigger = EAGER, op_armed = False\<rparr>)\<rparr>)"
  using assms
  by (simp add: launch_def connect_def start_def executor_set_def set_sender_def Let_def)

lemma launch_eager_value:
  assumes "m = Some (Inr (executor_set h EAGER (constant_functor v)), e)" and "\<not> failed (get_error h e)"
  shows "\<exists>op. launch rcv t m s = Some (Inr (), deliver rcv t (Set_value v)
    (s\<lparr>sys_env := e, ops := (ops s)(t \<mapsto> op)\<rparr>))"
  unfolding launch_eager [OF assms(1)]
  using assms(2)
  by (intro exI [of _ "\<lparr>op_func = constant_functor v, op_socket = h, op_demux = None, op_trigger = EAGER,
      op_armed = False\<rparr>"]) (cases s, simp add: complete_def constant_functor_def Let_def)

lemma launch_failed_socket:
  assumes "m = Some (Inr (executor_set h tr f), e)" and "failed (get_error h e)"
  shows "\<exists>op. launch rcv t m s = Some (Inr (), deliver rcv t (Set_error (get_error h e))
    (s\<lparr>sys_env := e, ops := (ops s)(t \<mapsto> op)\<rparr>))"
  using assms
  by (auto simp: launch_def connect_def start_def complete_def executor_set_def set_sender_def failed_def Let_def)

lemma launch_waiting:
  assumes m: "m = Some (Inr (executor_set h tr f), e)" and wf: "mux_wf s" "covered s"
    and fresh: "ops s t = None" and ok: "\<not> failed (get_error h e)" "tr \<noteq> EAGER"
    and fd: "usable_fd (native_fd h e)"
  shows "\<exists>s'. launch rcv t m s = Some (Inr (), s') \<and> mux_wf s' \<and> covered s' \<and>
    completions s' = completions s \<and> sys_env s' = e \<and>
    joins_queue tr (nat (native_fd h e)) t s s' \<and> asks_for tr (native_fd h e) s' \<and>
    (\<exists>op. ops s' = (ops s)(t \<mapsto> op) \<and> op_func op = f)"
proof -
  let ?s = "s\<lparr>sys_env := e\<rparr>" and ?snd = "set_sender h tr f" and ?i = "nat (native_fd h e)"
  let ?op = "\<lparr>op_func = f, op_socket = h, op_demux = Some ?i, op_trigger = tr, op_armed = False\<rparr>"
  have snd: "snd_socket ?snd = h" "snd_trigger ?snd = tr" "snd_func ?snd = f"
    by (simp_all add: set_sender_def)
  have wf': "mux_wf ?s" "covered ?s" using wf by (simp_all add: mux_wf_frame)
  have reg: "registers ?snd ?s" "usable_fd (sender_fd ?snd ?s)" "length (demux ?s) \<le> 2 ^ 31"
    using ok fd wf by (auto simp: snd mux_wf_def)
  note con = connect_registering [OF reg, of t]
  obtain s1 where c: "connect ?snd t ?s = (Inr (), s1)" using con by simp
  have s1: "sys_env s1 = e" "ops s1 = (ops s)(t \<mapsto> ?op)" "completions s1 = completions s"
    "ilist s1 = register (make_poll_event (native_fd h e) tr) (ilist s)"
    "demux s1 = demux s @ replicate (?i + 1 - length (demux s)) empty_demultiplexer"
    using con c by (auto simp: snd)
  have wf1: "mux_wf s1" using connect_wf [OF wf'(1), of t ?snd] fresh reg c by simp
  have cov1: "covered s1" using connect_covered [OF wf', of ?snd t] reg c by simp
  have st: "startable t ?op ?i s1" using s1 ok by (simp add: startable_def)
  have iwf: "ilist_wf (ilist s)" using wf(1) by (simp add: mux_wf_def ilist_ok_def)
  have bits: "bit (interest (ilist s1) (int ?i)) (event_bit tr)"
    using fd ok(2) s1(4) ilist.look_add [OF iwf]
    by (cases tr) (auto simp: usable_fd_def make_poll_event_bits bit_or_iff)
  obtain s2 where s2: "start rcv t s1 = Some (Inr (), s2)" "mux_wf s2"
    using start_wf [OF wf1 st] by blast
  have i: "?i < length (demux s1)" by (simp add: s1(5))
  have eq: "s2 = s1\<lparr>demux := (demux s1)[?i := enqueue tr t h (demux s1 ! ?i)],
      ops := (ops s1)(t \<mapsto> ?op\<lparr>op_armed := True\<rparr>)\<rparr>"
    using s2(1) start_queues [OF st, of rcv] by simp
  have "covered s2" using start_covered [OF cov1 st _ s2(1)] bits by simp
  moreover have "launch rcv t m s = Some (Inr (), s2)"
    using m c s2(1) by (simp add: launch_def executor_set_def)
  moreover have "joins_queue tr ?i t s s2"
    by (rule joins_queue_enqueue [OF s1(5) _ i ok(2), where h = h]) (simp add: eq)
  moreover have "asks_for tr (native_fd h e) s2"
    using ilist.registered_is_polled bits wf1 fd
    by (auto simp: eq asks_for_def mux_wf_def ilist_ok_def usable_fd_def)
  moreover have "completions s2 = completions s" "sys_env s2 = e"
    using s1 by (simp_all add: eq)
  moreover have "\<exists>op. ops s2 = (ops s)(t \<mapsto> op) \<and> op_func op = f"
    by (rule exI [of _ "?op\<lparr>op_armed := True\<rparr>"]) (simp add: eq s1(2))
  ultimately show ?thesis using s2(2) by blast
qed

section \<open>Frames of the synchronous operations\<close>

lemma same_objectsD:
  assumes "same_objects e e'"
  shows "get_error h e' = get_error h e" and "native_fd h e' = native_fd h e"
    and "handles e' = handles e" and "next_sid e' = next_sid e"
  using assms by (simp_all add: same_objects_def get_error_def native_fd_def)

lemma sync_connect_same_objects: "sync_connect os s a e = Some (r, e') \<Longrightarrow> same_objects e e'"
  using retry_same_objects [OF plain_call_same_objects, where st = "((), e)"]
  by (fastforce simp: sync_connect_def)

lemma sync_sendmsg_same_objects:
  assumes "sync_sendmsg os s msg flags e = Some (r, e')"
  shows "same_objects e e'"
proof -
  have "same_objects e e1" if "sync_sendmsg_native os s h flags e = Some (len, e1)" for h len e1
    using that retry_same_objects [OF plain_call_same_objects, where st = "((), e)"]
    by (fastforce simp: sync_sendmsg_native_def)
  with assms show ?thesis by (auto simp: sync_sendmsg_def split: sum.splits)
qed

lemma fairness_tick_frame:
  "get_error h (snd (fairness_tick e)) = get_error h e"
  "native_fd h (snd (fairness_tick e)) = native_fd h e"
  by (simp_all add: fairness_tick_def get_error_def native_fd_def)

lemma set_error_frame:
  "get_error h (set_error h err e) = err" "native_fd h (set_error h err e) = native_fd h e"
  by (simp_all add: set_error_def get_error_def native_fd_def to_native_def)

section \<open>Properties\<close>

text \<open>
  (C8) A send on a healthy socket, from the call to its completion, when the fairness counter allows
  the eager attempt. A send that succeeds at once completes with the number of bytes without touching
  the multiplexer's queues. A send that would block is queued as a writer behind those already waiting, with
  no change to any other queue, with its event in the next call of \<^verbatim>\<open>poll\<close> and with a handler that sends the
  same message again. Any other failure
  is stored in the socket and delivered as the error of the operation.
\<close>

theorem send_completion:
  assumes "mux_wf s" and "covered s" and "ops s t = None" and "alive ex"
    and "usable_fd (native_fd h (sys_env s))" and "\<not> failed (get_error h (sys_env s))"
    and "fst (fairness_tick (sys_env s)) \<noteq> 0"
    and "sync_sendmsg os h msg (flags OR MSG_NOSIGNAL) (snd (fairness_tick (sys_env s))) = Some (Inr len, e1)"
  shows "\<exists>result. launch rcv t
      (async_sendmsg True alive os \<lparr>dlg_executor = ex, dlg_socket = Some h\<rparr> msg flags (sys_env s)) s = Some result \<and>
    (0 \<le> len \<longrightarrow> (\<exists>op. result = (Inr (), deliver rcv t (Set_value len)
       (s\<lparr>sys_env := e1, ops := (ops s)(t \<mapsto> op)\<rparr>)))) \<and>
    (len < 0 \<and> failed (errno e1) \<longrightarrow> (\<exists>op. result = (Inr (), deliver rcv t (Set_error (errno e1))
       (s\<lparr>sys_env := set_error h (errno e1) e1, ops := (ops s)(t \<mapsto> op)\<rparr>)))) \<and>
    (len < 0 \<and> \<not> failed (errno e1) \<longrightarrow> (\<exists>s'. result = (Inr (), s') \<and> mux_wf s' \<and> covered s' \<and>
       completions s' = completions s \<and>
       joins_queue WRITE (nat (native_fd h (sys_env s))) t s s' \<and> asks_for WRITE (native_fd h (sys_env s)) s' \<and>
       (\<exists>op. ops s' = (ops s)(t \<mapsto> op) \<and> op_func op = sendmsg_handler os h msg flags)))"
proof -
  let ?m = "async_sendmsg True alive os \<lparr>dlg_executor = ex, dlg_socket = Some h\<rparr> msg flags (sys_env s)"
  note frame = same_objectsD [OF sync_sendmsg_same_objects [OF assms(8)]]
  have e1: "get_error h e1 = get_error h (sys_env s)" "native_fd h e1 = native_fd h (sys_env s)"
    using frame(1,2) [of h] by (simp_all add: fairness_tick_frame)
  have m: "?m =
      (if 0 \<le> len then Some (Inr (executor_set h EAGER (constant_functor len)), e1)
       else if failed (errno e1) then Some (Inr (executor_set h EAGER empty_functor), set_error h (errno e1) e1)
       else Some (Inr (executor_set h WRITE (sendmsg_handler os h msg flags)), set_error h (errno e1) e1))"
    using assms(4,7,8)
    by (auto simp: async_sendmsg_def with_socket_def get_executor_def set_error_frame Let_def split: prod.splits)
  consider "0 \<le> len" | "len < 0" "failed (errno e1)" | "len < 0" "\<not> failed (errno e1)" by linarith
  then show ?thesis
  proof cases
    case 1
    then show ?thesis
      using launch_eager_value [of ?m h len e1 rcv t s] m assms(6) e1(1) by auto
  next
    case 2
    then show ?thesis
      using launch_failed_socket [of ?m h EAGER empty_functor "set_error h (errno e1) e1" rcv t s] m
      by (auto simp: set_error_frame)
  next
    case 3
    then show ?thesis
      using launch_waiting [of ?m h WRITE "sendmsg_handler os h msg flags" "set_error h (errno e1) e1" s t rcv]
        m assms(1-3,5) e1(2) by (auto simp: set_error_frame)
  qed
qed

lemma retry_once: "\<not> interrupted err (call st) \<Longrightarrow> retry_eintr err call st = Some (call st)"
  using retry_eintr_settles [of err call st 0] by (simp add: settles_at_def)

definition example_message :: socket_message where
  "example_message = \<lparr>sm_address = None, sm_buffers = [\<lparr>iov_base = 64, iov_len = 5\<rparr>], sm_control = [], sm_flags = 0\<rparr>"

text \<open>A kernel whose \<^verbatim>\<open>sendmsg\<close> has a fixed outcome.\<close>

definition sending_os :: "int \<Rightarrow> int \<Rightarrow> nat os" where
  "sending_os len err = (ticking_os (\<lambda>w. False))\<lparr>os_sendmsg := (\<lambda>f m g w. (len, err, w))\<rparr>"

lemma sending_os_send:
  assumes "err \<noteq> EINTR"
  shows "sync_sendmsg (sending_os len err) h example_message flags e =
    Some (Inr len, e\<lparr>errno := (if len < 0 then err else errno e)\<rparr>)"
proof -
  obtain hdr where hdr: "message_to_msghdr example_message = Inr hdr"
    by (simp add: message_to_msghdr_def message_to_header_def example_message_def)
  let ?call = "plain_call (os_sendmsg (sending_os len err) (native_fd h e) hdr flags)"
  have "?call ((), e) = (len, (), e\<lparr>errno := (if len < 0 then err else errno e)\<rparr>)"
    by (simp add: plain_call_def run_sys_def sending_os_def)
  then have "retry_eintr (\<lambda>len. len < 0) ?call ((), e) =
      Some (len, (), e\<lparr>errno := (if len < 0 then err else errno e)\<rparr>)"
    using assms by (subst retry_once) (auto simp: interrupted_def)
  then show ?thesis by (simp add: sync_sendmsg_def sync_sendmsg_native_def hdr)
qed

lemma example_env_facts:
  "native_fd 0 example_env = 3" "get_error 0 example_env = 0" "fst (fairness_tick example_env) = 1"
  "sys_env (initial_sys example_env) = example_env"
  by (simp_all add: native_fd_def to_native_def example_env_def get_error_def fairness_tick_def
      blank_env_def initial_sys_def)

theorem send_completion_witness:
  "\<exists>s'. launch no_reaction 7 (async_sendmsg True (\<lambda>ex. True) (sending_os (- 1) EAGAIN)
       \<lparr>dlg_executor = 0, dlg_socket = Some 0\<rparr> example_message 0 example_env) (initial_sys example_env) =
     Some (Inr (), s') \<and> covered s' \<and> joins_queue WRITE 3 7 (initial_sys example_env) s' \<and> asks_for WRITE 3 s'"
proof -
  let ?e0 = "snd (fairness_tick example_env)"
  have send: "sync_sendmsg (sending_os (- 1) EAGAIN) 0 example_message (0 OR MSG_NOSIGNAL) ?e0 =
      Some (Inr (- 1), ?e0\<lparr>errno := EAGAIN\<rparr>)"
    by (simp add: sending_os_send errno_defs)
  have "\<not> failed 0" "\<not> failed EAGAIN" by (simp_all add: failed_def)
  with send_completion [OF initial_sys_ok, of example_env 7 "\<lambda>ex. True" 0 0 "sending_os (- 1) EAGAIN"
      example_message 0 "- 1" "?e0\<lparr>errno := EAGAIN\<rparr>" no_reaction] send
  show ?thesis
    by (auto simp: example_env_facts example_facts usable_fd_def)
qed

text \<open>
  (C33) A stored error outlives the operation it belongs to. Nothing clears the error of a socket handle
  when a later call succeeds, and a completion looks at the stored error first: on a socket that still
  holds an error other than "would block", a send whose eager attempt succeeds, and has handed its bytes
  to the kernel, is completed with the old error instead of the number of bytes.
\<close>

theorem stale_error_masks_success:
  assumes "alive ex" and "failed (get_error h (sys_env s))" and "fst (fairness_tick (sys_env s)) \<noteq> 0"
    and "sync_sendmsg os h msg (flags OR MSG_NOSIGNAL) (snd (fairness_tick (sys_env s))) = Some (Inr len, e1)"
    and "0 \<le> len"
  shows "\<exists>op. launch rcv t
      (async_sendmsg True alive os \<lparr>dlg_executor = ex, dlg_socket = Some h\<rparr> msg flags (sys_env s)) s =
    Some (Inr (), deliver rcv t (Set_error (get_error h (sys_env s))) (s\<lparr>sys_env := e1, ops := (ops s)(t \<mapsto> op)\<rparr>))"
proof -
  have e1: "get_error h e1 = get_error h (sys_env s)"
    using same_objectsD(1) [OF sync_sendmsg_same_objects [OF assms(4)], of h] by (simp add: fairness_tick_frame)
  have "async_sendmsg True alive os \<lparr>dlg_executor = ex, dlg_socket = Some h\<rparr> msg flags (sys_env s) =
      Some (Inr (executor_set h EAGER (constant_functor len)), e1)"
    using assms(1,3-5)
    by (auto simp: async_sendmsg_def with_socket_def get_executor_def Let_def split: prod.splits)
  from launch_failed_socket [OF this, of rcv t s] assms(2) e1 show ?thesis by simp
qed

theorem stale_error_masks_success_witness:
  "\<exists>s'. launch no_reaction 7 (async_sendmsg True (\<lambda>ex. True) (sending_os 5 0)
       \<lparr>dlg_executor = 0, dlg_socket = Some 0\<rparr> example_message 0 (set_error 0 104 example_env))
       (initial_sys (set_error 0 104 example_env)) = Some (Inr (), s') \<and>
     completions s' = [(7, Set_error 104)]"
proof -
  let ?e = "set_error 0 104 example_env"
  have sys: "sys_env (initial_sys ?e) = ?e" "completions (initial_sys ?e) = []"
    by (simp_all add: initial_sys_def)
  have tick: "fst (fairness_tick ?e) \<noteq> 0"
    by (simp add: fairness_tick_def set_error_def example_env_def blank_env_def)
  have "sync_sendmsg (sending_os 5 0) 0 example_message (0 OR MSG_NOSIGNAL) (snd (fairness_tick ?e)) =
      Some (Inr 5, snd (fairness_tick ?e))"
    by (simp add: sending_os_send errno_defs)
  with stale_error_masks_success [of "\<lambda>ex. True" 0 0 "initial_sys ?e" "sending_os 5 0" example_message 0 5
      "snd (fairness_tick ?e)" no_reaction 7] tick
  show ?thesis
    by (auto simp: sys set_error_frame failed_def errno_defs deliver_def no_reaction_def)
qed

lemma fair_counter_ticks: "fair_counter (((snd \<circ> fairness_tick) ^^ k) e) = fair_counter e + of_nat k"
  by (induction k) (simp_all add: fairness_tick_def ac_simps)

text \<open>
  The fairness counter: among any 256 consecutive eager operations exactly one finds the counter
  wrapped to zero and goes to the multiplexer without an eager attempt.
\<close>

theorem fairness_one_in_256:
  "\<exists>!k. k < 256 \<and> fst (fairness_tick (((snd \<circ> fairness_tick) ^^ k) e)) = 0"
proof -
  let ?c = "fair_counter e + 1"
  have tick: "fst (fairness_tick (((snd \<circ> fairness_tick) ^^ k) e)) = 0 \<longleftrightarrow> of_nat k = - ?c" for k
    unfolding fairness_tick_def [of "((snd \<circ> fairness_tick) ^^ k) e"] fst_conv fair_counter_ticks
    unfolding eq_neg_iff_add_eq_0 by (simp only: ac_simps)
  show ?thesis
    unfolding tick
  proof (rule ex1I [of _ "unat (- ?c)"])
    show "unat (- ?c) < 256 \<and> of_nat (unat (- ?c)) = - ?c"
    proof -
      have "unat (- ?c) < 2 ^ LENGTH(8)" by (rule unsigned_less)
      then show ?thesis by simp
    qed
    fix k assume k: "k < 256 \<and> of_nat k = - ?c"
    have "unat (of_nat k :: byte) = k" using conjunct1 [OF k] by (simp add: unat_of_nat)
    then show "k = unat (- ?c)" unfolding conjunct2 [OF k] by (rule sym)
  qed
qed

text \<open>
  Connecting, from the call to its completion. A connection that is established or in progress
  (also when the call reports would-block, already or is-connected) waits as a writer, and its handler
  completes with 0. Every other failure is stored in the socket and is delivered at once as the error of
  the operation; nothing is queued for it.
\<close>

theorem connect_completion:
  assumes "mux_wf s" and "covered s" and "ops s t = None" and "alive ex"
    and "usable_fd (native_fd h (sys_env s))" and "\<not> failed (get_error h (sys_env s))"
    and "sync_connect os h address (sys_env s) = Some (r, e1)"
    and "r \<noteq> 0 \<longrightarrow> errno e1 \<noteq> 0"
  shows "\<exists>s'. launch rcv t (async_connect alive os \<lparr>dlg_executor = ex, dlg_socket = Some h\<rparr> address (sys_env s)) s =
      Some (Inr (), s') \<and>
    (if r = 0 \<or> errno e1 \<in> {EINPROGRESS, EAGAIN, EALREADY, EISCONN}
     then mux_wf s' \<and> covered s' \<and> completions s' = completions s \<and>
       joins_queue WRITE (nat (native_fd h (sys_env s))) t s s' \<and> asks_for WRITE (native_fd h (sys_env s)) s' \<and>
       (\<exists>op. ops s' = (ops s)(t \<mapsto> op) \<and> op_func op = constant_functor 0)
     else (\<exists>op. s' = deliver rcv t (Set_error (errno e1))
       (s\<lparr>sys_env := set_error h (errno e1) e1, ops := (ops s)(t \<mapsto> op)\<rparr>)))"
proof -
  let ?m = "async_connect alive os \<lparr>dlg_executor = ex, dlg_socket = Some h\<rparr> address (sys_env s)"
  let ?wait = "r = 0 \<or> errno e1 \<in> {EINPROGRESS, EAGAIN, EALREADY, EISCONN}"
  let ?e2 = "if ?wait then e1 else set_error h (errno e1) e1"
  note frame = same_objectsD [OF sync_connect_same_objects [OF assms(7)]]
  have m: "?m = Some (Inr (executor_set h WRITE (constant_functor 0)), ?e2)"
    using assms(4,7)
    by (auto simp: async_connect_def with_socket_def get_executor_def handle_connect_error_def Let_def)
  show ?thesis
  proof (cases ?wait)
    case True
    then have "\<not> failed (get_error h ?e2)" "usable_fd (native_fd h ?e2)" "WRITE \<noteq> EAGER"
      "native_fd h ?e2 = native_fd h (sys_env s)"
      using assms(5,6) frame(1,2) by simp_all
    with launch_waiting [OF m assms(1-3), of rcv] obtain s' where
      "launch rcv t ?m s = Some (Inr (), s')" "mux_wf s'" "covered s'" "completions s' = completions s"
      "joins_queue WRITE (nat (native_fd h (sys_env s))) t s s'" "asks_for WRITE (native_fd h (sys_env s)) s'"
      "\<exists>op. ops s' = (ops s)(t \<mapsto> op) \<and> op_func op = constant_functor 0"
      by auto
    with True show ?thesis by simp
  next
    case False
    then have "failed (errno e1)" using assms(8) by (auto simp: failed_def)
    with False launch_failed_socket [OF m, of rcv t s] show ?thesis by (auto simp: set_error_frame)
  qed
qed

theorem connect_completion_witness:
  "\<exists>s'. launch no_reaction 7 (async_connect (\<lambda>ex. True)
       ((ticking_os (\<lambda>w. False))\<lparr>os_connect := (\<lambda>f a w. (- 1, EINPROGRESS, w))\<rparr>)
       \<lparr>dlg_executor = 0, dlg_socket = Some 0\<rparr> [] example_env) (initial_sys example_env) = Some (Inr (), s') \<and>
     joins_queue WRITE 3 7 (initial_sys example_env) s'"
proof -
  let ?os = "(ticking_os (\<lambda>w. False))\<lparr>os_connect := (\<lambda>f a w. (- 1, EINPROGRESS, w))\<rparr>"
  let ?e1 = "example_env\<lparr>errno := EINPROGRESS\<rparr>"
  have "plain_call (os_connect ?os (native_fd 0 example_env) []) ((), example_env) = (- 1, (), ?e1)"
    by (simp add: plain_call_def run_sys_def)
  then have "sync_connect ?os 0 [] example_env = Some (- 1, ?e1)"
    unfolding sync_connect_def by (subst retry_once) (auto simp: interrupted_def errno_defs)
  with connect_completion [OF initial_sys_ok, of example_env 7 "\<lambda>ex. True" 0 0 ?os "[]" "- 1" ?e1 no_reaction]
  show ?thesis
    by (auto simp: example_env_facts example_facts usable_fd_def failed_def errno_defs)
qed

text \<open>
  An expired executor: every asynchronous operation on the dialog throws \<^verbatim>\<open>std::invalid_argument\<close>
  before it looks at the socket, and changes nothing.
\<close>

theorem expired_executor_rejected:
  assumes "\<not> alive (dlg_executor d)"
  shows "async_accept eager alive os d address e = Some (Inl Invalid_argument, e) \<and>
    async_connect alive os d address e = Some (Inl Invalid_argument, e) \<and>
    async_recvmsg eager alive os d mid msg flags e = Some (Inl Invalid_argument, e) \<and>
    async_sendmsg eager alive os d msg flags e = Some (Inl Invalid_argument, e) \<and>
    \<not> dialog_to_bool alive e d"
  using assms
  by (simp add: async_accept_def async_connect_def async_recvmsg_def async_sendmsg_def with_socket_def
      get_executor_def dialog_to_bool_def)

theorem expired_executor_rejected_witness:
  "async_sendmsg True (\<lambda>ex. False) (sending_os 5 0) \<lparr>dlg_executor = 0, dlg_socket = Some 0\<rparr> example_message 0
     example_env = Some (Inl Invalid_argument, example_env)"
  using expired_executor_rejected [of "\<lambda>ex. False" "\<lparr>dlg_executor = 0, dlg_socket = Some 0\<rparr>" True
      "sending_os 5 0" "[]" example_env 0 example_message 0] by simp

lemma sync_fcntl_same_objects: "same_objects e (snd (sync_fcntl os s cmd args e))"
  by (simp add: sync_fcntl_def run_sys_same_objects)

lemma executor_push_same_objects: "same_objects e (snd (executor_push os s e))"
proof -
  obtain fl e1 where g: "sync_fcntl os s F_GETFL [] e = (fl, e1)" by fastforce
  obtain r e2 where st: "sync_fcntl os s F_SETFL [fl OR O_NONBLOCK] e1 = (r, e2)" by fastforce
  have "same_objects e e2"
    using sync_fcntl_same_objects [of e os s F_GETFL "[]"] g
      sync_fcntl_same_objects [of e1 os s F_SETFL "[fl OR O_NONBLOCK]"] st
    by (auto intro: same_objects_trans)
  then show ?thesis by (simp add: executor_push_def g st Let_def throw_system_error_def)
qed

lemma push_handle_effect:
  assumes "h < next_sid e" and "to_bool (handles e h)"
  shows "case executor_push_handle os h e of
      (Inr s, e') \<Rightarrow> s = next_sid e \<and>
        handles e' = (handles e)(h := default_handle, s := handles e h) \<and> next_sid e' = Suc (next_sid e)
    | (Inl x, e') \<Rightarrow>
        (\<exists>w. world e' = snd (snd (os_close os (to_native (handles e h)) w))) \<and>
        handles e' = (handles e)(h := default_handle,
          next_sid e := (handles e h)\<lparr>hnd_socket := INVALID_SOCKET\<rparr>) \<and> next_sid e' = Suc (next_sid e)"
proof -
  let ?new = "next_sid e"
  let ?e1 = "e\<lparr>handles := move_construct ?new h (handles e), next_sid := Suc ?new\<rparr>"
  have moved: "move_construct ?new h (handles e) = (handles e)(?new := handles e h, h := default_handle)"
    using assms(1) handle_swap.move_constructed [of ?new h "handles e"] by (simp add: move_construct_def)
  obtain r e2 where p: "executor_push os ?new ?e1 = (r, e2)" by fastforce
  have "same_objects ?e1 e2" using executor_push_same_objects [of ?e1 os ?new] p by simp
  then have e2: "handles e2 = (handles e)(?new := handles e h, h := default_handle)" "next_sid e2 = Suc ?new"
    by (simp_all add: same_objects_def moved)
  have ret: "s = ?new" if "r = Inr s" for s
    using p that by (auto simp: executor_push_def throw_system_error_def Let_def split: prod.splits if_splits)
  have closed: "handles (destroy os ?new e2) =
      (handles e)(h := default_handle, ?new := (handles e h)\<lparr>hnd_socket := INVALID_SOCKET\<rparr>)"
    "next_sid (destroy os ?new e2) = Suc ?new"
    "\<exists>w. world (destroy os ?new e2) = snd (snd (os_close os (to_native (handles e h)) w))"
    using e2 assms run_sys_world [of "os_close os (to_native (handles e h))"]
    by (auto simp: destroy_def close_def to_bool_def to_native_def Let_def fun_upd_twist)
  show ?thesis
    using p ret e2 closed assms(1)
    by (cases r) (auto simp: executor_push_handle_def Let_def fun_upd_twist)
qed

text \<open>
  Handing a handle to the executor keeps the descriptor owned. When the socket can be made
  non-blocking, the new shared object owns the descriptor and the error of the handle, and the handle is
  left empty. When it cannot, the call throws, the new object has closed the descriptor, and no handle
  holds it any more. No other handle changes.
\<close>

theorem pushed_handle_owned:
  assumes "h < next_sid e" and "to_bool (handles e h)"
  shows "case executor_push_handle os h e of
      (Inr s, e') \<Rightarrow> s = next_sid e \<and>
        handles e' = (handles e)(h := default_handle, s := handles e h) \<and> next_sid e' = Suc (next_sid e)
    | (Inl x, e') \<Rightarrow>
        (\<exists>w. world e' = snd (snd (os_close os (to_native (handles e h)) w))) \<and>
        handles e' = (handles e)(h := default_handle,
          next_sid e := (handles e h)\<lparr>hnd_socket := INVALID_SOCKET\<rparr>) \<and> next_sid e' = Suc (next_sid e)"
  using assms by (rule push_handle_effect)

theorem pushed_handle_owned_witness:
  "\<exists>s e'. executor_push_handle (ticking_os (\<lambda>w. False)) 0 (example_env\<lparr>next_sid := 1\<rparr>) = (Inr s, e') \<and>
     to_native (handles e' s) = 3 \<and> \<not> to_bool (handles e' 0)"
proof -
  let ?e = "example_env\<lparr>next_sid := 1\<rparr>"
  have fc: "sync_fcntl (ticking_os (\<lambda>w. False)) s c a e = (0, e)" for s c a e
    by (simp add: sync_fcntl_def run_sys_def ticking_os_def)
  obtain s e' where p: "executor_push_handle (ticking_os (\<lambda>w. False)) 0 ?e = (Inr s, e')"
    by (simp add: executor_push_handle_def executor_push_def fc Let_def)
  have h: "handles ?e 0 = \<lparr>hnd_socket = 3, hnd_error = 0\<rparr>" by (simp add: example_env_def)
  from pushed_handle_owned [of 0 ?e "ticking_os (\<lambda>w. False)"] p h show ?thesis
    by (auto simp: to_bool_def to_native_def default_handle_def INVALID_SOCKET_def)
qed

text \<open>
  Making a socket non-blocking: with a kernel whose \<^verbatim>\<open>F_GETFL\<close> reads and whose \<^verbatim>\<open>F_SETFL\<close> stores the
  status flags of the descriptor, \<^verbatim>\<open>push\<close> returns the same socket, the flag \<^verbatim>\<open>O_NONBLOCK\<close> is set, and
  every other status flag is as it was.
\<close>

theorem push_sets_nonblocking:
  assumes "\<And>f w. os_fcntl os f F_GETFL [] w = (flags_of w f, 0, w)"
    and "\<And>f x w. 0 \<le> x \<Longrightarrow> fst (os_fcntl os f F_SETFL [x] w) = 0 \<and>
      flags_of (snd (snd (os_fcntl os f F_SETFL [x] w))) f = x"
    and "\<And>f w. 0 \<le> flags_of w f"
  shows "\<exists>e'. executor_push os s e = (Inr s, e') \<and>
    bit (flags_of (world e') (native_fd s e)) 11 \<and>
    (\<forall>n. n \<noteq> 11 \<longrightarrow> bit (flags_of (world e') (native_fd s e)) n = bit (flags_of (world e) (native_fd s e)) n)"
proof -
  let ?f = "native_fd s e"
  let ?x = "flags_of (world e) ?f OR O_NONBLOCK"
  have get: "sync_fcntl os s F_GETFL [] e = (flags_of (world e) ?f, e)"
    using assms(1,3) by (simp add: sync_fcntl_def run_sys_def leD)
  have nn: "0 \<le> ?x" using assms(3) by (simp add: O_NONBLOCK_def)
  obtain err w where set: "os_fcntl os ?f F_SETFL [?x] (world e) = (0, err, w)" and w: "flags_of w ?f = ?x"
    using assms(2) [of ?x ?f "world e"] assms(3) nn by (cases "os_fcntl os ?f F_SETFL [?x] (world e)") auto
  have "executor_push os s e = (Inr s, e\<lparr>world := w\<rparr>)"
    by (simp add: executor_push_def get) (simp add: sync_fcntl_def run_sys_def set)
  moreover have nb: "O_NONBLOCK = 2 ^ 11" by (simp add: O_NONBLOCK_def)
  then have "bit O_NONBLOCK n \<longleftrightarrow> n = 11" for n unfolding nb bit_exp_iff by auto
  ultimately show ?thesis using w by (auto simp: bit_or_iff)
qed

text \<open>A kernel whose world is the flag word of the only descriptor.\<close>

definition flag_os :: "nat os" where
  "flag_os = (ticking_os (\<lambda>w. False))\<lparr>os_fcntl := (\<lambda>f c a w.
     if c = F_GETFL then (int w, 0, w) else (0, 0, nat (hd a)))\<rparr>"

theorem push_sets_nonblocking_witness:
  "\<exists>e'. executor_push flag_os 0 (example_env\<lparr>world := 2\<rparr>) = (Inr 0, e') \<and> bit (int (world e')) 11"
  using push_sets_nonblocking [of flag_os "\<lambda>w f. int w" 0 "example_env\<lparr>world := 2\<rparr>"]
  by (auto simp: flag_os_def F_GETFL_def F_SETFL_def)

text \<open>
  Comparing dialogs. A comparison throws \<^verbatim>\<open>std::invalid_argument\<close> exactly when a socket pointer it
  needs is null; otherwise it orders dialogs by the descriptors of their sockets, equality agrees with
  the ordering, and comparing with a handle or a native socket agrees with comparing with a dialog on
  that socket. The executors play no part.
\<close>

theorem dialog_comparison:
  "(dialog_compare e a b = Inl Invalid_argument \<longleftrightarrow> dlg_socket a = None \<or> dlg_socket b = None) \<and>
   (dialog_to_native e a = Inl Invalid_argument \<longleftrightarrow> dlg_socket a = None) \<and>
   (\<forall>f g. dialog_to_native e a = Inr f \<longrightarrow> dialog_to_native e b = Inr g \<longrightarrow>
      dialog_compare e a b = Inr (spaceship f g) \<and> dialog_equals e a b = Inr (f = g) \<and>
      dialog_compare_native e a g = Inr (spaceship f g) \<and> dialog_equals_native e a g = Inr (f = g) \<and>
      (\<forall>h. to_native h = g \<longrightarrow> dialog_compare_handle e a h = Inr (spaceship f g) \<and>
         dialog_equals_handle e a h = Inr (f = g)))"
  by (auto simp: dialog_compare_def dialog_to_native_def dialog_equals_def dialog_compare_native_def
      dialog_equals_native_def dialog_compare_handle_def dialog_equals_handle_def compare_def
      compare_native_def to_native_def spaceship_def split: option.splits)

theorem dialog_comparison_witness:
  "dialog_compare example_env \<lparr>dlg_executor = 0, dlg_socket = Some 0\<rparr> \<lparr>dlg_executor = 1, dlg_socket = Some 1\<rparr> =
     Inr (spaceship (3 :: int) (- 1))"
  using dialog_comparison [of example_env "\<lparr>dlg_executor = 0, dlg_socket = Some 0\<rparr>"
      "\<lparr>dlg_executor = 1, dlg_socket = Some 1\<rparr>"]
  by (simp add: dialog_to_native_def to_native_def example_env_def default_handle_def INVALID_SOCKET_def)

end
