(* ===== verification/Accept_Completion.thy ===== *)
theory Accept_Completion
  imports Async_Operations
begin

text \<open>
  Accepting connections asynchronously, from the call of \<^verbatim>\<open>accept\<close> on a dialog to the completion
  (\<^verbatim>\<open>include/io/socket/detail/async_operations.hpp\<close>): the operation on the code's side with the most objects.
  The accepted descriptor passes from the kernel into a handle, from there into the shared handle of a
  new dialog, and must not be lost on any branch.
\<close>

section \<open>The objects an accept touches\<close>

lemma sync_accept_objects:
  assumes "sync_accept os h address e = Some (Inr (sock, addr), e1)"
  shows "sock = next_sid e" and "next_sid e1 = Suc sock"
    and "\<exists>fd. handles e1 = (handles e)(sock := \<lparr>hnd_socket = fd, hnd_error = 0\<rparr>)"
proof -
  obtain sockfd buf len e0 where r: "retry_eintr (\<lambda>r. r = INVALID_SOCKET) (accept_call os (native_fd h e))
      ((address, of_nat (length address)), e) = Some (sockfd, (buf, len), e0)"
    using assms by (auto simp: sync_accept_def)
  have "same_objects e e0" using retry_same_objects [OF accept_call_same_objects r] by simp
  then have "sock = next_sid e \<and> next_sid e1 = Suc sock \<and>
      handles e1 = (handles e)(sock := default_handle\<lparr>hnd_socket := sockfd\<rparr>)"
    using assms r
    by (auto simp: sync_accept_def construct_native_def is_valid_socket_def run_buffer_sys_def
        throw_system_error_def same_objects_def Let_def split: prod.splits if_splits sum.splits)
  then show "sock = next_sid e" "next_sid e1 = Suc sock"
    "\<exists>fd. handles e1 = (handles e)(sock := \<lparr>hnd_socket = fd, hnd_error = 0\<rparr>)"
    by (auto simp: default_handle_def)
qed

lemma destroy_invalid: "\<not> to_bool (handles e sock) \<Longrightarrow> destroy os sock e = e"
proof -
  assume "\<not> to_bool (handles e sock)"
  then have inv: "hnd_socket (handles e sock) = INVALID_SOCKET" by (simp add: to_bool_def)
  then have "(handles e)(sock := (handles e sock)\<lparr>hnd_socket := INVALID_SOCKET\<rparr>) = handles e"
    by (intro fun_upd_idem) (cases "handles e sock", simp)
  with inv show ?thesis unfolding destroy_def close_def Let_def by (simp del: fun_upd_apply)
qed

lemma destroy_default:
  "handles e sock = default_handle \<Longrightarrow> destroy os sock e = e"
  by (rule destroy_invalid) (simp add: to_bool_def default_handle_def)

lemma set_error_errno: "errno (set_error h err e) = errno e" "handles (set_error h err e) k =
    (if k = h then (handles e h)\<lparr>hnd_error := err\<rparr> else handles e k)"
  by (simp_all add: set_error_def)

text \<open>Pushing the accepted handle leaves it empty; the temporary handle is then destroyed for nothing.\<close>

lemma push_accepted:
  assumes "sock < next_sid e1" and "to_bool (handles e1 sock)"
    and "executor_push_handle os sock e1 = (Inr new, e2)"
  shows "new = next_sid e1" and "handles e2 = (handles e1)(sock := default_handle, new := handles e1 sock)"
    and "destroy os sock e2 = e2"
proof -
  from push_handle_effect [OF assms(1,2), of os] assms(3)
  show new: "new = next_sid e1" and h: "handles e2 = (handles e1)(sock := default_handle, new := handles e1 sock)"
    by simp_all
  show "destroy os sock e2 = e2" using new h assms(1) by (intro destroy_default) simp
qed

lemma push_rejected:
  assumes "sock < next_sid e1" and "to_bool (handles e1 sock)"
    and "executor_push_handle os sock e1 = (Inl x, e2)"
  shows "handles e2 = (handles e1)(sock := default_handle,
      next_sid e1 := (handles e1 sock)\<lparr>hnd_socket := INVALID_SOCKET\<rparr>)"
    and "\<exists>w. world e2 = snd (snd (os_close os (to_native (handles e1 sock)) w))"
    and "destroy os sock e2 = e2"
proof -
  from push_handle_effect [OF assms(1,2), of os] assms(3)
  show h: "handles e2 = (handles e1)(sock := default_handle,
      next_sid e1 := (handles e1 sock)\<lparr>hnd_socket := INVALID_SOCKET\<rparr>)"
    and "\<exists>w. world e2 = snd (snd (os_close os (to_native (handles e1 sock)) w))"
    by simp_all
  show "destroy os sock e2 = e2" using h assms(1) by (intro destroy_default) simp
qed

lemma async_accept_cases:
  assumes "alive ex" and "fst (fairness_tick e) \<noteq> 0"
    and "sync_accept os h address (snd (fairness_tick e)) = Some (Inr (sock, addr), e1)"
  shows "async_accept True alive os \<lparr>dlg_executor = ex, dlg_socket = Some h\<rparr> address e =
    (if to_bool (handles e1 sock) then
       (case executor_push_handle os sock e1 of
          (Inl x, e2) \<Rightarrow> Some (Inl x, e2)
        | (Inr new, e2) \<Rightarrow> Some (Inr (executor_set h EAGER (constant_functor
            (\<lparr>dlg_executor = ex, dlg_socket = Some new\<rparr>, addr))), e2))
     else if failed (errno e1) then Some (Inr (executor_set h EAGER empty_functor), set_error h (errno e1) e1)
     else Some (Inr (executor_set h READ (accept_handler os ex h address)), set_error h (errno e1) e1))"
proof -
  note new = sync_accept_objects [OF assms(3)]
  have sock: "sock < next_sid e1" using new by simp
  have dest: "destroy os sock (set_error h err e1) = set_error h err e1" if "\<not> to_bool (handles e1 sock)" for err
    using that by (intro destroy_invalid) (auto simp: set_error_errno to_bool_def)
  obtain c e0 where "fairness_tick e = (c, e0)" by fastforce
  then show ?thesis
    using assms dest push_accepted(3) [OF sock] push_rejected(3) [OF sock]
    by (auto simp: async_accept_def with_socket_def get_executor_def set_error_frame Let_def
        split: prod.splits sum.splits)
qed

text \<open>What the eager attempt of an accept leaves: a temporary handle, and the listening socket as it was.\<close>

lemma accept_attempt:
  assumes "sync_accept os h address (snd (fairness_tick e)) = Some (Inr (sock, addr), e1)" and "h < next_sid e"
  shows "sock = next_sid e" and "next_sid e1 = Suc sock" and "h \<noteq> sock" and "handles e1 h = handles e h"
    and "\<exists>fd. handles e1 = (handles e)(sock := \<lparr>hnd_socket = fd, hnd_error = 0\<rparr>)"
proof -
  note obj = sync_accept_objects [OF assms(1)]
  show sock: "sock = next_sid e" "next_sid e1 = Suc sock" using obj(1,2) by (simp_all add: fairness_tick_def)
  show "\<exists>fd. handles e1 = (handles e)(sock := \<lparr>hnd_socket = fd, hnd_error = 0\<rparr>)"
    using obj(3) by (simp add: fairness_tick_def)
  with sock assms(2) show "h \<noteq> sock" "handles e1 h = handles e h" by auto
qed

lemma launch_accepted:
  assumes m: "m = Some (Inr (executor_set h EAGER (constant_functor (\<lparr>dlg_executor = ex, dlg_socket = Some new\<rparr>, addr))), e2)"
    and acc: "sync_accept os h address (snd (fairness_tick e)) = Some (Inr (sock, addr), e1)" "h < next_sid e"
    and ok: "to_bool (handles e1 sock)" "executor_push_handle os sock e1 = (Inr new, e2)"
    and "\<not> failed (get_error h e)"
  shows "handles e2 = (handles e)(sock := default_handle, new := handles e1 sock)"
    and "\<exists>op. launch rcv t m s = Some (Inr (), deliver rcv t
      (Set_value (\<lparr>dlg_executor = ex, dlg_socket = Some new\<rparr>, addr)) (s\<lparr>sys_env := e2, ops := (ops s)(t \<mapsto> op)\<rparr>))"
proof -
  note att = accept_attempt [OF acc]
  have "sock < next_sid e1" using att(2) by simp
  note push = push_accepted [OF this ok]
  show e2: "handles e2 = (handles e)(sock := default_handle, new := handles e1 sock)"
    using push(1,2) att by (auto simp: fun_eq_iff)
  have "handles e2 h = handles e h" using e2 att(1-3) push(1) acc(2) by simp
  then have "\<not> failed (get_error h e2)" using assms(6) by (simp add: get_error_def)
  then show "\<exists>op. launch rcv t m s = Some (Inr (), deliver rcv t
      (Set_value (\<lparr>dlg_executor = ex, dlg_socket = Some new\<rparr>, addr)) (s\<lparr>sys_env := e2, ops := (ops s)(t \<mapsto> op)\<rparr>))"
    by (intro launch_eager_value [OF m])
qed

section \<open>Properties\<close>

text \<open>
  (C9) Accepting, from the call to its completion, on a healthy listening socket and when the fairness
  counter allows the eager attempt. A connection that is there completes the operation at once with a
  new dialog on the same executor: its shared handle owns the accepted descriptor, the temporary handle
  is empty and all other handles are as they were. When the new socket cannot be made non-blocking,
  the call throws, the descriptor has been closed, and no handle holds it. When there is no connection
  yet, the operation waits as a reader behind those already waiting, with no change to any other queue, with
  its event in the next call of \<^verbatim>\<open>poll\<close> and with a handler that accepts again. Any other
  failure is stored in the listening socket and delivered as the error of the operation.
\<close>

theorem accept_completion:
  fixes s :: "(accepted, 'w) sys"
  assumes "mux_wf s" and "covered s" and "ops s t = None" and "alive ex"
    and "usable_fd (native_fd h (sys_env s))" and "\<not> failed (get_error h (sys_env s))"
    and "h < next_sid (sys_env s)" and "fst (fairness_tick (sys_env s)) \<noteq> 0"
    and "sync_accept os h address (snd (fairness_tick (sys_env s))) = Some (Inr (sock, addr), e1)"
  shows "\<exists>result. launch rcv t
      (async_accept True alive os \<lparr>dlg_executor = ex, dlg_socket = Some h\<rparr> address (sys_env s)) s = Some result \<and>
    (\<forall>new. to_bool (handles e1 sock) \<and> fst (executor_push_handle os sock e1) = Inr new \<longrightarrow>
       (\<exists>e2 op. result = (Inr (), deliver rcv t (Set_value (\<lparr>dlg_executor = ex, dlg_socket = Some new\<rparr>, addr))
          (s\<lparr>sys_env := e2, ops := (ops s)(t \<mapsto> op)\<rparr>)) \<and>
        handles e2 = (handles (sys_env s))(sock := default_handle, new := handles e1 sock))) \<and>
    (\<forall>x. to_bool (handles e1 sock) \<and> fst (executor_push_handle os sock e1) = Inl x \<longrightarrow>
       (\<exists>e2. result = (Inl x, s\<lparr>sys_env := e2\<rparr>) \<and>
        (\<exists>w. world e2 = snd (snd (os_close os (to_native (handles e1 sock)) w))) \<and>
        (\<forall>k. k < next_sid (sys_env s) \<longrightarrow> handles e2 k = handles (sys_env s) k) \<and>
        \<not> to_bool (handles e2 sock) \<and> \<not> to_bool (handles e2 (next_sid e1)))) \<and>
    (\<not> to_bool (handles e1 sock) \<and> failed (errno e1) \<longrightarrow>
       (\<exists>op. result = (Inr (), deliver rcv t (Set_error (errno e1))
          (s\<lparr>sys_env := set_error h (errno e1) e1, ops := (ops s)(t \<mapsto> op)\<rparr>)))) \<and>
    (\<not> to_bool (handles e1 sock) \<and> \<not> failed (errno e1) \<longrightarrow>
       (\<exists>s'. result = (Inr (), s') \<and> mux_wf s' \<and> covered s' \<and> completions s' = completions s \<and>
        joins_queue READ (nat (native_fd h (sys_env s))) t s s' \<and> asks_for READ (native_fd h (sys_env s)) s' \<and>
        (\<exists>op. ops s' = (ops s)(t \<mapsto> op) \<and> op_func op = accept_handler os ex h address)))"
proof -
  let ?m = "async_accept True alive os \<lparr>dlg_executor = ex, dlg_socket = Some h\<rparr> address (sys_env s)"
  note m = async_accept_cases [of alive, OF assms(4,8,9)] and att = accept_attempt [OF assms(9,7)]
  show ?thesis
  proof (cases "to_bool (handles e1 sock)")
    case True
    obtain r e2 where push: "executor_push_handle os sock e1 = (r, e2)" by fastforce
    show ?thesis
    proof (cases r)
      case (Inl x)
      have "sock < next_sid e1" using att(2) by simp
      note rejected = push_rejected [OF this True push [unfolded Inl]]
      have "launch rcv t ?m s = Some (Inl x, s\<lparr>sys_env := e2\<rparr>)"
        using m True push Inl by (simp add: launch_def)
      moreover have "\<not> to_bool (handles e2 sock)" "\<not> to_bool (handles e2 (next_sid e1))"
        "\<forall>k. k < next_sid (sys_env s) \<longrightarrow> handles e2 k = handles (sys_env s) k"
        using rejected(1) att by (auto simp: to_bool_def default_handle_def)
      ultimately show ?thesis using True push Inl rejected(2) by auto
    next
      case (Inr new)
      have "?m = Some (Inr (executor_set h EAGER (constant_functor (\<lparr>dlg_executor = ex, dlg_socket = Some new\<rparr>, addr))), e2)"
        using m True push Inr by simp
      note accepted = launch_accepted [OF this assms(9,7) True push [unfolded Inr] assms(6)]
      show ?thesis using True push Inr accepted(1) accepted(2) [of rcv t s] by auto
    qed
  next
    case False
    let ?e2 = "set_error h (errno e1) e1"
    have "native_fd h ?e2 = native_fd h (sys_env s)"
      using att(4) by (simp add: set_error_frame) (simp add: native_fd_def)
    then show ?thesis
      using launch_failed_socket [of ?m h EAGER empty_functor ?e2 rcv t s] m False
        launch_waiting [of ?m h READ "accept_handler os ex h address" ?e2 s t rcv] assms(1-3,5)
      by (cases "failed (errno e1)") (auto simp: set_error_frame)
  qed
qed

lemma ticking_accept:
  shows "sync_accept (ticking_os intr) h [] e = Some (Inr (next_sid e, []),
    e\<lparr>next_sid := Suc (next_sid e), handles := (handles e)(next_sid e := \<lparr>hnd_socket = 8, hnd_error = 0\<rparr>)\<rparr>)"
proof -
  have "accept_call (ticking_os intr) (native_fd h e) (([], 0), e) = (8, ([], 0), e)"
    by (simp add: accept_call_def run_buffer_sys_def ticking_os_def)
  then have "retry_eintr (\<lambda>r. r = INVALID_SOCKET) (accept_call (ticking_os intr) (native_fd h e)) (([], 0), e) =
      Some (8, ([], 0), e)"
    by (subst retry_once) (auto simp: interrupted_def INVALID_SOCKET_def)
  then show ?thesis
    by (simp add: sync_accept_def construct_native_def is_valid_socket_def run_buffer_sys_def ticking_os_def
        subspan_def default_handle_def INVALID_SOCKET_def Let_def)
qed

theorem accept_completion_witness:
  "\<exists>s'. launch no_reaction 7 (async_accept True (\<lambda>ex. True) (ticking_os (\<lambda>w. False))
       \<lparr>dlg_executor = 0, dlg_socket = Some 0\<rparr> [] (example_env\<lparr>next_sid := 1\<rparr>))
       (initial_sys (example_env\<lparr>next_sid := 1\<rparr>)) = Some (Inr (), s') \<and>
     completions s' = [(7, Set_value (\<lparr>dlg_executor = 0, dlg_socket = Some 2\<rparr>, []))] \<and>
     handles (sys_env s') 2 = \<lparr>hnd_socket = 8, hnd_error = 0\<rparr>"
proof -
  let ?e = "example_env\<lparr>next_sid := 1\<rparr>" and ?os = "ticking_os (\<lambda>w. False)"
  let ?s = "initial_sys ?e :: (accepted, nat) sys"
  let ?t = "snd (fairness_tick ?e)"
  define e1 where "e1 = ?t\<lparr>next_sid := 2, handles := (handles ?t)(1 := \<lparr>hnd_socket = 8, hnd_error = 0\<rparr>)\<rparr>"
  have sys: "sys_env ?s = ?e" "completions ?s = []" "ops ?s 7 = None" by (simp_all add: initial_sys_def)
  have acc: "sync_accept ?os 0 [] ?t = Some (Inr (1, []), e1)"
    using ticking_accept [of "\<lambda>w. False" 0 ?t] by (simp add: e1_def fairness_tick_def errno_defs numeral_2_eq_2)
  have fc: "sync_fcntl ?os k c a e = (0, e)" for k c a e
    by (simp add: sync_fcntl_def run_sys_def ticking_os_def)
  have bool: "to_bool (handles e1 1)" and new: "fst (executor_push_handle ?os 1 e1) = Inr 2"
    by (simp_all add: e1_def to_bool_def INVALID_SOCKET_def executor_push_handle_def executor_push_def fc Let_def)
  have pre: "usable_fd (native_fd 0 ?e)" "\<not> failed (get_error 0 ?e)" "0 < next_sid ?e"
    "fst (fairness_tick ?e) \<noteq> 0"
    by (simp_all add: usable_fd_def native_fd_def to_native_def get_error_def failed_def example_env_def
        fairness_tick_def blank_env_def)
  let ?m = "async_accept True (\<lambda>ex. True) ?os \<lparr>dlg_executor = 0, dlg_socket = Some 0\<rparr> [] ?e"
  let ?done = "\<lambda>result new. \<exists>e2 op. result = (Inr (), deliver no_reaction 7
        (Set_value (\<lparr>dlg_executor = 0, dlg_socket = Some new\<rparr>, [])) (?s\<lparr>sys_env := e2, ops := (ops ?s)(7 \<mapsto> op)\<rparr>)) \<and>
      handles e2 = (handles ?e)(1 := default_handle, new := handles e1 1)"
  note accept_completion [where s = ?s and t = 7 and alive = "\<lambda>ex. True" and ex = 0 and h = 0 and os = ?os
      and address = "[]" and sock = 1 and addr = "[]" and ?e1.0 = e1 and rcv = no_reaction,
      OF initial_sys_ok sys(3) TrueI, unfolded sys(1), OF pre acc]
  then have "\<exists>result. launch no_reaction 7 ?m ?s = Some result \<and>
      (\<forall>new. to_bool (handles e1 1) \<and> fst (executor_push_handle ?os 1 e1) = Inr new \<longrightarrow> ?done result new)"
    by (elim ex_forward conjE) (intro conjI; assumption)
  then obtain result where r: "launch no_reaction 7 ?m ?s = Some result" and "?done result 2"
    using bool new by (elim exE conjE, drule_tac x = 2 in spec) simp
  with r show ?thesis using sys(2) by (auto simp: deliver_def no_reaction_def e1_def)
qed

end
