(* ===== verification/Executor_Lifetime.thy ===== *)
theory Executor_Lifetime
  imports Async_Operations
begin

text \<open>
  Who keeps an executor alive: the triggers objects of \<^verbatim>\<open>include/io/execution/triggers.hpp\<close> with their
  constructors, moves and destructor, and the weak pointers their dialogs hold.

  \<open>trg_obj\<close> gives the member \<^verbatim>\<open>executor_\<close> of every triggers object that exists; \<open>exec_refs\<close> lists the other shared
  pointers to executors, which are the locals of the asynchronous operations and the captures of
  waiting accepts. The identifier \<open>no_executor\<close> is a null pointer. An executor exists as long as a
  shared pointer refers to it, and locking a weak pointer succeeds exactly then.
\<close>

section \<open>Objects\<close>

definition no_executor :: eid where
  "no_executor = 0"

record owners =
  trg_obj :: "nat \<rightharpoonup> eid"
  exec_refs :: "eid list"
  next_exec :: eid

definition no_owners :: owners where
  "no_owners = \<lparr>trg_obj = Map.empty, exec_refs = [], next_exec = 1\<rparr>"

definition exec_alive :: "owners \<Rightarrow> eid \<Rightarrow> bool" where
  "exec_alive h ex \<longleftrightarrow> ex \<noteq> no_executor \<and> (ex \<in> ran (trg_obj h) \<or> ex \<in> set (exec_refs h))"

text \<open>The constructors make an executor, with the default allocator or with a given one.\<close>

definition trg_construct :: "nat \<Rightarrow> owners \<Rightarrow> owners" where
  "trg_construct this h = h\<lparr>trg_obj := (trg_obj h)(this \<mapsto> next_exec h), next_exec := Suc (next_exec h)\<rparr>"

text \<open>The defaulted moves move the shared pointer; assigning an object to itself changes nothing.\<close>

definition trg_move_construct :: "nat \<Rightarrow> nat \<Rightarrow> owners \<Rightarrow> owners" where
  "trg_move_construct this other h =
     (case trg_obj h other of
        None \<Rightarrow> h
      | Some ex \<Rightarrow> h\<lparr>trg_obj := (trg_obj h)(other \<mapsto> no_executor, this \<mapsto> ex)\<rparr>)"

definition trg_move_assign :: "nat \<Rightarrow> nat \<Rightarrow> owners \<Rightarrow> owners" where
  "trg_move_assign this other h =
     (if this = other then h
      else case trg_obj h other of
             None \<Rightarrow> h
           | Some ex \<Rightarrow> h\<lparr>trg_obj := (trg_obj h)(other \<mapsto> no_executor, this \<mapsto> ex)\<rparr>)"

definition trg_destroy :: "nat \<Rightarrow> owners \<Rightarrow> owners" where
  "trg_destroy this h = h\<lparr>trg_obj := (trg_obj h)(this := None)\<rparr>"

text \<open>\<^verbatim>\<open>get_executor\<close> gives a weak pointer.\<close>

definition trg_get_executor :: "nat \<Rightarrow> owners \<Rightarrow> eid" where
  "trg_get_executor this h = (case trg_obj h this of None \<Rightarrow> no_executor | Some ex \<Rightarrow> ex)"

text \<open>Locking a weak pointer, and giving up the shared pointer.\<close>

definition exec_lock :: "eid \<Rightarrow> owners \<Rightarrow> owners" where
  "exec_lock ex h = (if exec_alive h ex then h\<lparr>exec_refs := ex # exec_refs h\<rparr> else h)"

definition exec_unlock :: "eid \<Rightarrow> owners \<Rightarrow> owners" where
  "exec_unlock ex h = h\<lparr>exec_refs := remove1 ex (exec_refs h)\<rparr>"

section \<open>Operations through a triggers object\<close>

text \<open>
  \<^verbatim>\<open>push\<close> and \<^verbatim>\<open>emplace\<close> call static members and copy the pointer; the others dereference it.
\<close>

definition trg_push ::
  "'w os \<Rightarrow> nat \<Rightarrow> owners \<Rightarrow> sid \<Rightarrow> 'w env \<Rightarrow> (exn + socket_dialog) \<times> 'w env" where
  "trg_push os this h s e = triggers_push os (trg_get_executor this h) s e"

definition through :: "nat \<Rightarrow> owners \<Rightarrow> 's \<Rightarrow> ('a, 's) outcome \<Rightarrow> ('a, 's) outcome" where
  "through this h s k =
     (if trg_get_executor this h = no_executor then Some (Inl (Undefined ''null executor''), s) else k)"

definition trg_wait_for ::
  "'w os \<Rightarrow> ('v, 'w) receivers \<Rightarrow> nat \<Rightarrow> owners \<Rightarrow> int \<Rightarrow> ('v, 'w) sys \<Rightarrow> (nat, ('v, 'w) sys) outcome" where
  "trg_wait_for os rcv this h interval s = through this h s (triggers_wait_for os rcv interval s)"

definition trg_wait ::
  "'w os \<Rightarrow> ('v, 'w) receivers \<Rightarrow> nat \<Rightarrow> owners \<Rightarrow> ('v, 'w) sys \<Rightarrow> (nat, ('v, 'w) sys) outcome" where
  "trg_wait os rcv this h s = through this h s (triggers_wait os rcv s)"

definition trg_set ::
  "nat \<Rightarrow> owners \<Rightarrow> sid \<Rightarrow> execution_trigger \<Rightarrow> ('v, 'w) handler \<Rightarrow> exn + ('v, 'w) sender" where
  "trg_set this h socket trigger func =
     (if trg_get_executor this h = no_executor then Inl (Undefined ''null executor'')
      else Inr (triggers_set socket trigger func))"

section \<open>Histories\<close>

datatype owner_op =
    Construct nat
  | Move_construct nat nat
  | Move_assign nat nat
  | Destroy nat
  | Lock eid
  | Unlock eid

text \<open>An object is constructed where there is none, and only objects that exist are used.\<close>

fun owner_step :: "owner_op \<Rightarrow> owners \<Rightarrow> owners" where
  "owner_step (Construct g) h = (if trg_obj h g = None then trg_construct g h else h)"
| "owner_step (Move_construct g g') h = (if trg_obj h g = None then trg_move_construct g g' h else h)"
| "owner_step (Move_assign g g') h = (if trg_obj h g \<noteq> None then trg_move_assign g g' h else h)"
| "owner_step (Destroy g) h = trg_destroy g h"
| "owner_step (Lock ex) h = exec_lock ex h"
| "owner_step (Unlock ex) h = exec_unlock ex h"

text \<open>No two triggers objects share an executor, and identifiers are not reused.\<close>

definition owners_ok :: "owners \<Rightarrow> bool" where
  "owners_ok h \<longleftrightarrow>
     (\<forall>g g' ex. trg_obj h g = Some ex \<longrightarrow> trg_obj h g' = Some ex \<longrightarrow> ex \<noteq> no_executor \<longrightarrow> g = g') \<and>
     (\<forall>g ex. trg_obj h g = Some ex \<longrightarrow> ex < next_exec h) \<and> (\<forall>ex \<in> set (exec_refs h). ex < next_exec h) \<and>
     0 < next_exec h"

lemma owners_ok_step: "owners_ok h \<Longrightarrow> owners_ok (owner_step op h)"
proof (cases op)
  case (Construct g)
  then show "owners_ok h \<Longrightarrow> owners_ok (owner_step op h)"
    by (auto simp: owners_ok_def trg_construct_def less_Suc_eq split: if_splits)
next
  case (Lock ex)
  then show "owners_ok h \<Longrightarrow> owners_ok (owner_step op h)"
    by (auto simp: owners_ok_def exec_lock_def exec_alive_def ran_def)
next
  case (Unlock ex)
  then show "owners_ok h \<Longrightarrow> owners_ok (owner_step op h)"
    by (auto simp: owners_ok_def exec_unlock_def dest: set_mp [OF set_remove1_subset])
qed (auto simp: owners_ok_def trg_move_construct_def trg_move_assign_def trg_destroy_def no_executor_def
    split: option.splits if_splits)

lemma owners_ok_history: "owners_ok (fold owner_step hist h)" if "owners_ok h"
  using that by (induction hist arbitrary: h) (auto intro: owners_ok_step)

lemma owners_ok_initial: "owners_ok no_owners"
  by (simp add: owners_ok_def no_owners_def)

lemma exec_alive_destroy:
  assumes "owners_ok h" and "trg_obj h g = Some ex" and "ex \<noteq> no_executor"
  shows "exec_alive (trg_destroy g h) ex' \<longleftrightarrow>
    (if ex' = ex then ex \<in> set (exec_refs h) else exec_alive h ex')"
proof -
  have uniq: "g' = g" if "trg_obj h g' = Some ex" for g'
    using that assms unfolding owners_ok_def by blast
  have "ex' \<in> ran ((trg_obj h)(g := None)) \<longleftrightarrow> (\<exists>g'. g' \<noteq> g \<and> trg_obj h g' = Some ex')"
    by (auto simp: ran_def)
  also have "\<dots> \<longleftrightarrow> ex' \<noteq> ex \<and> ex' \<in> ran (trg_obj h)"
  proof
    assume "\<exists>g'. g' \<noteq> g \<and> trg_obj h g' = Some ex'"
    then show "ex' \<noteq> ex \<and> ex' \<in> ran (trg_obj h)" using uniq by (auto intro: ranI)
  next
    assume other: "ex' \<noteq> ex \<and> ex' \<in> ran (trg_obj h)"
    then obtain g' where "trg_obj h g' = Some ex'" by (auto simp: ran_def)
    then show "\<exists>g'. g' \<noteq> g \<and> trg_obj h g' = Some ex'" using other assms(2) by (intro exI [of _ g']) auto
  qed
  finally have "ex' \<in> ran ((trg_obj h)(g := None)) \<longleftrightarrow> ex' \<noteq> ex \<and> ex' \<in> ran (trg_obj h)" .
  then show ?thesis using assms(3) by (auto simp: exec_alive_def trg_destroy_def)
qed

lemma exec_alive_move:
  assumes "trg_obj h g = Some ex" and "trg_obj h g' = None"
  shows "exec_alive (trg_move_construct g' g h) ex' = exec_alive h ex'"
proof -
  have neq: "g \<noteq> g'" using assms by auto
  let ?m = "(trg_obj h)(g \<mapsto> no_executor, g' \<mapsto> ex)"
  have "ex' \<in> ran ?m \<longleftrightarrow> ex' \<in> ran (trg_obj h)" if "ex' \<noteq> no_executor"
  proof
    assume "ex' \<in> ran ?m"
    then obtain k where "?m k = Some ex'" by (auto simp: ran_def)
    with that assms(1) show "ex' \<in> ran (trg_obj h)" by (auto split: if_splits intro: ranI)
  next
    assume "ex' \<in> ran (trg_obj h)"
    then obtain k where "trg_obj h k = Some ex'" by (auto simp: ran_def)
    with assms neq have "?m (if k = g then g' else k) = Some ex'" by auto
    then show "ex' \<in> ran ?m" by (rule ranI)
  qed
  then show ?thesis using assms(1) by (auto simp: exec_alive_def trg_move_construct_def)
qed

lemma exec_alive_assign:
  assumes "owners_ok h" and "trg_obj h g = Some ex" and "trg_obj h g' = Some old" and "g \<noteq> g'"
  shows "exec_alive (trg_move_assign g' g h) x \<longleftrightarrow>
    (if x = old then x \<noteq> no_executor \<and> x \<in> set (exec_refs h) else exec_alive h x)"
proof -
  let ?m = "(trg_obj h)(g \<mapsto> no_executor, g' \<mapsto> ex)"
  have uniq: "k = l" if "trg_obj h k = Some x" "trg_obj h l = Some x" "x \<noteq> no_executor" for k l
    using that assms(1) unfolding owners_ok_def by blast
  have "x \<in> ran ?m \<longleftrightarrow> x \<noteq> old \<and> x \<in> ran (trg_obj h)" if "x \<noteq> no_executor"
  proof
    assume "x \<in> ran ?m"
    then obtain k where "?m k = Some x" by (auto simp: ran_def)
    then have "x \<in> ran (trg_obj h) \<and> x \<noteq> old"
      using that assms(2-4) uniq [of k g'] uniq [of g g'] by (auto simp: ran_def split: if_splits)
    then show "x \<noteq> old \<and> x \<in> ran (trg_obj h)" by simp
  next
    assume "x \<noteq> old \<and> x \<in> ran (trg_obj h)"
    then obtain k where k: "trg_obj h k = Some x" "x \<noteq> old" by (auto simp: ran_def)
    then have "?m (if k = g then g' else k) = Some x" using assms(2,3) by auto
    then show "x \<in> ran ?m" by (rule ranI)
  qed
  then show ?thesis using assms(2-4) by (auto simp: exec_alive_def trg_move_assign_def)
qed

text \<open>
  An executor that no triggers object holds is never held by one again, and one that does not exist never
  exists again: identifiers are not reused, and locking a weak pointer needs a shared one.
\<close>

definition orphan :: "eid \<Rightarrow> owners \<Rightarrow> bool" where
  "orphan ex h \<longleftrightarrow> ex \<noteq> no_executor \<and> ex < next_exec h \<and> ex \<notin> ran (trg_obj h)"

lemma orphan_step: "orphan ex h \<Longrightarrow> orphan ex (owner_step op h)"
  by (cases op)
    (auto simp: orphan_def ran_def trg_construct_def trg_move_construct_def trg_move_assign_def trg_destroy_def
      exec_lock_def exec_unlock_def split: option.splits if_splits)

lemma orphan_later: "orphan ex h \<Longrightarrow> orphan ex (fold owner_step later h)"
  by (induction later arbitrary: h) (simp_all add: orphan_step)

lemma orphan_alive: "orphan ex h \<Longrightarrow> exec_alive h ex \<longleftrightarrow> ex \<in> set (exec_refs h)"
  by (auto simp: orphan_def exec_alive_def)

lemma released_step:
  assumes "orphan ex h" and "ex \<notin> set (exec_refs h)"
  shows "ex \<notin> set (exec_refs (owner_step op h))"
  using assms orphan_alive [OF assms(1)] notin_set_remove1 [OF assms(2)]
  by (cases op)
    (auto simp: trg_construct_def trg_move_construct_def trg_move_assign_def trg_destroy_def
      exec_lock_def exec_unlock_def split: option.splits if_splits)

lemma released_later:
  "orphan ex h \<Longrightarrow> ex \<notin> set (exec_refs h) \<Longrightarrow> ex \<notin> set (exec_refs (fold owner_step later h))"
  by (induction later arbitrary: h) (simp_all add: orphan_step released_step)

lemma destroyed_orphan:
  assumes "owners_ok h" and "trg_obj h g = Some ex" and "ex \<noteq> no_executor"
  shows "orphan ex (trg_destroy g h)"
proof -
  have "g' = g" if "trg_obj h g' = Some ex" for g'
    using that assms unfolding owners_ok_def by blast
  then show ?thesis using assms by (auto simp: orphan_def trg_destroy_def ran_def owners_ok_def split: if_splits)
qed

lemma expired_rejected:
  assumes "\<not> alive ex"
  shows "async_sendmsg eager alive os \<lparr>dlg_executor = ex, dlg_socket = sk\<rparr> msg flags e = Some (Inl Invalid_argument, e)"
    and "async_recvmsg eager alive os \<lparr>dlg_executor = ex, dlg_socket = sk\<rparr> mid msg flags e = Some (Inl Invalid_argument, e)"
    and "async_accept eager alive os \<lparr>dlg_executor = ex, dlg_socket = sk\<rparr> address e = Some (Inl Invalid_argument, e)"
    and "async_connect alive os \<lparr>dlg_executor = ex, dlg_socket = sk\<rparr> address e = Some (Inl Invalid_argument, e)"
  using assms
  by (simp_all add: async_accept_def async_connect_def async_recvmsg_def async_sendmsg_def with_socket_def
      get_executor_def)

section \<open>Properties\<close>

text \<open>
  (C17) The lifetime of an executor. Whatever was done with the triggers objects before, an executor that
  one of them holds exists and has no other triggers object as its owner. Moving the object, by
  construction or by assignment, hands the executor over and leaves a null pointer behind; the executor that
  the target of an assignment held before goes unless another shared pointer refers to it, and all others
  stay. When the object is destroyed, only the other shared pointers, such as that of a waiting accept, keep
  its executor, whatever is done later; and from the moment the last of them is given up, every
  asynchronous operation on a dialog of the executor is rejected for good.
\<close>

theorem executor_lifetime:
  fixes hist
  defines "h \<equiv> fold owner_step hist no_owners"
  assumes own: "trg_obj h g = Some ex" "ex \<noteq> no_executor"
  shows "exec_alive h ex \<and> (\<forall>g'. trg_obj h g' = Some ex \<longrightarrow> g' = g) \<and>
    (\<forall>g'. trg_obj h g' = None \<longrightarrow>
       trg_obj (trg_move_construct g' g h) g' = Some ex \<and>
       trg_get_executor g (trg_move_construct g' g h) = no_executor \<and>
       exec_alive (trg_move_construct g' g h) = exec_alive h) \<and>
    (\<forall>g' old. trg_obj h g' = Some old \<and> g' \<noteq> g \<longrightarrow>
       trg_obj (trg_move_assign g' g h) g' = Some ex \<and>
       trg_get_executor g (trg_move_assign g' g h) = no_executor \<and>
       (\<forall>x. exec_alive (trg_move_assign g' g h) x \<longleftrightarrow>
          (if x = old then x \<noteq> no_executor \<and> x \<in> set (exec_refs h) else exec_alive h x))) \<and>
    (\<forall>ex'. ex' \<noteq> ex \<longrightarrow> exec_alive (trg_destroy g h) ex' = exec_alive h ex') \<and>
    (\<forall>later h'. h' = fold owner_step later (trg_destroy g h) \<longrightarrow>
       (exec_alive h' ex \<longleftrightarrow> ex \<in> set (exec_refs h')) \<and>
       (\<forall>more alive. ex \<notin> set (exec_refs h') \<and> alive = exec_alive (fold owner_step more h') \<longrightarrow>
          async_sendmsg eager alive os \<lparr>dlg_executor = ex, dlg_socket = sk\<rparr> msg flags e = Some (Inl Invalid_argument, e) \<and>
          async_recvmsg eager alive os \<lparr>dlg_executor = ex, dlg_socket = sk\<rparr> mid msg flags e = Some (Inl Invalid_argument, e) \<and>
          async_accept eager alive os \<lparr>dlg_executor = ex, dlg_socket = sk\<rparr> address e = Some (Inl Invalid_argument, e) \<and>
          async_connect alive os \<lparr>dlg_executor = ex, dlg_socket = sk\<rparr> address e = Some (Inl Invalid_argument, e)))"
proof -
  have ok: "owners_ok h" unfolding h_def by (rule owners_ok_history [OF owners_ok_initial])
  have orphan: "orphan ex (fold owner_step later (trg_destroy g h))" for later
    by (rule orphan_later [OF destroyed_orphan [OF ok own]])
  have alive: "exec_alive h ex" using own by (auto simp: exec_alive_def ran_def)
  have uniq: "\<forall>g'. trg_obj h g' = Some ex \<longrightarrow> g' = g" using ok own by (auto simp: owners_ok_def)
  have construct: "\<forall>g'. trg_obj h g' = None \<longrightarrow>
      trg_obj (trg_move_construct g' g h) g' = Some ex \<and>
      trg_get_executor g (trg_move_construct g' g h) = no_executor \<and>
      exec_alive (trg_move_construct g' g h) = exec_alive h"
  proof (intro allI impI)
    fix g' assume none: "trg_obj h g' = None"
    then have "g \<noteq> g'" using own by auto
    then show "trg_obj (trg_move_construct g' g h) g' = Some ex \<and>
        trg_get_executor g (trg_move_construct g' g h) = no_executor \<and>
        exec_alive (trg_move_construct g' g h) = exec_alive h"
      using own exec_alive_move [OF own(1) none]
      by (auto simp: trg_move_construct_def trg_get_executor_def)
  qed
  have assign: "\<forall>g' old. trg_obj h g' = Some old \<and> g' \<noteq> g \<longrightarrow>
      trg_obj (trg_move_assign g' g h) g' = Some ex \<and>
      trg_get_executor g (trg_move_assign g' g h) = no_executor \<and>
      (\<forall>x. exec_alive (trg_move_assign g' g h) x \<longleftrightarrow>
         (if x = old then x \<noteq> no_executor \<and> x \<in> set (exec_refs h) else exec_alive h x))"
    using own exec_alive_assign [OF ok own(1)] by (auto simp: trg_move_assign_def trg_get_executor_def)
  have others: "\<forall>ex'. ex' \<noteq> ex \<longrightarrow> exec_alive (trg_destroy g h) ex' = exec_alive h ex'"
    using exec_alive_destroy [OF ok own] by simp
  have dead: "\<not> exec_alive (fold owner_step more h') ex"
    if "h' = fold owner_step later (trg_destroy g h)" "ex \<notin> set (exec_refs h')" for later more h'
    using orphan_alive [OF orphan_later] released_later that orphan by metis
  show ?thesis
    by (intro conjI alive uniq construct assign others; intro allI impI; (elim conjE)?; intro conjI allI impI; (elim conjE)?)
      (simp_all add: expired_rejected orphan_alive [OF orphan] dead)
qed

theorem executor_lifetime_witness:
  "async_connect (exec_alive (fold owner_step [Unlock 1, Construct 3, Lock 1, Lock 2]
      (trg_destroy 2 (fold owner_step [Construct 1, Move_construct 2 1, Lock 1] no_owners))))
     (sending_os 5 0) \<lparr>dlg_executor = 1, dlg_socket = Some 0\<rparr> [] example_env =
   Some (Inl Invalid_argument, example_env)"
proof -
  let ?hist = "[Construct 1, Move_construct 2 1, Lock 1]"
  let ?h = "fold owner_step [Unlock 1] (trg_destroy 2 (fold owner_step ?hist no_owners))"
  have "trg_obj (fold owner_step ?hist no_owners) 2 = Some 1" and "1 \<noteq> no_executor" and "1 \<notin> set (exec_refs ?h)"
    by (simp_all add: no_owners_def trg_construct_def trg_move_construct_def no_executor_def exec_lock_def
        exec_unlock_def trg_destroy_def exec_alive_def ran_def)
  moreover have "fold owner_step [Unlock 1, Construct 3, Lock 1, Lock 2]
      (trg_destroy 2 (fold owner_step ?hist no_owners)) = fold owner_step [Construct 3, Lock 1, Lock 2] ?h" by simp
  ultimately show ?thesis
    using executor_lifetime [where hist = ?hist and g = 2 and ex = 1] by metis
qed

text \<open>
  A triggers object that was moved from holds no executor: waiting on it or setting a handler through
  it dereferences a null pointer, while pushing a socket still configures the socket and gives a
  dialog that no asynchronous operation accepts.
\<close>

theorem moved_from_triggers:
  assumes "trg_obj h g = Some ex" and "trg_obj h g' = None"
    and "executor_push os s e = (Inr s', e')"
  shows "trg_wait os rcv g (trg_move_construct g' g h) st = Some (Inl (Undefined ''null executor''), st) \<and>
    trg_set g (trg_move_construct g' g h) s tr f = Inl (Undefined ''null executor'') \<and>
    (\<exists>d. trg_push os g (trg_move_construct g' g h) s e = (Inr d, e') \<and>
       \<not> exec_alive (trg_move_construct g' g h) (dlg_executor d) \<and> dlg_socket d = Some s')"
proof -
  have "g \<noteq> g'" using assms by auto
  then have "trg_get_executor g (trg_move_construct g' g h) = no_executor"
    using assms(1) by (simp add: trg_get_executor_def trg_move_construct_def)
  then show ?thesis
    using assms(3)
    by (simp add: trg_wait_def through_def trg_set_def trg_push_def triggers_push_def exec_alive_def)
qed

end
