(* ===== verification/Executor_Scope.thy ===== *)
theory Executor_Scope
  imports Interleaving Executor_Lifetime
begin

text \<open>
  The scope of an executor: \<^verbatim>\<open>executor::set\<close> and \<^verbatim>\<open>executor::on_empty\<close> of \<^verbatim>\<open>include/io/execution/executor.hpp\<close> and
  \<^verbatim>\<open>basic_triggers::on_empty\<close> of \<^verbatim>\<open>include/io/execution/triggers.hpp\<close>.

  The scope itself, \<^verbatim>\<open>exec::async_scope\<close>, belongs to the sender library: it is the parameter \<open>sc\<close>. The executor
  nests every sender of the multiplexer in it, so that the scope sees an operation begin when it is
  started and end after its receiver was called. What the executor relies on is that the scope counts
  (\<open>counts_nested\<close>): it is empty when as many operations have ended as have begun.

  The steps are those of \<open>Interleaving\<close>, each with what the nesting does to the scope.
\<close>

section \<open>The scope\<close>

text \<open>\<open>scope_idle\<close>: a sender of \<^verbatim>\<open>on_empty\<close> completes.\<close>

record 'sc async_scope =
  scope_new :: 'sc
  scope_begin :: "'sc \<Rightarrow> 'sc"
  scope_end :: "'sc \<Rightarrow> 'sc"
  scope_idle :: "'sc \<Rightarrow> bool"

definition counts_nested :: "'sc async_scope \<Rightarrow> bool" where
  "counts_nested sc \<longleftrightarrow>
     (\<exists>cnt :: 'sc \<Rightarrow> nat. cnt (scope_new sc) = 0 \<and> (\<forall>x. cnt (scope_begin sc x) = Suc (cnt x)) \<and>
        (\<forall>x n. cnt x = Suc n \<longrightarrow> cnt (scope_end sc x) = n) \<and> (\<forall>x. scope_idle sc x \<longleftrightarrow> cnt x = 0))"

section \<open>The executor\<close>

text \<open>The multiplexer an executor is, with the threads that use it, and the member \<^verbatim>\<open>scope_\<close>.\<close>

record ('v, 'w, 'sc) executor =
  mux :: "('v, 'w) conc"
  exec_scope :: 'sc

definition new_executor :: "'sc async_scope \<Rightarrow> 'w env \<Rightarrow> ('v, 'w, 'sc) executor" where
  "new_executor sc e = \<lparr>mux = initial_conc e, exec_scope = scope_new sc\<rparr>"

text \<open>One operation ends for every completion that a step has delivered.\<close>

definition nest_end :: "'sc async_scope \<Rightarrow> ('v, 'w) sys \<Rightarrow> ('v, 'w) sys \<Rightarrow> 'sc \<Rightarrow> 'sc" where
  "nest_end sc s s' x = (scope_end sc ^^ (length (completions s') - length (completions s))) x"

text \<open>
  Starting a nested operation begins it in the scope and starts the operation of the multiplexer, which
  may complete at once; running a task of a wait completes it; no other step concerns the scope.
\<close>

inductive exec_step ::
  "'w os \<Rightarrow> 'sc async_scope \<Rightarrow> ('v, 'w, 'sc) executor \<Rightarrow> ('v, 'w, 'sc) executor \<Rightarrow> bool" for os sc where
  exec_starting:
    "t \<notin> started (mux x) \<Longrightarrow> start no_reaction t (shared (mux x)) = Some (Inr (), s') \<Longrightarrow>
     exec_step os sc x (x\<lparr>mux := (mux x)\<lparr>shared := s', started := insert t (started (mux x))\<rparr>,
       exec_scope := nest_end sc (shared (mux x)) s' (scope_begin sc (exec_scope x))\<rparr>)"
| exec_executing:
    "waiters (mux x) w = Running (t # ts) \<Longrightarrow> complete no_reaction t (shared (mux x)) = Some (Inr (), s') \<Longrightarrow>
     exec_step os sc x (x\<lparr>mux := (mux x)\<lparr>shared := s', waiters := (waiters (mux x))(w := Running ts)\<rparr>,
       exec_scope := nest_end sc (shared (mux x)) s' (exec_scope x)\<rparr>)"
| exec_other:
    "conc_step os (mux x) c \<Longrightarrow> started c = started (mux x) \<Longrightarrow>
     completions (shared c) = completions (shared (mux x)) \<Longrightarrow> exec_step os sc x (x\<lparr>mux := c\<rparr>)"

definition executor_on_empty :: "'sc async_scope \<Rightarrow> ('v, 'w, 'sc) executor \<Rightarrow> bool" where
  "executor_on_empty sc x \<longleftrightarrow> scope_idle sc (exec_scope x)"

text \<open>Through a triggers object, whose pointer may be null.\<close>

definition trg_on_empty ::
  "'sc async_scope \<Rightarrow> (eid \<Rightarrow> ('v, 'w, 'sc) executor) \<Rightarrow> nat \<Rightarrow> owners \<Rightarrow> exn + bool" where
  "trg_on_empty sc execs this h =
     (if trg_get_executor this h = no_executor then Inl (Undefined ''null executor'')
      else Inr (executor_on_empty sc (execs (trg_get_executor this h))))"

abbreviation exec_reachable ::
  "'w os \<Rightarrow> 'sc async_scope \<Rightarrow> 'w env \<Rightarrow> ('v, 'w, 'sc) executor \<Rightarrow> bool" where
  "exec_reachable os sc e x \<equiv> (exec_step os sc)\<^sup>*\<^sup>* (new_executor sc e) x"

section \<open>The scope counts the pending operations\<close>

text \<open>Forgetting the scope gives a run of the multiplexer.\<close>

lemma exec_step_mux: "exec_step os sc x x' \<Longrightarrow> conc_step os (mux x) (mux x')"
  by (induction rule: exec_step.induct) (auto intro: conc_step.starting conc_step.executing)

lemma exec_reachable_mux: "exec_reachable os sc e x \<Longrightarrow> reachable os e (mux x)"
  by (induction rule: rtranclp_induct)
    (auto simp: new_executor_def intro: rtranclp.rtrancl_into_rtrancl exec_step_mux)

lemma pending_card:
  assumes "reachable os e c"
  shows "finite (pending c)" and "card (started c) = card (pending c) + length (completions (shared c))"
proof -
  let ?d = "map fst (completions (shared c))"
  have split: "started c = pending c \<union> set ?d" "pending c \<inter> set ?d = {}"
    using reachable_places [OF assms] pending_not_completed [OF assms] by auto
  have "finite (started c)" using reachable_places [OF assms] ..
  then show fin: "finite (pending c)" using split(1) by (metis finite_Un)
  have "distinct ?d" using reachable_inv [OF assms] by (simp add: conc_inv_def places_ok_def)
  then show "card (started c) = card (pending c) + length (completions (shared c))"
    using card_Un_disjoint [OF fin _ split(2)] distinct_card [of ?d] split(1) by simp
qed

lemma funpow_count:
  assumes "\<forall>x n. cnt x = Suc n \<longrightarrow> cnt (f x) = (n :: nat)" and "k \<le> cnt x"
  shows "cnt ((f ^^ k) x) = cnt x - k"
  using assms(2)
proof (induction k)
  case (Suc k)
  then have "cnt ((f ^^ k) x) = Suc (cnt x - Suc k)" by simp
  with assms(1) show ?case by simp
qed simp

text \<open>The number of completions that a step delivers is at most that of the operations that could.\<close>

lemma started_and_completions:
  assumes "exec_reachable os sc e x" and "exec_step os sc x x'"
  shows "\<exists>n. length (completions (shared (mux x'))) = length (completions (shared (mux x))) + n \<and>
     card (started (mux x')) = card (pending (mux x')) + n + length (completions (shared (mux x)))"
proof -
  have r: "reachable os e (mux x)" "reachable os e (mux x')"
    using exec_reachable_mux [OF assms(1)]
      exec_reachable_mux [OF rtranclp.rtrancl_into_rtrancl [OF assms]] by simp_all
  have "length (completions (shared (mux x))) \<le> length (completions (shared (mux x')))"
    using assms(2)
  proof cases
    case (exec_starting t s')
    have "\<forall>op. ops (shared (mux x)) t = Some op \<longrightarrow> \<not> op_armed op" "mux_wf (shared (mux x))"
      using reachable_inv [OF r(1)] exec_starting(2) by (auto simp: conc_inv_def)
    then show ?thesis using start_frame [OF _ exec_starting(3)] exec_starting(1) by auto
  next
    case (exec_executing w t ts s')
    then show ?thesis using complete_frame [OF exec_executing(3)] by auto
  qed simp
  then obtain n where n: "length (completions (shared (mux x'))) = length (completions (shared (mux x))) + n"
    using le_Suc_ex by blast
  with pending_card(2) [OF r(2)] show ?thesis by auto
qed

lemma scope_counts:
  assumes "exec_reachable os sc e x"
    and new: "cnt (scope_new sc) = 0" and up: "\<forall>x. cnt (scope_begin sc x) = Suc (cnt x)"
    and down: "\<forall>x n. cnt x = Suc n \<longrightarrow> cnt (scope_end sc x) = (n :: nat)"
  shows "cnt (exec_scope x) = card (pending (mux x))"
  using assms(1)
proof (induction rule: rtranclp_induct)
  case base
  then show ?case by (simp add: new_executor_def new initial_conc_def pending_def queued_def initial_sys_def)
next
  case (step x x')
  let ?c = "mux x" and ?c' = "mux x'"
  from started_and_completions [OF step.hyps] obtain n where
    n: "length (completions (shared ?c')) = length (completions (shared ?c)) + n"
      "card (started ?c') = card (pending ?c') + n + length (completions (shared ?c))" by blast
  note r = exec_reachable_mux [OF step.hyps(1)]
  have all: "card (started ?c) = card (pending ?c) + length (completions (shared ?c))" "finite (started ?c)"
    using pending_card(2) [OF r] reachable_places [OF r] by auto
  from step.hyps(2) show ?case
  proof cases
    case (exec_starting t s')
    then have sc: "exec_scope x' = (scope_end sc ^^ n) (scope_begin sc (exec_scope x))"
      using n(1) by (simp add: nest_end_def)
    have "card (started ?c') = Suc (card (started ?c))" using exec_starting all(2) by simp
    then have "Suc (card (pending ?c)) = card (pending ?c') + n" using n(2) all(1) by simp
    then show ?thesis
      unfolding sc using funpow_count [OF down, of n "scope_begin sc (exec_scope x)"] up step.IH by simp
  next
    case (exec_executing w t ts s')
    then have sc: "exec_scope x' = (scope_end sc ^^ n) (exec_scope x)" using n(1) by (simp add: nest_end_def)
    have "card (pending ?c) = card (pending ?c') + n" using exec_executing(1) n(2) all(1) by simp
    then show ?thesis unfolding sc using funpow_count [OF down, of n "exec_scope x"] step.IH by simp
  next
    case (exec_other c)
    then show ?thesis using n all(1) step.IH by simp
  qed
qed

lemma idle_iff_nothing_pending:
  fixes sc :: "'sc async_scope"
  assumes "counts_nested sc" and "exec_reachable os sc e x"
  shows "executor_on_empty sc x \<longleftrightarrow> pending (mux x) = {}"
proof -
  from assms(1) obtain cnt :: "'sc \<Rightarrow> nat" where count: "cnt (scope_new sc) = 0"
    "\<forall>x. cnt (scope_begin sc x) = Suc (cnt x)"
    "\<forall>x n. cnt x = Suc n \<longrightarrow> cnt (scope_end sc x) = n" "\<forall>x. scope_idle sc x \<longleftrightarrow> cnt x = 0"
    unfolding counts_nested_def by blast
  show ?thesis
    using scope_counts [OF assms(2) count(1-3)] count(4) pending_card(1) [OF exec_reachable_mux [OF assms(2)]]
    by (simp add: executor_on_empty_def)
qed

section \<open>Properties\<close>

text \<open>
  (C18) The notice that an executor is empty is right, however its threads interleave: it is given exactly
  when every operation that was started has had its receiver called. No task is then on a queue of
  any descriptor and no waiter still has one to run; and the executor stays empty until
  another operation is started.
\<close>

theorem on_empty_correct:
  assumes "counts_nested sc" and "exec_reachable os sc e x"
  shows "(executor_on_empty sc x \<longleftrightarrow> started (mux x) = fst ` set (completions (shared (mux x)))) \<and>
    (executor_on_empty sc x \<longrightarrow>
       (\<forall>i tr. i < length (demux (shared (mux x))) \<longrightarrow> queue_of tr (demux (shared (mux x)) ! i) = []) \<and>
       (\<forall>w. taken (waiters (mux x) w) = [])) \<and>
    (executor_on_empty sc x \<longrightarrow> (\<forall>x'. exec_step os sc x x' \<and> started (mux x') = started (mux x) \<longrightarrow>
       executor_on_empty sc x'))"
proof -
  note r = exec_reachable_mux [OF assms(2)] and idle = idle_iff_nothing_pending [OF assms]
  have "pending (mux x) = {} \<longleftrightarrow> started (mux x) = fst ` set (completions (shared (mux x)))"
    using reachable_places [OF r] pending_not_completed [OF r] by blast
  moreover have "\<forall>i tr. i < length (demux (shared (mux x))) \<longrightarrow> queue_of tr (demux (shared (mux x)) ! i) = []"
    "\<forall>w. taken (waiters (mux x) w) = []" if "pending (mux x) = {}"
    using that by (auto simp: pending_def queued_def) (metis list.set_sel(1))
  moreover have "executor_on_empty sc x'"
    if none: "pending (mux x) = {}" and x': "exec_step os sc x x'" "started (mux x') = started (mux x)" for x'
  proof -
    from started_and_completions [OF assms(2) x'(1)] have "card (pending (mux x')) \<le> card (pending (mux x))"
      using pending_card(2) [OF r] x'(2) by auto
    moreover have x'r: "exec_reachable os sc e x'" using assms(2) x'(1) by (rule rtranclp.rtrancl_into_rtrancl)
    ultimately have "pending (mux x') = {}"
      using none pending_card(1) [OF exec_reachable_mux [OF x'r]] by simp
    then show ?thesis using idle_iff_nothing_pending [OF assms(1) x'r] by simp
  qed
  ultimately show ?thesis unfolding idle by blast
qed

text \<open>A scope that is a counter.\<close>

definition counter_scope :: "nat async_scope" where
  "counter_scope = \<lparr>scope_new = 0, scope_begin = Suc, scope_end = (\<lambda>n. n - 1), scope_idle = (\<lambda>n. n = 0)\<rparr>"

lemma counter_scope_counts: "counts_nested counter_scope"
  unfolding counts_nested_def by (rule exI [of _ id]) (simp add: counter_scope_def)

theorem on_empty_correct_witness:
  "executor_on_empty counter_scope (new_executor counter_scope example_env :: (nat, nat, nat) executor) \<and>
   (\<exists>x :: (nat, nat, nat) executor. exec_reachable (ticking_os (\<lambda>w. False)) counter_scope example_env x \<and>
      7 \<in> started (mux x) \<and> \<not> executor_on_empty counter_scope x)"
proof -
  let ?os = "ticking_os (\<lambda>w. False)" and ?x0 = "new_executor counter_scope example_env :: (nat, nat, nat) executor"
  let ?op = "\<lparr>op_func = (\<lambda>e. Some (Inr (Some 42), e)), op_socket = 0, op_demux = Some 3,
      op_trigger = READ, op_armed = False\<rparr>"
  let ?x1 = "?x0\<lparr>mux := (mux ?x0)\<lparr>shared := reader_connected\<rparr>\<rparr>"
  let ?s2 = "reader_connected\<lparr>demux := (demux reader_connected)[3 := enqueue READ 7 0 (demux reader_connected ! 3)],
      ops := (ops reader_connected)(7 \<mapsto> ?op\<lparr>op_armed := True\<rparr>)\<rparr>"
  let ?x2 = "?x1\<lparr>mux := (mux ?x1)\<lparr>shared := ?s2, started := insert 7 (started (mux ?x1))\<rparr>,
      exec_scope := nest_end counter_scope (shared (mux ?x1)) ?s2 (scope_begin counter_scope (exec_scope ?x1))\<rparr>"
  have con: "conc_step ?os (mux ?x0) ((mux ?x0)\<lparr>shared := reader_connected\<rparr>)"
    by (rule conc_step.connecting [of _ 7 "example_sender READ"])
      (simp_all add: new_executor_def initial_conc_def example_facts usable_fd_def reader_connected_facts)
  have s1: "exec_step ?os counter_scope ?x0 ?x1"
    by (rule exec_other [OF con])
      (simp_all add: new_executor_def initial_conc_def reader_connected_facts initial_sys_def)
  have "startable 7 ?op 3 reader_connected"
    by (simp add: startable_def reader_connected_facts failed_def get_error_def example_env_def)
  from start_queues [OF this, of no_reaction]
  have "exec_step ?os counter_scope ?x1 ?x2"
    by (intro exec_starting) (simp_all add: new_executor_def initial_conc_def)
  with s1 have r: "exec_reachable ?os counter_scope example_env ?x2"
    by (meson rtranclp.rtrancl_into_rtrancl rtranclp.rtrancl_refl)
  have "started (mux ?x2) \<noteq> fst ` set (completions (shared (mux ?x2)))"
    by (simp add: reader_connected_facts)
  then have "\<not> executor_on_empty counter_scope ?x2"
    using on_empty_correct [OF counter_scope_counts r] by blast
  moreover have "executor_on_empty counter_scope ?x0"
    using on_empty_correct [OF counter_scope_counts rtranclp.rtrancl_refl [of "exec_step ?os counter_scope" ?x0]]
    by (simp add: new_executor_def initial_conc_def initial_sys_def)
  ultimately show ?thesis using r by auto
qed

end
