(* ===== verification/Customization.thy ===== *)
theory Customization
  imports Async_Operations
begin

text \<open>
  The functions the library offers to its callers: the customization points of
  \<^verbatim>\<open>include/io/detail/customization.hpp\<close>, with the configuration macros of \<^verbatim>\<open>include/io/config.h\<close> and the
  trait \<^verbatim>\<open>is_eager_v\<close> of \<^verbatim>\<open>include/io/execution/poll_multiplexer.hpp\<close>.

  A customization point forwards its arguments to the \<^verbatim>\<open>tag_invoke\<close> overload that the type of the socket
  selects: the overloads of \<open>Sync_Operations\<close> for a socket handle, those of \<open>Async_Operations\<close> for a
  dialog. The static type is the constructor of \<open>io_object\<close> here. An operation whose overloads return
  different things has an \<open>io_result\<close>: \<open>Sync\<close> the value, \<open>Async\<close> a sender.
\<close>

section \<open>Configuration\<close>

record eager_config =
  io_eager_accept :: bool
  io_eager_send :: bool
  io_eager_recv :: bool

definition default_config :: eager_config where
  "default_config = \<lparr>io_eager_accept = True, io_eager_send = True, io_eager_recv = True\<rparr>"

datatype operation_tag =
    Accept_t | Bind_t | Connect_t | Fcntl_t | Getpeername_t | Getsockname_t | Getsockopt_t | Listen_t
  | Recvmsg_t | Sendmsg_t | Setsockopt_t | Shutdown_t

text \<open>\<^verbatim>\<open>poll_t::is_eager_v\<close>: false but for the specialisations.\<close>

fun is_eager :: "eager_config \<Rightarrow> operation_tag \<Rightarrow> bool" where
  "is_eager cfg Accept_t = io_eager_accept cfg"
| "is_eager cfg Recvmsg_t = io_eager_recv cfg"
| "is_eager cfg Sendmsg_t = io_eager_send cfg"
| "is_eager cfg _ = False"

section \<open>Customization points\<close>

datatype io_object = Handle sid | Dialog socket_dialog

datatype ('a, 'b) io_result = Sync 'a | Async 'b

text \<open>The result of the overload for a handle, and of the one for a dialog, as a result of the function.\<close>

definition on_handle :: "('a, 's) outcome \<Rightarrow> (('a, 'b) io_result, 's) outcome" where
  "on_handle m = map_option (map_prod (map_sum id Sync) id) m"

definition on_dialog :: "('b, 's) outcome \<Rightarrow> (('a, 'b) io_result, 's) outcome" where
  "on_dialog m = map_option (map_prod (map_sum id Async) id) m"

fun io_accept ::
  "eager_config \<Rightarrow> (eid \<Rightarrow> bool) \<Rightarrow> 'w os \<Rightarrow> io_object \<Rightarrow> byte list \<Rightarrow> 'w env
     \<Rightarrow> ((sid \<times> byte list, (accepted, 'w) sender) io_result, 'w env) outcome" where
  "io_accept cfg alive os (Handle s) address e = on_handle (sync_accept os s address e)"
| "io_accept cfg alive os (Dialog d) address e =
     on_dialog (async_accept (is_eager cfg Accept_t) alive os d address e)"

fun io_bind :: "'w os \<Rightarrow> io_object \<Rightarrow> byte list \<Rightarrow> 'w env \<Rightarrow> (exn + int) \<times> 'w env" where
  "io_bind os (Handle s) address e = map_prod Inr id (sync_bind os s address e)"
| "io_bind os (Dialog d) address e = async_bind os d address e"

fun io_connect ::
  "(eid \<Rightarrow> bool) \<Rightarrow> 'w os \<Rightarrow> io_object \<Rightarrow> byte list \<Rightarrow> 'w env
     \<Rightarrow> ((int, (int, 'w) sender) io_result, 'w env) outcome" where
  "io_connect alive os (Handle s) address e =
     on_handle (map_option (map_prod Inr id) (sync_connect os s address e))"
| "io_connect alive os (Dialog d) address e = on_dialog (async_connect alive os d address e)"

fun io_fcntl :: "'w os \<Rightarrow> io_object \<Rightarrow> int \<Rightarrow> int list \<Rightarrow> 'w env \<Rightarrow> (exn + int) \<times> 'w env" where
  "io_fcntl os (Handle s) cmd args e = map_prod Inr id (sync_fcntl os s cmd args e)"
| "io_fcntl os (Dialog d) cmd args e = async_fcntl os d cmd args e"

fun io_getpeername :: "'w os \<Rightarrow> io_object \<Rightarrow> byte list \<Rightarrow> 'w env \<Rightarrow> (exn + byte list) \<times> 'w env" where
  "io_getpeername os (Handle s) address e = sync_getpeername os s address e"
| "io_getpeername os (Dialog d) address e = async_getpeername os d address e"

fun io_getsockname :: "'w os \<Rightarrow> io_object \<Rightarrow> byte list \<Rightarrow> 'w env \<Rightarrow> (exn + byte list) \<times> 'w env" where
  "io_getsockname os (Handle s) address e = sync_getsockname os s address e"
| "io_getsockname os (Dialog d) address e = async_getsockname os d address e"

text \<open>With the result and the contents of the option buffer afterwards.\<close>

fun io_getsockopt ::
  "'w os \<Rightarrow> io_object \<Rightarrow> int \<Rightarrow> int \<Rightarrow> byte list \<Rightarrow> 'w env
     \<Rightarrow> (exn + (exn + int \<times> byte list) \<times> byte list) \<times> 'w env" where
  "io_getsockopt os (Handle s) level optname opt e =
     (case sync_getsockopt os s level optname opt e of (r, buf, e') \<Rightarrow> (Inr (r, buf), e'))"
| "io_getsockopt os (Dialog d) level optname opt e = async_getsockopt os d level optname opt e"

fun io_listen :: "'w os \<Rightarrow> io_object \<Rightarrow> int \<Rightarrow> 'w env \<Rightarrow> (exn + int) \<times> 'w env" where
  "io_listen os (Handle s) backlog e = map_prod Inr id (sync_listen os s backlog e)"
| "io_listen os (Dialog d) backlog e = async_listen os d backlog e"

text \<open>\<open>mid\<close> identifies the caller's message for the asynchronous overload, which writes its flags.\<close>

fun io_recvmsg ::
  "eager_config \<Rightarrow> (eid \<Rightarrow> bool) \<Rightarrow> 'w os \<Rightarrow> io_object \<Rightarrow> msgid \<Rightarrow> socket_message \<Rightarrow> int \<Rightarrow> 'w env
     \<Rightarrow> ((int \<times> socket_message, (int, 'w) sender) io_result, 'w env) outcome" where
  "io_recvmsg cfg alive os (Handle s) mid msg flags e = on_handle (sync_recvmsg os s msg flags e)"
| "io_recvmsg cfg alive os (Dialog d) mid msg flags e =
     on_dialog (async_recvmsg (is_eager cfg Recvmsg_t) alive os d mid msg flags e)"

fun io_sendmsg ::
  "eager_config \<Rightarrow> (eid \<Rightarrow> bool) \<Rightarrow> 'w os \<Rightarrow> io_object \<Rightarrow> socket_message \<Rightarrow> int \<Rightarrow> 'w env
     \<Rightarrow> ((int, (int, 'w) sender) io_result, 'w env) outcome" where
  "io_sendmsg cfg alive os (Handle s) msg flags e = on_handle (sync_sendmsg os s msg flags e)"
| "io_sendmsg cfg alive os (Dialog d) msg flags e =
     on_dialog (async_sendmsg (is_eager cfg Sendmsg_t) alive os d msg flags e)"

fun io_setsockopt :: "'w os \<Rightarrow> io_object \<Rightarrow> int \<Rightarrow> int \<Rightarrow> byte list \<Rightarrow> 'w env \<Rightarrow> (exn + int) \<times> 'w env" where
  "io_setsockopt os (Handle s) level optname opt e = map_prod Inr id (sync_setsockopt os s level optname opt e)"
| "io_setsockopt os (Dialog d) level optname opt e = async_setsockopt os d level optname opt e"

fun io_shutdown :: "'w os \<Rightarrow> io_object \<Rightarrow> int \<Rightarrow> 'w env \<Rightarrow> (exn + int) \<times> 'w env" where
  "io_shutdown os (Handle s) how e = map_prod Inr id (sync_shutdown os s how e)"
| "io_shutdown os (Dialog d) how e = async_shutdown os d how e"

section \<open>Eager operations and their synchronous counterparts\<close>

lemma map_sum_Sync: "map_sum id Sync x = Inr r \<longleftrightarrow> (\<exists>v. r = Sync v \<and> x = Inr v)"
  by (cases x) auto

lemma map_sum_InlE: "map_sum id g r = Inl x \<Longrightarrow> (r = Inl x \<Longrightarrow> P) \<Longrightarrow> P"
  by (cases r) simp_all

lemma on_handle_Sync: "on_handle m = Some (Inr r, e) \<longleftrightarrow> (\<exists>v. r = Sync v \<and> m = Some (Inr v, e))"
  by (auto simp: on_handle_def map_sum_Sync)

lemma sync_recvmsg_same_objects:
  assumes "sync_recvmsg os s msg flags e = Some (r, e')"
  shows "same_objects e e'"
  using assms retry_same_objects [OF recvmsg_call_same_objects]
  by (fastforce simp: sync_recvmsg_def split: sum.splits)

text \<open>What a sender with a ready value does when it is connected and started; a stored error comes first.\<close>

definition masked :: "int \<Rightarrow> 'v completion \<Rightarrow> 'v completion" where
  "masked error c = (if failed error then Set_error error else c)"

lemma launch_constant:
  "\<exists>op. launch rcv t (Some (Inr (executor_set h EAGER (constant_functor v)), e)) s =
    Some (Inr (), deliver rcv t (masked (get_error h e) (Set_value v)) (s\<lparr>sys_env := e, ops := (ops s)(t \<mapsto> op)\<rparr>))"
  using launch_eager_value [OF refl, of h e rcv t v s] launch_failed_socket [OF refl, of h e rcv t EAGER _ s]
  by (cases "failed (get_error h e)") (auto simp: masked_def)

text \<open>An operation that waits: last in its queue, with its event asked for, and with a handler for that event.\<close>

definition waits_in ::
  "execution_trigger \<Rightarrow> native_socket_type \<Rightarrow> ('v, 'w) handler \<Rightarrow> tid \<Rightarrow> ('v, 'w) sys \<Rightarrow> ('v, 'w) sys \<Rightarrow> bool" where
  "waits_in tr f func t s s' \<longleftrightarrow> mux_wf s' \<and> covered s' \<and> completions s' = completions s \<and>
     joins_queue tr (nat f) t s s' \<and> asks_for tr f s' \<and> (\<exists>op. ops s' = (ops s)(t \<mapsto> op) \<and> op_func op = func)"

lemma launch_reader:
  assumes "mux_wf s" and "covered s" and "ops s t = None" and "usable_fd (native_fd h e)"
  shows "\<exists>s'. launch rcv t (Some (Inr (executor_set h READ func), e)) s = Some (Inr (), s') \<and>
    (if failed (get_error h e) then \<exists>op. s' = deliver rcv t (Set_error (get_error h e)) (s\<lparr>sys_env := e, ops := (ops s)(t \<mapsto> op)\<rparr>)
     else sys_env s' = e \<and> waits_in READ (native_fd h e) func t s s')"
proof (cases "failed (get_error h e)")
  case True
  then show ?thesis using launch_failed_socket [OF refl, of h e rcv t READ func s] by auto
next
  case False
  from launch_waiting [OF refl assms(1-3) False _ assms(4), of READ rcv func] False show ?thesis
    by (auto simp: waits_in_def)
qed

text \<open>The storage that the kernel wrote to still has its size, so that the message can be received into again.\<close>

lemma message_converts_iff:
  "(\<exists>hdr. message_to_msghdr msg = Inr hdr) \<longleftrightarrow> (\<forall>a. sm_address msg = Some a \<longrightarrow> osize a \<le> length (storage a))"
  by (cases "sm_address msg")
    (auto simp: message_to_msghdr_def message_to_header_def option_span_def subspan_def Let_def)

lemma received_message_converts:
  assumes "sync_recvmsg os h msg flags e = Some (Inr (len, msg'), e1)"
  shows "\<exists>hdr. message_to_msghdr msg' = Inr hdr"
proof -
  obtain hdr hdr' where msg: "message_to_msghdr msg = Inr hdr" "msg' = message_after msg hdr'"
    using assms by (auto simp: sync_recvmsg_def split: sum.splits)
  then have "\<forall>a. sm_address msg = Some a \<longrightarrow> osize a \<le> length (storage a)"
    using message_converts_iff [of msg] by blast
  then show ?thesis
    unfolding message_converts_iff msg(2) by (auto simp: message_after_def written_through_def)
qed

text \<open>The receive on the dialog, by the outcome of the attempt.\<close>

lemma attempted_receive:
  assumes "dlg_socket d = Some h" and "alive (dlg_executor d)"
    and "is_eager cfg Recvmsg_t" and "fst (fairness_tick e) \<noteq> 0"
    and "sync_recvmsg os h msg flags (snd (fairness_tick e)) = Some (Inr (len, msg'), e1)"
    and "e2 = e1\<lparr>user_flags := (user_flags e1)(mid := sm_flags msg')\<rparr>"
  shows "0 \<le> len \<Longrightarrow> io_recvmsg cfg alive os (Dialog d) mid msg flags e =
      Some (Inr (Async (executor_set h EAGER (constant_functor len))), e2)"
    and "len < 0 \<Longrightarrow> failed (errno e1) \<Longrightarrow> io_recvmsg cfg alive os (Dialog d) mid msg flags e =
      Some (Inr (Async (executor_set h EAGER empty_functor)), set_error h (errno e1) e2)"
    and "len < 0 \<Longrightarrow> \<not> failed (errno e1) \<Longrightarrow> message_to_msghdr msg' = Inr hdr \<Longrightarrow>
      io_recvmsg cfg alive os (Dialog d) mid msg flags e =
      Some (Inr (Async (executor_set h READ (recvmsg_handler os h mid hdr flags))), set_error h (errno e1) e2)"
  using assms
  by (auto simp: async_recvmsg_def with_socket_def get_executor_def on_dialog_def set_error_frame Let_def
      split: prod.splits)

lemma unattempted_receive:
  assumes "dlg_socket d = Some h" and "alive (dlg_executor d)"
    and "\<not> (is_eager cfg Recvmsg_t \<and> fst (fairness_tick e) \<noteq> 0)" and "message_to_msghdr msg = Inr hdr"
  shows "io_recvmsg cfg alive os (Dialog d) mid msg flags e =
    Some (Inr (Async (executor_set h READ (recvmsg_handler os h mid hdr flags))),
      if is_eager cfg Recvmsg_t then snd (fairness_tick e) else e)"
  using assms
  by (auto simp: async_recvmsg_def with_socket_def get_executor_def on_dialog_def Let_def split: prod.splits)

section \<open>Properties\<close>

text \<open>The operations that never wait are the operations on the dialog's socket.\<close>

lemma control_operations_agree:
  assumes "dlg_socket d = Some h"
  shows "io_bind os (Dialog d) address e = io_bind os (Handle h) address e"
    and "io_fcntl os (Dialog d) cmd args e = io_fcntl os (Handle h) cmd args e"
    and "io_getpeername os (Dialog d) address e = io_getpeername os (Handle h) address e"
    and "io_getsockname os (Dialog d) address e = io_getsockname os (Handle h) address e"
    and "io_getsockopt os (Dialog d) level optname opt e = io_getsockopt os (Handle h) level optname opt e"
    and "io_listen os (Dialog d) backlog e = io_listen os (Handle h) backlog e"
    and "io_setsockopt os (Dialog d) level optname opt e = io_setsockopt os (Handle h) level optname opt e"
    and "io_shutdown os (Dialog d) how e = io_shutdown os (Handle h) how e"
  using assms
  by (simp_all add: async_bind_def async_fcntl_def async_getpeername_def async_getsockname_def
      async_getsockopt_def async_listen_def async_setsockopt_def async_shutdown_def on_socket_def)

text \<open>
  (C12) A receive on a dialog in terms of the receive on the dialog's socket. When the configuration is eager and
  the fairness counter does not say to wait, the receive on the socket is made at once and decides. If it
  throws, so does the call; if it succeeds, the operation completes with the same number of bytes and the flags
  of the message, or, on a socket that holds an error from before, with that error; if it fails, its
  error replaces the stored one and is delivered; if it would block, that replaces the stored error, and
  the operation waits as the last reader of the descriptor with a handler that receives into the same message.
  Otherwise the operation waits in the same way without a system call, unless the socket holds an error,
  which is delivered at once.
\<close>

theorem dialog_receive_agrees:
  fixes s :: "(int, 'w) sys"
  assumes "mux_wf s" and "covered s" and "ops s t = None" and "usable_fd (native_fd h (sys_env s))"
    and "dlg_socket d = Some h" and "alive (dlg_executor d)"
  shows "(is_eager cfg Recvmsg_t \<and> fst (fairness_tick (sys_env s)) \<noteq> 0 \<longrightarrow>
      (\<forall>x e1. io_recvmsg cfg alive os (Handle h) mid msg flags (snd (fairness_tick (sys_env s))) = Some (Inl x, e1) \<longrightarrow>
         io_recvmsg cfg alive os (Dialog d) mid msg flags (sys_env s) = Some (Inl x, e1)) \<and>
      (\<forall>len msg' e1 e2. io_recvmsg cfg alive os (Handle h) mid msg flags (snd (fairness_tick (sys_env s))) =
           Some (Inr (Sync (len, msg')), e1) \<and> e2 = e1\<lparr>user_flags := (user_flags e1)(mid := sm_flags msg')\<rparr> \<longrightarrow>
         (\<exists>sdr e3 s'. io_recvmsg cfg alive os (Dialog d) mid msg flags (sys_env s) = Some (Inr (Async sdr), e3) \<and>
            launch rcv t (Some (Inr sdr, e3)) s = Some (Inr (), s') \<and>
            (0 \<le> len \<longrightarrow> e3 = e2 \<and> (\<exists>op. s' = deliver rcv t (masked (get_error h (sys_env s)) (Set_value len))
               (s\<lparr>sys_env := e2, ops := (ops s)(t \<mapsto> op)\<rparr>))) \<and>
            (len < 0 \<longrightarrow> e3 = set_error h (errno e1) e2) \<and>
            (len < 0 \<and> failed (errno e1) \<longrightarrow>
               (\<exists>op. s' = deliver rcv t (Set_error (errno e1)) (s\<lparr>sys_env := e3, ops := (ops s)(t \<mapsto> op)\<rparr>))) \<and>
            (len < 0 \<and> \<not> failed (errno e1) \<longrightarrow> sys_env s' = e3 \<and> (\<exists>hdr. message_to_msghdr msg' = Inr hdr \<and>
               waits_in READ (native_fd h (sys_env s)) (recvmsg_handler os h mid hdr flags) t s s'))))) \<and>
    (\<not> (is_eager cfg Recvmsg_t \<and> fst (fairness_tick (sys_env s)) \<noteq> 0) \<longrightarrow>
      (\<forall>hdr. message_to_msghdr msg = Inr hdr \<longrightarrow>
         (\<exists>sdr e3 s'. io_recvmsg cfg alive os (Dialog d) mid msg flags (sys_env s) = Some (Inr (Async sdr), e3) \<and>
            world e3 = world (sys_env s) \<and> launch rcv t (Some (Inr sdr, e3)) s = Some (Inr (), s') \<and>
            (if failed (get_error h (sys_env s))
             then \<exists>op. s' = deliver rcv t (Set_error (get_error h (sys_env s))) (s\<lparr>sys_env := e3, ops := (ops s)(t \<mapsto> op)\<rparr>)
             else sys_env s' = e3 \<and>
               waits_in READ (native_fd h (sys_env s)) (recvmsg_handler os h mid hdr flags) t s s'))))"
proof (intro conjI impI allI)
  let ?e = "sys_env s"
  assume eager: "is_eager cfg Recvmsg_t \<and> fst (fairness_tick ?e) \<noteq> 0"
  {
    fix x e1 assume "io_recvmsg cfg alive os (Handle h) mid msg flags (snd (fairness_tick ?e)) = Some (Inl x, e1)"
    then have "sync_recvmsg os h msg flags (snd (fairness_tick ?e)) = Some (Inl x, e1)"
      by (auto simp: on_handle_def elim: map_sum_InlE)
    then show "io_recvmsg cfg alive os (Dialog d) mid msg flags ?e = Some (Inl x, e1)"
      using eager assms(5,6)
      by (auto simp: async_recvmsg_def with_socket_def get_executor_def on_dialog_def Let_def split: prod.splits)
  next
    fix len msg' e1 e2
    assume call: "io_recvmsg cfg alive os (Handle h) mid msg flags (snd (fairness_tick ?e)) =
        Some (Inr (Sync (len, msg')), e1) \<and> e2 = e1\<lparr>user_flags := (user_flags e1)(mid := sm_flags msg')\<rparr>"
    then have sync: "sync_recvmsg os h msg flags (snd (fairness_tick ?e)) = Some (Inr (len, msg'), e1)"
      by (simp add: on_handle_Sync)
    let ?e3 = "set_error h (errno e1) e2"
    have e2: "get_error h e2 = get_error h ?e" "native_fd h ?e3 = native_fd h ?e"
      using same_objectsD [OF sync_recvmsg_same_objects [OF sync]] call
      by (simp_all add: fairness_tick_frame set_error_frame) (simp_all add: get_error_def native_fd_def)
    note receive = attempted_receive [where alive = alive, OF assms(5,6) conjunct1 [OF eager] conjunct2 [OF eager] sync conjunct2 [OF call]]
    consider "0 \<le> len" | "len < 0" "failed (errno e1)" | "len < 0" "\<not> failed (errno e1)" by linarith
    then show "\<exists>sdr e3 s'. io_recvmsg cfg alive os (Dialog d) mid msg flags ?e = Some (Inr (Async sdr), e3) \<and>
        launch rcv t (Some (Inr sdr, e3)) s = Some (Inr (), s') \<and>
        (0 \<le> len \<longrightarrow> e3 = e2 \<and> (\<exists>op. s' = deliver rcv t (masked (get_error h ?e) (Set_value len))
           (s\<lparr>sys_env := e2, ops := (ops s)(t \<mapsto> op)\<rparr>))) \<and>
        (len < 0 \<longrightarrow> e3 = ?e3) \<and>
        (len < 0 \<and> failed (errno e1) \<longrightarrow>
           (\<exists>op. s' = deliver rcv t (Set_error (errno e1)) (s\<lparr>sys_env := e3, ops := (ops s)(t \<mapsto> op)\<rparr>))) \<and>
        (len < 0 \<and> \<not> failed (errno e1) \<longrightarrow> sys_env s' = e3 \<and> (\<exists>hdr. message_to_msghdr msg' = Inr hdr \<and>
           waits_in READ (native_fd h ?e) (recvmsg_handler os h mid hdr flags) t s s'))"
    proof cases
      case 1
      then show ?thesis using receive(1) launch_constant [of rcv t h len e2 s] e2(1) by fastforce
    next
      case 2
      then show ?thesis
        using receive(2) launch_failed_socket [OF refl, of h ?e3 rcv t EAGER empty_functor s]
        by (fastforce simp: set_error_frame)
    next
      case 3
      obtain hdr where hdr: "message_to_msghdr msg' = Inr hdr" using received_message_converts [OF sync] by blast
      from launch_reader [OF assms(1-3), of h ?e3 rcv "recvmsg_handler os h mid hdr flags"] 3(2) e2(2) assms(4)
      obtain s' where "launch rcv t (Some (Inr (executor_set h READ (recvmsg_handler os h mid hdr flags)), ?e3)) s =
          Some (Inr (), s')" "sys_env s' = ?e3"
        "waits_in READ (native_fd h ?e) (recvmsg_handler os h mid hdr flags) t s s'"
        by (auto simp: set_error_frame)
      with receive(3) [OF 3 hdr] 3 hdr show ?thesis by auto
    qed
  }
next
  let ?e = "sys_env s"
  fix hdr
  assume lazy: "\<not> (is_eager cfg Recvmsg_t \<and> fst (fairness_tick ?e) \<noteq> 0)" and hdr: "message_to_msghdr msg = Inr hdr"
  let ?e3 = "if is_eager cfg Recvmsg_t then snd (fairness_tick ?e) else ?e"
  have e3: "world ?e3 = world ?e" "get_error h ?e3 = get_error h ?e" "native_fd h ?e3 = native_fd h ?e"
    by (simp_all add: fairness_tick_frame) (simp add: fairness_tick_def)
  from launch_reader [OF assms(1-3), of h ?e3 rcv "recvmsg_handler os h mid hdr flags"] assms(4) e3
  show "\<exists>sdr e3 s'. io_recvmsg cfg alive os (Dialog d) mid msg flags ?e = Some (Inr (Async sdr), e3) \<and>
      world e3 = world ?e \<and> launch rcv t (Some (Inr sdr, e3)) s = Some (Inr (), s') \<and>
      (if failed (get_error h ?e)
       then \<exists>op. s' = deliver rcv t (Set_error (get_error h ?e)) (s\<lparr>sys_env := e3, ops := (ops s)(t \<mapsto> op)\<rparr>)
       else sys_env s' = e3 \<and> waits_in READ (native_fd h ?e) (recvmsg_handler os h mid hdr flags) t s s')"
    unfolding unattempted_receive [where alive = alive, OF assms(5,6) lazy hdr] by auto
qed

text \<open>A kernel whose \<^verbatim>\<open>recvmsg\<close> has a fixed outcome.\<close>

definition receiving_os :: "int \<Rightarrow> int \<Rightarrow> nat os" where
  "receiving_os len err = (ticking_os (\<lambda>w. False))\<lparr>os_recvmsg := (\<lambda>f m g w. (len, err, m, w))\<rparr>"

lemma receiving_os_receive:
  assumes "err \<noteq> EINTR"
  shows "sync_recvmsg (receiving_os len err) h example_message flags e =
    Some (Inr (len, example_message), e\<lparr>errno := (if len < 0 then err else errno e)\<rparr>)"
proof -
  obtain hdr where hdr: "message_to_msghdr example_message = Inr hdr" "msg_flags hdr = 0"
    by (simp add: message_to_msghdr_def message_to_header_def header_to_msghdr_def example_message_def)
  let ?call = "recvmsg_call (receiving_os len err) (native_fd h e) flags"
  have "?call (hdr, e) = (len, hdr, e\<lparr>errno := (if len < 0 then err else errno e)\<rparr>)"
    by (simp add: recvmsg_call_def receiving_os_def)
  then have "retry_eintr (\<lambda>len. len < 0) ?call (hdr, e) =
      Some (len, hdr, e\<lparr>errno := (if len < 0 then err else errno e)\<rparr>)"
    using assms by (subst retry_once) (auto simp: interrupted_def)
  moreover have "message_after example_message hdr = example_message"
    using hdr(2) by (simp add: message_after_def written_through_def example_message_def)
  ultimately show ?thesis by (simp add: sync_recvmsg_def hdr(1))
qed

theorem dialog_receive_agrees_witness:
  "(\<exists>sdr e3 op. io_recvmsg default_config (\<lambda>ex. True) (receiving_os 5 0)
       (Dialog \<lparr>dlg_executor = 0, dlg_socket = Some 0\<rparr>) 9 example_message 0 example_env = Some (Inr (Async sdr), e3) \<and>
     launch no_reaction 7 (Some (Inr sdr, e3)) (initial_sys example_env) =
       Some (Inr (), deliver no_reaction 7 (Set_value 5)
         ((initial_sys example_env)\<lparr>sys_env := e3, ops := [7 \<mapsto> op]\<rparr>))) \<and>
   (\<exists>sdr e3 s' hdr. io_recvmsg default_config (\<lambda>ex. True) (receiving_os (- 1) EAGAIN)
       (Dialog \<lparr>dlg_executor = 0, dlg_socket = Some 0\<rparr>) 9 example_message 0 example_env = Some (Inr (Async sdr), e3) \<and>
     launch no_reaction 7 (Some (Inr sdr, e3)) (initial_sys example_env) = Some (Inr (), s') \<and>
     waits_in READ 3 (recvmsg_handler (receiving_os (- 1) EAGAIN) 0 9 hdr 0) 7 (initial_sys example_env) s')"
proof -
  let ?d = "\<lparr>dlg_executor = 0, dlg_socket = Some 0\<rparr>" and ?s = "initial_sys example_env :: (int, nat) sys"
  let ?e0 = "snd (fairness_tick example_env)"
  have pre: "ops ?s 7 = None" "usable_fd (native_fd 0 (sys_env ?s))" "sys_env ?s = example_env" "ops ?s = Map.empty"
    "is_eager default_config Recvmsg_t \<and> fst (fairness_tick example_env) \<noteq> 0" "dlg_socket ?d = Some 0"
    "native_fd 0 example_env = 3" "masked (get_error 0 example_env) (Set_value (5::int)) = Set_value 5" "\<not> failed EAGAIN"
    by (simp_all add: initial_sys_def example_env_facts usable_fd_def default_config_def masked_def failed_def)
  have sync: "io_recvmsg default_config (\<lambda>ex. True) (receiving_os len err) (Handle 0) 9 example_message 0 ?e0 =
      Some (Inr (Sync (len, example_message)), ?e0\<lparr>errno := (if len < 0 then err else errno ?e0)\<rparr>)"
    if "err \<noteq> EINTR" for len err
    using receiving_os_receive [OF that] by (simp add: on_handle_def)
  note agrees = dialog_receive_agrees [where alive = "\<lambda>ex. True" and cfg = default_config and mid = 9
      and msg = example_message and flags = 0 and rcv = no_reaction,
      OF initial_sys_ok pre(1,2,6) TrueI, unfolded pre(3), THEN conjunct1, rule_format, OF pre(5),
      THEN conjunct2, rule_format, OF conjI, OF sync refl]
  have ne: "(0::int) \<noteq> EINTR" "EAGAIN \<noteq> EINTR" by (simp_all add: errno_defs)
  note [simp del] = io_recvmsg.simps
  show ?thesis
    using agrees [OF ne(1), of 5] agrees [OF ne(2), of "- 1"] unfolding pre(4,7,8)
    by (intro conjI) (simp, blast, simp add: pre(9), blast)
qed

end
