(* ===== verification/Concepts.thy ===== *)
theory Concepts
  imports Customization
begin

text \<open>
  The concepts of \<^verbatim>\<open>include/io/detail/concepts.hpp\<close> and of
  \<^verbatim>\<open>include/io/detail/platforms/posix/concepts_posix.hpp\<close>: predicates on C++ types, which decide the overload
  of a customization point.

  A type is a \<open>ctype\<close>. What a \<^verbatim>\<open>requires\<close> expression can ask of a class (member types and templates, data
  members, member functions, constructors, conversion operators, the call operator) is its \<open>class_info\<close>.
  The classes of the library are described as their headers declare them, as far as the concepts ask;
  classes of a program that uses the library are the parameter \<open>user\<close>. Inheritance is not described: a class
  derived from a dialog is not a dialog here. The class of dialogs is described for any argument, also one that
  is no \<^verbatim>\<open>Multiplexer\<close>, for which the source has no such class.
\<close>

section \<open>Types\<close>

datatype ctype =
    Void | C_bool | C_int | Size_t
  | Pollfd | Milliseconds | Byte | Msghdr | Mutex | Socket_handle | Poll_demultiplexer | Trigger
  | Sockaddr | Sockaddr_storage | Sockaddr_in | Sockaddr_in6 | Sockaddr_un
  | Ptr ctype | Const ctype | Ref ctype | Optional ctype | Shared_ptr ctype | Weak_ptr ctype
  | Closure ctype
  | Allocator ctype
  | Executor ctype
  | Socket_dialog ctype
  | Poll_multiplexer ctype
  | Socket_message ctype ctype
  | Sender ctype
  | User nat

text \<open>\<open>call_result\<close>: what calling an object without arguments gives.\<close>

record class_info =
  member_types :: "(string \<times> ctype) list"
  member_templates :: "string list"
  data_members :: "(string \<times> ctype) list"
  member_fun :: "string \<Rightarrow> ctype list \<Rightarrow> ctype option"
  ctors :: "ctype list list"
  casts :: "ctype list"
  call_result :: "ctype option"

definition no_class :: class_info where
  "no_class = \<lparr>member_types = [], member_templates = [], data_members = [], member_fun = (\<lambda>_ _. None),
     ctors = [[]], casts = [], call_result = None\<rparr>"

text \<open>\<^verbatim>\<open>native_socket_type\<close> is \<^verbatim>\<open>int\<close>.\<close>

abbreviation native_ctype :: ctype where
  "native_ctype \<equiv> C_int"

fun arithmetic :: "ctype \<Rightarrow> bool" where
  "arithmetic C_bool = True"
| "arithmetic C_int = True"
| "arithmetic Size_t = True"
| "arithmetic _ = False"

definition converts :: "ctype \<Rightarrow> ctype \<Rightarrow> bool" where
  "converts a b \<longleftrightarrow> a = b \<or> arithmetic a \<and> arithmetic b"


definition castable :: "(ctype \<Rightarrow> class_info) \<Rightarrow> ctype \<Rightarrow> ctype \<Rightarrow> bool" where
  "castable env T U \<longleftrightarrow> converts T U \<or> U \<in> set (casts (env T))"

fun unref :: "ctype \<Rightarrow> ctype" where
  "unref (Ref T) = T"
| "unref T = T"

fun unconst :: "ctype \<Rightarrow> ctype" where
  "unconst (Const T) = T"
| "unconst T = T"

definition decay :: "ctype \<Rightarrow> ctype" where
  "decay T = unconst (unref T)"

section \<open>Concepts\<close>

definition AllocatorLike :: "(ctype \<Rightarrow> class_info) \<Rightarrow> ctype \<Rightarrow> bool" where
  "AllocatorLike env A \<longleftrightarrow>
     (case map_of (member_types (env A)) ''value_type'' of
        None \<Rightarrow> False
      | Some v \<Rightarrow> member_fun (env A) ''allocate'' [C_int] = Some (Ptr v) \<and>
                  member_fun (env A) ''deallocate'' [Ptr v, C_int] = Some Void)"

definition BasicLockable :: "(ctype \<Rightarrow> class_info) \<Rightarrow> ctype \<Rightarrow> bool" where
  "BasicLockable env L \<longleftrightarrow> member_fun (env L) ''lock'' [] = Some Void \<and> member_fun (env L) ''unlock'' [] = Some Void"

definition ScatterGatherLike :: "(ctype \<Rightarrow> class_info) \<Rightarrow> ctype \<Rightarrow> bool" where
  "ScatterGatherLike env B \<longleftrightarrow> member_fun (env B) ''data'' [] \<noteq> None \<and> member_fun (env B) ''size'' [] \<noteq> None"


definition invoke_result :: "(ctype \<Rightarrow> class_info) \<Rightarrow> ctype \<Rightarrow> ctype option" where
  "invoke_result env F = (case F of Closure r \<Rightarrow> Some r | _ \<Rightarrow> call_result (env F))"

definition value_type :: "(ctype \<Rightarrow> class_info) \<Rightarrow> ctype \<Rightarrow> ctype option" where
  "value_type env T = (case T of Optional v \<Rightarrow> Some v | _ \<Rightarrow> map_of (member_types (env T)) ''value_type'')"

definition Completion :: "(ctype \<Rightarrow> class_info) \<Rightarrow> ctype \<Rightarrow> bool" where
  "Completion env F \<longleftrightarrow>
     (case invoke_result env F of
        None \<Rightarrow> False
      | Some r \<Rightarrow> (case value_type env r of None \<Rightarrow> False | Some v \<Rightarrow> r = Optional v))"




definition MessageLike :: "(ctype \<Rightarrow> class_info) \<Rightarrow> ctype \<Rightarrow> bool" where
  "MessageLike env M \<longleftrightarrow> castable env M Msghdr"

definition SocketAddress :: "ctype \<Rightarrow> bool" where
  "SocketAddress T \<longleftrightarrow>
     decay T = Sockaddr \<or> decay T = Sockaddr_storage \<or> decay T = Sockaddr_in \<or> decay T = Sockaddr_in6 \<or>
     decay T = Sockaddr_un"

section \<open>The classes of the library\<close>

definition socket_handle_class :: class_info where
  "socket_handle_class = no_class\<lparr>ctors := [[], [Socket_handle], [native_ctype], [C_int, C_int, C_int]],
     casts := [native_ctype, C_bool]\<rparr>"

text \<open>An aggregate: it can be initialised member by member, in order.\<close>

definition socket_dialog_class :: "ctype \<Rightarrow> class_info" where
  "socket_dialog_class Mux =
     (let executor = Weak_ptr (Executor Mux); socket = Shared_ptr Socket_handle in
      no_class\<lparr>member_types := [(''executor_type'', Executor Mux)],
        data_members := [(''executor'', executor), (''socket'', socket)],
        ctors := [[], [Socket_dialog Mux], [executor], [executor, socket]], casts := [C_bool, native_ctype]\<rparr>)"

text \<open>\<^verbatim>\<open>poll_t\<close>, from which the multiplexer inherits.\<close>

definition poll_t_class :: class_info where
  "poll_t_class = no_class\<lparr>member_types := [(''event_type'', Pollfd), (''interval_type'', Milliseconds), (''size_type'', Size_t)],
     member_templates := [''is_eager_t'', ''is_eager_v'']\<rparr>"

text \<open>\<^verbatim>\<open>set\<close> is a template that is constrained by \<^verbatim>\<open>Completion\<close>; the allocator has to be an allocator.\<close>

definition poll_multiplexer_class :: "(ctype \<Rightarrow> class_info) \<Rightarrow> ctype \<Rightarrow> class_info" where
  "poll_multiplexer_class env A =
     (if AllocatorLike env A
      then poll_t_class\<lparr>member_types := member_types poll_t_class @ [(''demultiplexer'', Poll_demultiplexer)],
             member_templates := member_templates poll_t_class @ [''sender''],
             member_fun := (\<lambda>name args.
               if name = ''wait_for'' \<and> args = [Milliseconds] then Some Size_t
               else if name = ''set'' \<and> length args = 3 \<and> take 2 args = [Shared_ptr Socket_handle, Trigger] \<and>
                       Completion env (decay (args ! 2)) then Some (Sender (decay (args ! 2)))
               else None),
             ctors := [[], [A]]\<rparr>
      else no_class\<lparr>ctors := []\<rparr>)"

definition socket_message_class :: "(ctype \<Rightarrow> class_info) \<Rightarrow> ctype \<Rightarrow> ctype \<Rightarrow> class_info" where
  "socket_message_class env Addr A =
     (if SocketAddress Addr \<and> AllocatorLike env A
      then no_class\<lparr>ctors := [[], [Socket_message Addr A]], casts := [Msghdr]\<rparr>
      else no_class\<lparr>ctors := []\<rparr>)"

text \<open>\<^verbatim>\<open>std::allocator\<close> and \<^verbatim>\<open>std::mutex\<close>.\<close>

definition allocator_class :: "ctype \<Rightarrow> class_info" where
  "allocator_class T = no_class\<lparr>member_types := [(''value_type'', T)],
     member_fun := (\<lambda>name args.
       if name = ''allocate'' \<and> list_all2 converts args [Size_t] then Some (Ptr T)
       else if name = ''deallocate'' \<and> list_all2 converts args [Ptr T, Size_t] then Some Void
       else None)\<rparr>"

definition mutex_class :: class_info where
  "mutex_class = no_class\<lparr>member_fun := (\<lambda>name args.
     if name \<in> {''lock'', ''unlock''} \<and> args = [] then Some Void
     else if name = ''try_lock'' \<and> args = [] then Some C_bool else None)\<rparr>"

text \<open>What is known of a type: of the standard classes and of closures first, which the multiplexer uses.\<close>

fun standard :: "(ctype \<Rightarrow> class_info) \<Rightarrow> ctype \<Rightarrow> class_info" where
  "standard user (Allocator T) = allocator_class T"
| "standard user Mutex = mutex_class"
| "standard user T = user T"

fun library :: "(ctype \<Rightarrow> class_info) \<Rightarrow> ctype \<Rightarrow> class_info" where
  "library user Socket_handle = socket_handle_class"
| "library user (Socket_dialog Mux) = socket_dialog_class Mux"
| "library user (Poll_multiplexer A) = poll_multiplexer_class (standard user) A"
| "library user (Socket_message Addr A) = socket_message_class (standard user) Addr A"
| "library user T = standard user T"

section \<open>Overloads\<close>








lemma standard_allocator: "AllocatorLike (standard user) (Allocator T)"
  by (simp add: AllocatorLike_def allocator_class_def no_class_def converts_def)

section \<open>Properties\<close>


text \<open>What else the library asks of its own types holds too.\<close>

lemma library_types_fit:
  "BasicLockable (library user) Mutex" "MessageLike (library user) Msghdr"
  "\<not> MessageLike (library user) Socket_handle"
  "MessageLike (library user) (Socket_message Addr (Allocator T)) \<longleftrightarrow> SocketAddress Addr"
  using standard_allocator [of user T]
  by (simp_all add: BasicLockable_def mutex_class_def no_class_def MessageLike_def castable_def converts_def
      socket_message_class_def socket_handle_class_def)

lemma completion_closure: "Completion env (Closure (Optional v))" "\<not> Completion env (Closure Void)"
  if "member_types (env Void) = []"
  using that by (simp_all add: Completion_def invoke_result_def value_type_def)

end
