(* ===== verification/Handle_Concurrency.thy ===== *)
theory Handle_Concurrency
  imports Socket_Handle
begin

text \<open>
  Handles used by several threads. \<open>Socket_Handle\<close> treats each operation of a \<^verbatim>\<open>socket_handle\<close> as one step. Here
  \<^verbatim>\<open>swap\<close>, which both move operations are made of, is taken apart into the atomic accesses that
  \<^verbatim>\<open>include/io/socket/impl/socket_handle_impl.hpp\<close> makes: it locks the mutexes of both handles and then, for
  the descriptor and for the error, loads from one handle, exchanges with the other and stores the old
  value back. \<^verbatim>\<open>set_error\<close> and the reading operations are single atomic accesses and take no mutex.

  Any number of threads swap and set errors; \<^verbatim>\<open>std::scoped_lock\<close> takes both mutexes or waits.
\<close>

section \<open>Threads that swap\<close>

text \<open>Where a thread is inside \<^verbatim>\<open>swap(lhs, rhs)\<close>, with the value it has read last.\<close>

datatype swap_phase =
    Not_swapping
  | Locked sid sid
  | Loaded_socket sid sid native_socket_type
  | Exchanged_socket sid sid native_socket_type
  | Stored_socket sid sid
  | Loaded_error sid sid int
  | Exchanged_error sid sid int
  | Stored_error sid sid

fun swapping :: "swap_phase \<Rightarrow> (sid \<times> sid) option" where
  "swapping Not_swapping = None"
| "swapping (Locked l r) = Some (l, r)"
| "swapping (Loaded_socket l r v) = Some (l, r)"
| "swapping (Exchanged_socket l r v) = Some (l, r)"
| "swapping (Stored_socket l r) = Some (l, r)"
| "swapping (Loaded_error l r v) = Some (l, r)"
| "swapping (Exchanged_error l r v) = Some (l, r)"
| "swapping (Stored_error l r) = Some (l, r)"

text \<open>\<open>swaps\<close> and \<open>errors\<close> record the swaps in the order of locking, and the calls of \<^verbatim>\<open>set_error\<close>.\<close>

record handle_threads =
  objs :: "sid \<Rightarrow> socket_handle"
  mtx :: "sid \<Rightarrow> nat option"
  phase :: "nat \<Rightarrow> swap_phase"
  swaps :: "(sid \<times> sid) list"
  errors :: "(sid \<times> int) list"

definition set_socket_of :: "sid \<Rightarrow> native_socket_type \<Rightarrow> (sid \<Rightarrow> socket_handle) \<Rightarrow> (sid \<Rightarrow> socket_handle)" where
  "set_socket_of h v st = st(h := (st h)\<lparr>hnd_socket := v\<rparr>)"

definition set_error_of :: "sid \<Rightarrow> int \<Rightarrow> (sid \<Rightarrow> socket_handle) \<Rightarrow> (sid \<Rightarrow> socket_handle)" where
  "set_error_of h v st = st(h := (st h)\<lparr>hnd_error := v\<rparr>)"

inductive swap_step :: "handle_threads \<Rightarrow> handle_threads \<Rightarrow> bool" where
  locking: "phase c t = Not_swapping \<Longrightarrow> l \<noteq> r \<Longrightarrow> mtx c l = None \<Longrightarrow> mtx c r = None \<Longrightarrow>
    swap_step c (c\<lparr>mtx := (mtx c)(l \<mapsto> t, r \<mapsto> t), phase := (phase c)(t := Locked l r),
      swaps := swaps c @ [(l, r)]\<rparr>)"
| loading_socket: "phase c t = Locked l r \<Longrightarrow>
    swap_step c (c\<lparr>phase := (phase c)(t := Loaded_socket l r (hnd_socket (objs c r)))\<rparr>)"
| exchanging_socket: "phase c t = Loaded_socket l r v \<Longrightarrow>
    swap_step c (c\<lparr>objs := set_socket_of l v (objs c),
      phase := (phase c)(t := Exchanged_socket l r (hnd_socket (objs c l)))\<rparr>)"
| storing_socket: "phase c t = Exchanged_socket l r tmp \<Longrightarrow>
    swap_step c (c\<lparr>objs := set_socket_of r tmp (objs c), phase := (phase c)(t := Stored_socket l r)\<rparr>)"
| loading_error: "phase c t = Stored_socket l r \<Longrightarrow>
    swap_step c (c\<lparr>phase := (phase c)(t := Loaded_error l r (hnd_error (objs c r)))\<rparr>)"
| exchanging_error: "phase c t = Loaded_error l r v \<Longrightarrow>
    swap_step c (c\<lparr>objs := set_error_of l v (objs c),
      phase := (phase c)(t := Exchanged_error l r (hnd_error (objs c l)))\<rparr>)"
| storing_error: "phase c t = Exchanged_error l r tmp \<Longrightarrow>
    swap_step c (c\<lparr>objs := set_error_of r tmp (objs c), phase := (phase c)(t := Stored_error l r)\<rparr>)"
| unlocking: "phase c t = Stored_error l r \<Longrightarrow>
    swap_step c (c\<lparr>mtx := (mtx c)(l := None, r := None), phase := (phase c)(t := Not_swapping)\<rparr>)"
| setting_error: "swap_step c (c\<lparr>objs := set_error_of h v (objs c), errors := errors c @ [(h, v)]\<rparr>)"

inductive_cases swap_stepE: "swap_step c c'"

definition handles_of :: "(sid \<Rightarrow> socket_handle) \<Rightarrow> handle_threads" where
  "handles_of st = \<lparr>objs = st, mtx = (\<lambda>_. None), phase = (\<lambda>_. Not_swapping), swaps = [], errors = []\<rparr>"

section \<open>The invariant\<close>

text \<open>The swaps one after the other, each as the single step of \<open>Socket_Handle\<close>.\<close>

definition swapped :: "(sid \<times> sid) list \<Rightarrow> (sid \<Rightarrow> socket_handle) \<Rightarrow> (sid \<Rightarrow> socket_handle)" where
  "swapped ss st = fold (\<lambda>(l, r). swap l r) ss st"

lemma swapped_simps [simp]:
  "swapped [] st = st" "swapped (ss @ [(l, r)]) st = swap l r (swapped ss st)"
  by (simp_all add: swapped_def)

text \<open>The descriptor a handle will have when the thread that has locked it is done.\<close>

fun final_socket :: "(sid \<Rightarrow> socket_handle) \<Rightarrow> swap_phase \<Rightarrow> sid \<Rightarrow> native_socket_type" where
  "final_socket st (Locked l r) h =
     hnd_socket (st (if h = l then r else if h = r then l else h))"
| "final_socket st (Loaded_socket l r v) h =
     hnd_socket (st (if h = l then r else if h = r then l else h))"
| "final_socket st (Exchanged_socket l r tmp) h = (if h = r then tmp else hnd_socket (st h))"
| "final_socket st _ h = hnd_socket (st h)"

definition settled_socket :: "handle_threads \<Rightarrow> sid \<Rightarrow> native_socket_type" where
  "settled_socket c h =
     (case mtx c h of None \<Rightarrow> hnd_socket (objs c h) | Some t \<Rightarrow> final_socket (objs c) (phase c t) h)"

definition swap_inv :: "(sid \<Rightarrow> socket_handle) \<Rightarrow> handle_threads \<Rightarrow> bool" where
  "swap_inv st c \<longleftrightarrow>
     (\<forall>h t. mtx c h = Some t \<longleftrightarrow> (\<exists>l r. swapping (phase c t) = Some (l, r) \<and> (h = l \<or> h = r))) \<and>
     (\<forall>t l r. swapping (phase c t) = Some (l, r) \<longrightarrow> l \<noteq> r) \<and>
     (\<forall>t l r v. phase c t = Loaded_socket l r v \<longrightarrow> v = hnd_socket (objs c r)) \<and>
     (\<forall>t l r tmp. phase c t = Exchanged_socket l r tmp \<longrightarrow> hnd_socket (objs c l) = hnd_socket (objs c r)) \<and>
     (\<forall>h. settled_socket c h = hnd_socket (swapped (swaps c) st h))"

lemma hnd_set_of [simp]:
  "hnd_socket (set_socket_of h v st k) = (if k = h then v else hnd_socket (st k))"
  "hnd_error (set_socket_of h v st k) = hnd_error (st k)"
  "hnd_error (set_error_of h v st k) = (if k = h then v else hnd_error (st k))"
  "hnd_socket (set_error_of h v st k) = hnd_socket (st k)"
  by (simp_all add: set_socket_of_def set_error_of_def)

lemma final_set_error [simp]: "final_socket (set_error_of h v st) p k = final_socket st p k"
  by (cases p) simp_all

text \<open>The descriptors of other threads' handles are not touched by a step of a thread.\<close>

lemma final_socket_cong:
  assumes "\<And>l r. swapping p = Some (l, r) \<Longrightarrow> hnd_socket (st' l) = hnd_socket (st l) \<and> hnd_socket (st' r) = hnd_socket (st r)"
    and "swapping p = Some (l, r)" and "h = l \<or> h = r"
  shows "final_socket st' p h = final_socket st p h"
  using assms by (cases p) auto

lemma swap_inv_initial: "swap_inv st (handles_of st)"
  by (simp add: swap_inv_def handles_of_def settled_socket_def)

lemma swap_invD:
  assumes "swap_inv st c"
  shows "mtx c h = Some t \<longleftrightarrow> (\<exists>l r. swapping (phase c t) = Some (l, r) \<and> (h = l \<or> h = r))"
    and "swapping (phase c t) = Some (l, r) \<Longrightarrow> l \<noteq> r"
    and "swapping (phase c t) = Some (l, r) \<Longrightarrow> mtx c l = Some t \<and> mtx c r = Some t"
    and "phase c t = Loaded_socket l r v \<Longrightarrow> v = hnd_socket (objs c r)"
    and "phase c t = Exchanged_socket l r tmp \<Longrightarrow> hnd_socket (objs c l) = hnd_socket (objs c r)"
    and "settled_socket c h = hnd_socket (swapped (swaps c) st h)"
  using assms unfolding swap_inv_def by blast+

lemma owner_unique:
  assumes "swap_inv st c" and "swapping (phase c t) = Some (l, r)" and "swapping (phase c t') = Some (l', r')"
    and "t' \<noteq> t"
  shows "l' \<noteq> l \<and> l' \<noteq> r \<and> r' \<noteq> l \<and> r' \<noteq> r"
  using swap_invD(3) [OF assms(1,2)] swap_invD(3) [OF assms(1,3)] assms(4) by auto

text \<open>
  A step of a thread inside \<^verbatim>\<open>swap\<close>: it may change the descriptors of its own two handles, and keeps what
  they will be in the end.
\<close>

lemma swap_inv_thread:
  assumes inv: "swap_inv st c" and t: "swapping (phase c t) = Some (l, r)" "swapping p = Some (l, r)"
    and frame: "\<And>h. h \<noteq> l \<Longrightarrow> h \<noteq> r \<Longrightarrow> hnd_socket (st' h) = hnd_socket (objs c h)"
    and final: "final_socket st' p l = final_socket (objs c) (phase c t) l"
      "final_socket st' p r = final_socket (objs c) (phase c t) r"
    and local: "\<And>v. p = Loaded_socket l r v \<Longrightarrow> v = hnd_socket (st' r)"
      "\<And>v. p = Exchanged_socket l r v \<Longrightarrow> hnd_socket (st' l) = hnd_socket (st' r)"
  shows "swap_inv st (c\<lparr>objs := st', phase := (phase c)(t := p)\<rparr>)"
proof -
  let ?c = "c\<lparr>objs := st', phase := (phase c)(t := p)\<rparr>"
  have pairs: "swapping (phase ?c t') = swapping (phase c t')" for t' using t by simp
  have other: "hnd_socket (st' l') = hnd_socket (objs c l') \<and> hnd_socket (st' r') = hnd_socket (objs c r')"
    if "swapping (phase c t') = Some (l', r')" "t' \<noteq> t" for t' l' r'
    using owner_unique [OF inv t(1) that] frame by blast
  have "settled_socket ?c h = settled_socket c h" for h
  proof (cases "mtx c h")
    case None
    then have "h \<noteq> l" "h \<noteq> r" using swap_invD(3) [OF inv t(1)] by auto
    then show ?thesis using None frame by (simp add: settled_socket_def)
  next
    case (Some t')
    then obtain l' r' where h: "swapping (phase c t') = Some (l', r')" "h = l' \<or> h = r'"
      using swap_invD(1) [OF inv] by blast
    show ?thesis
    proof (cases "t' = t")
      case True
      then show ?thesis using Some h t final by (auto simp: settled_socket_def)
    next
      case False
      have "final_socket st' (phase c t') h = final_socket (objs c) (phase c t') h"
        by (rule final_socket_cong [OF _ h]) (use other [OF _ False] in blast)
      then show ?thesis using Some False by (simp add: settled_socket_def)
    qed
  qed
  then have settled: "\<forall>h. settled_socket ?c h = hnd_socket (swapped (swaps ?c) st h)"
    using swap_invD(6) [OF inv] by simp
  have loaded: "v = hnd_socket (objs ?c r')" if "phase ?c t' = Loaded_socket l' r' v" for t' l' r' v
  proof (cases "t' = t")
    case True
    then show ?thesis using that t local(1) [of v] by auto
  next
    case False
    then show ?thesis using that other [of t' l' r'] swap_invD(4) [OF inv, of t' l' r' v] by simp
  qed
  have exchanged: "hnd_socket (objs ?c l') = hnd_socket (objs ?c r')"
    if "phase ?c t' = Exchanged_socket l' r' v" for t' l' r' v
  proof (cases "t' = t")
    case True
    then show ?thesis using that t local(2) [of v] by auto
  next
    case False
    then show ?thesis using that other [of t' l' r'] swap_invD(5) [OF inv, of t' l' r' v] by simp
  qed
  have locks: "\<forall>h t. mtx ?c h = Some t \<longleftrightarrow> (\<exists>l r. swapping (phase ?c t) = Some (l, r) \<and> (h = l \<or> h = r))"
    unfolding pairs using swap_invD(1) [OF inv] by simp
  have "\<forall>t l r. swapping (phase ?c t) = Some (l, r) \<longrightarrow> l \<noteq> r"
    unfolding pairs using swap_invD(2) [OF inv] by blast
  then show ?thesis
    using locks loaded exchanged settled unfolding swap_inv_def by blast
qed

lemma swap_inv_locking:
  assumes inv: "swap_inv st c" and "phase c t = Not_swapping" "l \<noteq> r" "mtx c l = None" "mtx c r = None"
  shows "swap_inv st (c\<lparr>mtx := (mtx c)(l \<mapsto> t, r \<mapsto> t), phase := (phase c)(t := Locked l r),
    swaps := swaps c @ [(l, r)]\<rparr>)"
proof -
  let ?c = "c\<lparr>mtx := (mtx c)(l \<mapsto> t, r \<mapsto> t), phase := (phase c)(t := Locked l r), swaps := swaps c @ [(l, r)]\<rparr>"
  have free: "mtx c h \<noteq> Some t" for h using swap_invD(1) [OF inv, of h t] assms(2) by simp
  have old: "settled_socket c l = hnd_socket (objs c l)" "settled_socket c r = hnd_socket (objs c r)"
    using assms(4,5) by (simp_all add: settled_socket_def)
  have "settled_socket ?c h = hnd_socket (swapped (swaps ?c) st h)" for h
  proof -
    have "settled_socket ?c h = settled_socket c (if h = l then r else if h = r then l else h)"
      using assms(3) free [of h] old by (auto simp: settled_socket_def split: option.splits)
    then show ?thesis
      using swap_invD(6) [OF inv] assms(3) by (auto simp: handle_swap.swp_exchanges)
  qed
  moreover have "mtx ?c h = Some t' \<longleftrightarrow> (\<exists>l r. swapping (phase ?c t') = Some (l, r) \<and> (h = l \<or> h = r))" for h t'
    using swap_invD(1) [OF inv, of h t'] assms free [of h] by auto
  ultimately show ?thesis
    using inv unfolding swap_inv_def by (auto simp: assms(3))
qed

lemma swap_inv_unlocking:
  assumes inv: "swap_inv st c" and t: "phase c t = Stored_error l r"
  shows "swap_inv st (c\<lparr>mtx := (mtx c)(l := None, r := None), phase := (phase c)(t := Not_swapping)\<rparr>)"
proof -
  let ?c = "c\<lparr>mtx := (mtx c)(l := None, r := None), phase := (phase c)(t := Not_swapping)\<rparr>"
  have own: "mtx c l = Some t" "mtx c r = Some t" using swap_invD(3) [OF inv, of t l r] t by auto
  have only: "h = l \<or> h = r" if "mtx c h = Some t" for h using swap_invD(1) [OF inv, of h t] that t by auto
  have "settled_socket ?c h = settled_socket c h" for h
    using own t only [of h] by (auto simp: settled_socket_def split: option.splits)
  moreover have "mtx ?c h = Some t' \<longleftrightarrow> (\<exists>l r. swapping (phase ?c t') = Some (l, r) \<and> (h = l \<or> h = r))" for h t'
  proof (cases "t' = t")
    case True
    then show ?thesis using only [of h] by auto
  next
    case False
    then show ?thesis using swap_invD(1) [OF inv, of h t'] own by auto
  qed
  ultimately show ?thesis
    using inv unfolding swap_inv_def by (auto split: if_splits)
qed

lemma swap_inv_step:
  assumes "swap_inv st c" and "swap_step c c'"
  shows "swap_inv st c'"
  using assms(2)
proof cases
  case (locking t l r)
  then show ?thesis using swap_inv_locking [OF assms(1)] by simp
next
  case (loading_socket t l r)
  then show ?thesis
    using swap_inv_thread [OF assms(1), of t l r "Loaded_socket l r (hnd_socket (objs c r))" "objs c"]
      swap_invD(2) [OF assms(1), of t l r] by (simp add: fun_eq_iff)
next
  case (exchanging_socket t l r v)
  then show ?thesis
    using swap_inv_thread [OF assms(1), of t l r "Exchanged_socket l r (hnd_socket (objs c l))" "set_socket_of l v (objs c)"]
      swap_invD(2) [OF assms(1), of t l r] swap_invD(4) [OF assms(1), of t l r v] by simp
next
  case (storing_socket t l r tmp)
  then show ?thesis
    using swap_inv_thread [OF assms(1), of t l r "Stored_socket l r" "set_socket_of r tmp (objs c)"]
      swap_invD(2) [OF assms(1), of t l r] by simp
next
  case (loading_error t l r)
  then show ?thesis
    using swap_inv_thread [OF assms(1), of t l r "Loaded_error l r (hnd_error (objs c r))" "objs c"] by simp
next
  case (exchanging_error t l r v)
  then show ?thesis
    using swap_inv_thread [OF assms(1), of t l r "Exchanged_error l r (hnd_error (objs c l))" "set_error_of l v (objs c)"]
    by simp
next
  case (storing_error t l r tmp)
  then show ?thesis
    using swap_inv_thread [OF assms(1), of t l r "Stored_error l r" "set_error_of r tmp (objs c)"] by simp
next
  case (unlocking t l r)
  then show ?thesis using swap_inv_unlocking [OF assms(1)] by simp
next
  case (setting_error h v)
  have "settled_socket c' k = settled_socket c k" for k
    using setting_error by (simp add: settled_socket_def split: option.splits)
  then show ?thesis using assms(1) setting_error unfolding swap_inv_def by auto
qed

lemma swap_inv_reachable: "swap_step\<^sup>*\<^sup>* (handles_of st) c \<Longrightarrow> swap_inv st c"
  by (induction rule: rtranclp_induct) (auto intro: swap_inv_initial swap_inv_step)

lemma mset_swapped:
  assumes "distinct xs" and "\<forall>(l, r) \<in> set ss. l \<in> set xs \<and> r \<in> set xs"
  shows "mset (map (swapped ss st) xs) = mset (map st xs)"
  using assms(2)
proof (induction ss rule: rev_induct)
  case (snoc lr ss)
  then show ?case
    using handle_swap.mset_swp [OF assms(1), of "fst lr" "snd lr" "swapped ss st"] by (cases lr) auto
qed simp

text \<open>What a reader can see of two handles that are being swapped.\<close>

lemma seen_while_swapping:
  assumes inv: "swap_inv st c" and t: "swapping (phase c t) = Some (l, r)"
  shows "{hnd_socket (objs c l), hnd_socket (objs c r)} \<subseteq> {settled_socket c l, settled_socket c r}"
proof -
  note own = swap_invD(2,3) [OF inv t]
  show ?thesis
  proof (cases "phase c t")
    case (Exchanged_socket l' r' tmp)
    then show ?thesis using t own swap_invD(5) [OF inv Exchanged_socket] by (auto simp: settled_socket_def)
  qed (use t own in \<open>auto simp: settled_socket_def\<close>)
qed

section \<open>Properties\<close>

text \<open>
  (C21) Swaps and moves of handles by several threads are atomic as far as descriptors are concerned,
  whatever the threads do to the stored errors meanwhile. Two threads are never inside swaps of a common
  handle. A handle that no thread is swapping has the descriptor that the swaps give when they are
  done one after the other in the order of locking, and so no descriptor is lost or owned twice. A
  thread that reads the descriptor of a handle during a swap sees one of the two descriptors that are
  swapped, never a third value.
\<close>

theorem swaps_serialized:
  assumes "swap_step\<^sup>*\<^sup>* (handles_of st) c"
  shows "(\<forall>t t' l r l' r'. swapping (phase c t) = Some (l, r) \<and> swapping (phase c t') = Some (l', r') \<and> t' \<noteq> t \<longrightarrow>
       {l, r} \<inter> {l', r'} = {}) \<and>
    (\<forall>h. mtx c h = None \<longrightarrow> hnd_socket (objs c h) = hnd_socket (swapped (swaps c) st h)) \<and>
    (\<forall>t l r. swapping (phase c t) = Some (l, r) \<longrightarrow>
       {hnd_socket (objs c l), hnd_socket (objs c r)} \<subseteq>
       {hnd_socket (swapped (swaps c) st l), hnd_socket (swapped (swaps c) st r)}) \<and>
    (\<forall>xs. distinct xs \<and> (\<forall>(l, r) \<in> set (swaps c). l \<in> set xs \<and> r \<in> set xs) \<and> (\<forall>h \<in> set xs. mtx c h = None) \<longrightarrow>
       mset (map (\<lambda>h. hnd_socket (objs c h)) xs) = mset (map (\<lambda>h. hnd_socket (st h)) xs))"
proof -
  have inv: "swap_inv st c" using swap_inv_reachable [OF assms] .
  have quiet: "hnd_socket (objs c h) = hnd_socket (swapped (swaps c) st h)" if "mtx c h = None" for h
    using swap_invD(6) [OF inv, of h] that by (simp add: settled_socket_def)
  have kept: "mset (map (\<lambda>h. hnd_socket (objs c h)) xs) = mset (map (\<lambda>h. hnd_socket (st h)) xs)"
    if xs: "distinct xs" "\<forall>(l, r) \<in> set (swaps c). l \<in> set xs \<and> r \<in> set xs" "\<forall>h \<in> set xs. mtx c h = None" for xs
  proof -
    have "map (\<lambda>h. hnd_socket (objs c h)) xs = map hnd_socket (map (swapped (swaps c) st) xs)"
      using quiet xs(3) by simp
    also have "mset \<dots> = image_mset hnd_socket (mset (map st xs))"
      unfolding mset_map [of hnd_socket] mset_swapped [OF xs(1,2)] ..
    finally show ?thesis by (simp add: multiset.map_comp comp_def)
  qed
  have seen: "{hnd_socket (objs c l), hnd_socket (objs c r)} \<subseteq>
      {hnd_socket (swapped (swaps c) st l), hnd_socket (swapped (swaps c) st r)}"
    if "swapping (phase c t) = Some (l, r)" for t l r
    using seen_while_swapping [OF inv that] unfolding swap_invD(6) [OF inv] .
  have apart: "{l, r} \<inter> {l', r'} = {}"
    if "swapping (phase c t) = Some (l, r)" "swapping (phase c t') = Some (l', r')" "t' \<noteq> t" for t t' l r l' r'
    using owner_unique [OF inv that] by auto
  show ?thesis
    by (intro conjI allI impI; (elim conjE)?) (rule apart quiet seen kept; assumption)+
qed

text \<open>A swap during which another thread sets the error of the second handle.\<close>

lemma race_run:
  assumes "l \<noteq> r"
  shows "\<exists>c. swap_step\<^sup>*\<^sup>* (handles_of st) c \<and> (\<forall>t. phase c t = Not_swapping) \<and> swaps c = [(l, r)] \<and>
    errors c = [(r, x)] \<and> objs c = swap l r st"
proof -
  let ?lk = "(\<lambda>_. None)(l \<mapsto> (0 :: nat), r \<mapsto> 0)" and ?ph = "\<lambda>p. (\<lambda>_. Not_swapping)(0 := p)"
  define at where "at o' p es = \<lparr>objs = o', mtx = ?lk, phase = ?ph p, swaps = [(l, r)], errors = es\<rparr>" for o' p es
  define o1 where "o1 = set_socket_of l (hnd_socket (st r)) st"
  define o2 where "o2 = set_socket_of r (hnd_socket (st l)) o1"
  define o3 where "o3 = set_error_of r x o2"
  define o4 where "o4 = set_error_of l (hnd_error (st r)) o3"
  define o5 where "o5 = set_error_of r (hnd_error (st l)) o4"
  have s1: "swap_step (handles_of st) (at st (Locked l r) [])"
    using swap_step.locking [of "handles_of st" 0 l r] assms by (simp add: handles_of_def at_def)
  have s2: "swap_step (at st (Locked l r) []) (at st (Loaded_socket l r (hnd_socket (st r))) [])"
    using swap_step.loading_socket [of "at st (Locked l r) []" 0 l r] by (simp add: at_def)
  have s3: "swap_step (at st (Loaded_socket l r (hnd_socket (st r))) []) (at o1 (Exchanged_socket l r (hnd_socket (st l))) [])"
    using swap_step.exchanging_socket [of "at st (Loaded_socket l r (hnd_socket (st r))) []" 0 l r]
    by (simp add: at_def o1_def)
  have s4: "swap_step (at o1 (Exchanged_socket l r (hnd_socket (st l))) []) (at o2 (Stored_socket l r) [])"
    using swap_step.storing_socket [of "at o1 (Exchanged_socket l r (hnd_socket (st l))) []" 0 l r]
    by (simp add: at_def o2_def)
  have s5: "swap_step (at o2 (Stored_socket l r) []) (at o2 (Loaded_error l r (hnd_error (st r))) [])"
    using swap_step.loading_error [of "at o2 (Stored_socket l r) []" 0 l r] by (simp add: at_def o2_def o1_def)
  have s6: "swap_step (at o2 (Loaded_error l r (hnd_error (st r))) []) (at o3 (Loaded_error l r (hnd_error (st r))) [(r, x)])"
    using swap_step.setting_error [of "at o2 (Loaded_error l r (hnd_error (st r))) []" r x]
    by (simp add: at_def o3_def)
  have s7: "swap_step (at o3 (Loaded_error l r (hnd_error (st r))) [(r, x)])
      (at o4 (Exchanged_error l r (hnd_error (st l))) [(r, x)])"
    using swap_step.exchanging_error [of "at o3 (Loaded_error l r (hnd_error (st r))) [(r, x)]" 0 l r] assms
    by (simp add: at_def o4_def o3_def o2_def o1_def)
  have s8: "swap_step (at o4 (Exchanged_error l r (hnd_error (st l))) [(r, x)]) (at o5 (Stored_error l r) [(r, x)])"
    using swap_step.storing_error [of "at o4 (Exchanged_error l r (hnd_error (st l))) [(r, x)]" 0 l r]
    by (simp add: at_def o5_def)
  let ?c = "(at o5 (Stored_error l r) [(r, x)])\<lparr>mtx := ?lk(l := None, r := None), phase := ?ph Not_swapping\<rparr>"
  have s9: "swap_step (at o5 (Stored_error l r) [(r, x)]) ?c"
    using swap_step.unlocking [of "at o5 (Stored_error l r) [(r, x)]" 0 l r] by (simp add: at_def)
  have "swap_step\<^sup>*\<^sup>* (handles_of st) ?c"
    using s1 s2 s3 s4 s5 s6 s7 s8 s9 by (meson converse_rtranclp_into_rtranclp rtranclp.rtrancl_refl)
  moreover have "o5 = swap l r st"
    using assms
    by (auto simp: o5_def o4_def o3_def o2_def o1_def set_socket_of_def set_error_of_def handle_swap.swp_exchanges fun_eq_iff)
  ultimately show ?thesis by (intro exI [of _ ?c]) (simp add: at_def)
qed

text \<open>
  (C37) A stored error can be lost, although handles are documented as thread-safe: \<^verbatim>\<open>set_error\<close> does not take the
  mutex that a swap holds. For any two handles and any error number there is an interleaving of one swap and
  one call of \<^verbatim>\<open>set_error\<close> that ends as if that call had not happened; after the two operations in
  either order, one of the handles would hold the error.
\<close>

theorem racing_error_lost:
  assumes "l \<noteq> r" and "x \<noteq> hnd_error (st l)" and "x \<noteq> hnd_error (st r)"
  shows "\<exists>c. swap_step\<^sup>*\<^sup>* (handles_of st) c \<and> (\<forall>t. phase c t = Not_swapping) \<and> swaps c = [(l, r)] \<and>
    errors c = [(r, x)] \<and> hnd_error (objs c l) \<noteq> x \<and> hnd_error (objs c r) \<noteq> x \<and>
    objs c \<noteq> set_error_of r x (swap l r st) \<and> objs c \<noteq> swap l r (set_error_of r x st)"
proof -
  from race_run [OF assms(1), of st x] obtain c where c: "swap_step\<^sup>*\<^sup>* (handles_of st) c"
    "\<forall>t. phase c t = Not_swapping" "swaps c = [(l, r)]" "errors c = [(r, x)]" "objs c = swap l r st" by blast
  have "hnd_error (objs c l) = hnd_error (st r)" "hnd_error (objs c r) = hnd_error (st l)"
    "hnd_error (set_error_of r x (swap l r st) r) = x" "hnd_error (swap l r (set_error_of r x st) l) = x"
    using assms(1) c(5) by (simp_all add: handle_swap.swp_exchanges)
  then show ?thesis using c assms(2,3) by metis
qed

theorem racing_error_lost_witness:
  "\<exists>c. swap_step\<^sup>*\<^sup>* (handles_of (\<lambda>_. default_handle)) c \<and> errors c = [(2, 104)] \<and> hnd_error (objs c 1) \<noteq> 104 \<and>
     hnd_error (objs c 2) \<noteq> 104"
  using racing_error_lost [of 1 2 104 "\<lambda>_. default_handle"] by (auto simp: default_handle_def)

theorem swaps_serialized_witness:
  "\<exists>c. swap_step\<^sup>*\<^sup>* (handles_of ((\<lambda>_. default_handle)(1 := \<lparr>hnd_socket = 5, hnd_error = 0\<rparr>))) c \<and>
     swaps c = [(1, 2)] \<and> hnd_socket (objs c 1) = INVALID_SOCKET \<and> hnd_socket (objs c 2) = 5"
proof -
  let ?st = "(\<lambda>_. default_handle)(1 := \<lparr>hnd_socket = 5, hnd_error = 0\<rparr>)"
  from race_run [of 1 2 ?st 0] obtain c where c: "swap_step\<^sup>*\<^sup>* (handles_of ?st) c" "\<forall>t. phase c t = Not_swapping"
    "swaps c = [(1, 2)]" by auto
  then have "mtx c h = None" for h
    using swap_invD(1) [OF swap_inv_reachable [OF c(1)], of h] by (cases "mtx c h") auto
  then have "hnd_socket (objs c h) = hnd_socket (swapped [(1, 2)] ?st h)" for h
    using swaps_serialized [OF c(1)] c(3) by simp
  then show ?thesis using c by (auto simp: swapped_def handle_swap.swp_exchanges default_handle_def)
qed

end
