(* ===== verification/Windows_Platform.thy ===== *)
theory Windows_Platform
  imports Message_Buffer
begin

text \<open>
  The Windows layer, \<^verbatim>\<open>include/io/socket/detail/platforms/windows/socket_impl.hpp\<close>, and the Windows branches
  of \<^verbatim>\<open>include/io/socket/impl/socket_message_impl.hpp\<close>.

  A \<^verbatim>\<open>WSABUF\<close> has a 32-bit length (\<^verbatim>\<open>ULONG\<close>) beside a pointer, while counts are 64-bit. The functions of the
  Windows sockets library are the parameters \<open>closesocket\<close>, \<open>ioctlsocket\<close>, \<open>WSASendMsg\<close> and \<open>WSARecvMsg\<close>: they return their
  status, and the message functions the number of bytes. The calls of the source pass no flags to
  them, so neither do the parameters take any.
\<close>

section \<open>Buffers\<close>

record wsabuf =
  wsa_len :: "32 word"
  wsa_buf :: "64 word"

text \<open>\<^verbatim>\<open>buf.len <= len\<close> compares at 64 bits; \<^verbatim>\<open>buf.len -= len\<close> is converted back to 32 bits.\<close>

definition win_advance :: "wsabuf \<Rightarrow> size_t \<Rightarrow> wsabuf" where
  "win_advance buf len =
     (if (ucast (wsa_len buf) :: size_t) \<le> len then \<lparr>wsa_len = 0, wsa_buf = 0\<rparr>
      else \<lparr>wsa_len = ucast ((ucast (wsa_len buf) :: size_t) - len), wsa_buf = wsa_buf buf + len\<rparr>)"

definition win_plus :: "wsabuf \<Rightarrow> size_t \<Rightarrow> wsabuf" where
  "win_plus buf len = win_advance buf len"

definition win_message_empty :: "wsabuf list \<Rightarrow> bool" where
  "win_message_empty bufs \<longleftrightarrow> foldl (\<lambda>len buf. len + (ucast (wsa_len buf) :: size_t)) 0 bufs = 0"

text \<open>\<^verbatim>\<open>auto count = buf.len\<close> is 32 bits wide; it is widened in the comparison and the subtraction.\<close>

definition win_consume :: "size_t \<Rightarrow> wsabuf \<Rightarrow> bool \<times> wsabuf \<times> size_t" where
  "win_consume len buf =
     (if len = 0 then (False, buf, len)
      else let count = wsa_len buf; buf' = win_advance buf len
           in if len < ucast count then (False, buf', 0)
              else (len - ucast count \<ge> 0, buf', len - ucast count))"

definition win_message_advance :: "wsabuf list \<Rightarrow> size_t \<Rightarrow> wsabuf list" where
  "win_message_advance bufs len = remove_if win_consume len bufs"

section \<open>Calls\<close>

definition WIN_F_SETFL :: int where "WIN_F_SETFL = 4"
definition WIN_O_NONBLOCK :: int where "WIN_O_NONBLOCK = 2048"
definition FIONBIO :: int where "FIONBIO = - 2147195266"
definition SOCKET_ERROR :: int where "SOCKET_ERROR = - 1"

definition win_close ::
  "(native_socket_type \<Rightarrow> 'w \<Rightarrow> int \<times> 'w) \<Rightarrow> native_socket_type \<Rightarrow> 'w \<Rightarrow> int \<times> 'w" where
  "win_close closesocket socket w = closesocket socket w"

definition win_fcntl ::
  "bool \<Rightarrow> (native_socket_type \<Rightarrow> int \<Rightarrow> int \<Rightarrow> 'w \<Rightarrow> int \<times> 'w) \<Rightarrow>
     native_socket_type \<Rightarrow> int \<Rightarrow> int \<Rightarrow> 'w \<Rightarrow> (exn + int) \<times> 'w" where
  "win_fcntl ndebug ioctlsocket socket cmd arg w =
     (if \<not> ndebug \<and> cmd \<noteq> WIN_F_SETFL then (Inl Assertion_failed, w)
      else let mode = (if arg AND WIN_O_NONBLOCK \<noteq> 0 then 1 else 0) in
           if cmd = WIN_F_SETFL then map_prod Inr id (ioctlsocket socket FIONBIO mode w)
           else (Inr SOCKET_ERROR, w))"

definition win_sendmsg ::
  "(native_socket_type \<Rightarrow> 'm \<Rightarrow> 'w \<Rightarrow> int \<times> int \<times> 'w) \<Rightarrow>
     native_socket_type \<Rightarrow> 'm \<Rightarrow> int \<Rightarrow> 'w \<Rightarrow> int \<times> 'w" where
  "win_sendmsg WSASendMsg socket msg flags w =
     (case WSASendMsg socket msg w of (error, len, w') \<Rightarrow> (if error = 0 then len else error, w'))"

definition win_recvmsg ::
  "(native_socket_type \<Rightarrow> 'm \<Rightarrow> 'w \<Rightarrow> int \<times> int \<times> 'm \<times> 'w) \<Rightarrow>
     native_socket_type \<Rightarrow> 'm \<Rightarrow> int \<Rightarrow> 'w \<Rightarrow> int \<times> 'm \<times> 'w" where
  "win_recvmsg WSARecvMsg socket msg flags w =
     (case WSARecvMsg socket msg w of (error, len, msg', w') \<Rightarrow> (if error = 0 then len else error, msg', w'))"

section \<open>The buffers of the two platforms\<close>

definition to_iovec :: "wsabuf \<Rightarrow> iovec" where
  "to_iovec b = \<lparr>iov_base = wsa_buf b, iov_len = ucast (wsa_len b)\<rparr>"

lemma unat_widened: "unat (ucast (l :: 32 word) :: size_t) = unat l"
proof -
  have "unat l < 2 ^ 32" using unsigned_less [of l] by simp
  then show ?thesis by (simp add: unsigned_ucast_eq take_bit_nat_eq_self)
qed

lemma widened_narrowed:
  fixes l :: "32 word" and n :: size_t
  assumes "\<not> ucast l \<le> n"
  shows "(ucast (ucast ((ucast l :: size_t) - n) :: 32 word) :: size_t) = ucast l - n"
proof -
  have "unat ((ucast l :: size_t) - n) = unat l - unat n"
    using assms by (simp add: unat_sub word_le_nat_alt unat_widened)
  then have "unat ((ucast l :: size_t) - n) < 2 ^ 32"
    using unsigned_less [of l, where 'a = nat] by simp
  then show ?thesis
    by (simp add: word_unat_eq_iff unsigned_ucast_eq unsigned_take_bit_eq take_bit_nat_eq_self)
qed

lemma to_iovec_advance: "to_iovec (win_advance b n) = iov_advance (to_iovec b) n"
  by (simp add: to_iovec_def win_advance_def iov_advance_def widened_narrowed)

lemma to_iovec_consume:
  "consume n (to_iovec b) = map_prod id (map_prod to_iovec id) (win_consume n b)"
  by (auto simp: consume_def win_consume_def Let_def to_iovec_advance) (simp_all add: to_iovec_def)

lemma remove_if_map:
  assumes "\<And>s x. p s (f x) = map_prod id (map_prod f id) (q s x)"
  shows "remove_if p s (map f xs) = map f (remove_if q s xs)"
proof (induction xs arbitrary: s)
  case (Cons x xs)
  then show ?case by (cases "q s x") (simp add: assms)
qed simp

lemma win_advance_map: "map to_iovec (win_message_advance bufs n) = message_advance (map to_iovec bufs) n"
  unfolding message_advance_def win_message_advance_def
  by (rule remove_if_map [symmetric]) (rule to_iovec_consume)

lemma win_empty_map: "win_message_empty bufs \<longleftrightarrow> message_empty (map to_iovec bufs)"
proof -
  have "foldl (\<lambda>len buf. len + iov_len buf) a (map to_iovec bufs) =
      foldl (\<lambda>len buf. len + (ucast (wsa_len buf) :: size_t)) a bufs" for a
    by (induction bufs arbitrary: a) (auto simp: to_iovec_def)
  then show ?thesis by (simp add: win_message_empty_def message_empty_def)
qed

lemma win_regions_bound: "length (regions (map to_iovec bufs)) \<le> length bufs * (2 ^ 32 - 1)"
proof (induction bufs)
  case (Cons b bufs)
  have "unat (iov_len (to_iovec b)) \<le> 2 ^ 32 - 1"
    using unsigned_less [of "wsa_len b", where 'a = nat] by (simp add: to_iovec_def unat_widened)
  with Cons show ?case by (simp add: length_regions)
qed (simp add: length_regions)

section \<open>Properties\<close>

text \<open>
  (C22) The Windows buffers behave like the POSIX ones although their lengths have 32 bits: advancing a
  message gives, buffer by buffer, what advancing the POSIX message of the same memory gives, so it
  removes exactly the given number of bytes; and since the lengths are narrow, the sum in \<^verbatim>\<open>empty\<close> cannot
  wrap around for fewer than \<open>2 ^ 32\<close> buffers: it is true exactly when no byte is left.
\<close>

theorem windows_buffers_agree:
  "map to_iovec (win_message_advance bufs n) = message_advance (map to_iovec bufs) n \<and>
   regions (map to_iovec (win_message_advance bufs n)) = drop (unat n) (regions (map to_iovec bufs)) \<and>
   (length bufs < 2 ^ 32 \<longrightarrow> (win_message_empty bufs \<longleftrightarrow> regions (map to_iovec bufs) = []))"
proof -
  have "win_message_empty bufs \<longleftrightarrow> regions (map to_iovec bufs) = []" if "length bufs < 2 ^ 32"
  proof -
    have "length (regions (map to_iovec bufs)) \<le> (2 ^ 32 - 1) * (2 ^ 32 - 1)"
      using win_regions_bound [of bufs] mult_le_mono1 [of "length bufs" "2 ^ 32 - 1" "2 ^ 32 - 1"] that by linarith
    then have "length (regions (map to_iovec bufs)) < 2 ^ 64" by simp
    then show ?thesis
      unfolding win_empty_map message_empty_iff_dvd
      using nat_dvd_not_less by (cases "regions (map to_iovec bufs)") auto
  qed
  then show ?thesis by (simp add: win_advance_map regions_advance)
qed

theorem windows_buffers_agree_witness:
  "win_message_advance [\<lparr>wsa_len = 4, wsa_buf = 100\<rparr>, \<lparr>wsa_len = 8, wsa_buf = 300\<rparr>] 6 =
     [\<lparr>wsa_len = 6, wsa_buf = 302\<rparr>] \<and>
   \<not> win_message_empty [\<lparr>wsa_len = 6, wsa_buf = 302\<rparr>]"
proof -
  let ?b = "[\<lparr>wsa_len = 4, wsa_buf = 100\<rparr>, \<lparr>wsa_len = 8, wsa_buf = 300\<rparr>]"
  have "win_message_advance ?b 6 = [\<lparr>wsa_len = 6, wsa_buf = 302\<rparr>]"
    by (simp add: win_message_advance_def win_consume_def win_advance_def Let_def)
  moreover have "regions (map to_iovec [\<lparr>wsa_len = 6, wsa_buf = 302\<rparr>]) \<noteq> []"
    by (simp add: region_def to_iovec_def)
  ultimately show ?thesis
    using windows_buffers_agree [of "[\<lparr>wsa_len = 6, wsa_buf = 302\<rparr>]" 0] by simp
qed

text \<open>
  The Windows wrappers of the calls. \<^verbatim>\<open>fcntl\<close> sets or clears the non-blocking mode, as the flag in its
  argument says, and any other command stops a debug build at an assertion and fails in a release
  build without a call. \<^verbatim>\<open>sendmsg\<close> and \<^verbatim>\<open>recvmsg\<close> return the byte count of a successful call and its status
  otherwise; they ignore their flags, so the flag that suppresses signals, and every flag a caller
  passes, has no effect.
\<close>

theorem windows_calls:
  "win_fcntl ndebug ioctl s WIN_F_SETFL arg w =
     map_prod Inr id (ioctl s FIONBIO (if bit arg 11 then 1 else 0) w) \<and>
   (cmd \<noteq> WIN_F_SETFL \<longrightarrow>
      win_fcntl ndebug ioctl s cmd arg w = (if ndebug then Inr SOCKET_ERROR else Inl Assertion_failed, w)) \<and>
   win_sendmsg wsasend s msg flags w = win_sendmsg wsasend s msg flags' w \<and>
   win_recvmsg wsarecv s msg flags w = win_recvmsg wsarecv s msg flags' w"
proof -
  have "arg AND WIN_O_NONBLOCK \<noteq> 0 \<longleftrightarrow> bit arg 11"
    using bit_iff_and_push_bit_not_eq_0 [of arg 11] by (simp add: WIN_O_NONBLOCK_def push_bit_eq_mult)
  then show ?thesis by (simp add: win_fcntl_def win_sendmsg_def win_recvmsg_def)
qed

end
