(* ===== verification/Echo_Server.thy ===== *)
theory Echo_Server
  imports Customization
begin

text \<open>
  The echo server of \<^verbatim>\<open>examples/tcp_echo.cpp\<close> on top of the library: \<^verbatim>\<open>error_handler\<close>, \<^verbatim>\<open>writer\<close>, \<^verbatim>\<open>reader\<close>,
  \<^verbatim>\<open>acceptor\<close>, \<^verbatim>\<open>make_server\<close> and the loop of \<^verbatim>\<open>main\<close>.

  Each of the functions \<^verbatim>\<open>reader\<close>, \<^verbatim>\<open>writer\<close> and \<^verbatim>\<open>acceptor\<close> spawns one asynchronous operation, whose
  continuation spawns the next ones or none. An \<open>echo_op\<close> is a spawned operation with what its
  continuation captures; \<open>reader_then\<close>, \<open>writer_then\<close> and \<open>acceptor_then\<close> are the continuations, and give
  the operations they spawn. The message and the vector are shared only between the operations of
  one session, one of which exists at a time, so they are passed along by value. The address that a
  new vector gets is an argument.

  A session is followed from the accept on, with the history of what was received and sent. The
  bytes that the kernel moves are those that the message denotes (\<open>regions\<close>).
\<close>

section \<open>Operations and continuations\<close>

record char_vector =
  vec_data :: "64 word"
  vec_bytes :: "byte list"

datatype echo_op =
    Accept_op socket_dialog
  | Recv_op socket_dialog socket_message char_vector
  | Send_op socket_dialog socket_message char_vector

text \<open>
  The parameter of \<^verbatim>\<open>error_handler\<close> is \<^verbatim>\<open>const auto &\<close>, and \<^verbatim>\<open>decltype\<close> of it is that reference type.
\<close>

datatype error_type = Int_type | Error_code_type | Exception_ptr_type | Const_ref error_type

definition decltype_error :: "error_type \<Rightarrow> error_type" where
  "decltype_error t = Const_ref t"

text \<open>What is written to the error stream, for an error of a type and with a message.\<close>

definition error_handler :: "error_type \<Rightarrow> string \<Rightarrow> string" where
  "error_handler t reason = (if decltype_error t = Int_type then reason @ [CHR 0x0A] else [])"

definition writer :: "socket_dialog \<Rightarrow> socket_message \<Rightarrow> char_vector \<Rightarrow> echo_op" where
  "writer client msg buf = Send_op client msg buf"

definition reader :: "64 word \<Rightarrow> socket_dialog \<Rightarrow> echo_op" where
  "reader addr client =
     (let msg = \<lparr>sm_address = None, sm_buffers = [], sm_control = [], sm_flags = 0\<rparr>;
          buf = \<lparr>vec_data = addr, vec_bytes = replicate 1024 0\<rparr>;
          msg = msg\<lparr>sm_buffers := push_back_range (sm_buffers msg) (vec_data buf)
                                     (of_nat (length (vec_bytes buf))) 1\<rparr>
      in Recv_op client msg buf)"

definition acceptor :: "socket_dialog \<Rightarrow> echo_op" where
  "acceptor server = Accept_op server"

definition writer_then ::
  "64 word \<Rightarrow> int \<Rightarrow> socket_dialog \<Rightarrow> socket_message \<Rightarrow> char_vector \<Rightarrow> echo_op" where
  "writer_then addr len client msg buf =
     (let msg = msg\<lparr>sm_buffers := message_advance (sm_buffers msg) (of_int len)\<rparr>
      in if message_to_bool (sm_buffers msg) then writer client msg buf else reader addr client)"

definition reader_then :: "int \<Rightarrow> socket_dialog \<Rightarrow> socket_message \<Rightarrow> char_vector \<Rightarrow> echo_op list" where
  "reader_then len client msg buf = (if len = 0 then [] else [writer client msg buf])"

definition acceptor_then :: "64 word \<Rightarrow> accepted \<Rightarrow> socket_dialog \<Rightarrow> echo_op list" where
  "acceptor_then addr result server = (case result of (client, _) \<Rightarrow> [reader addr client, acceptor server])"

section \<open>Setting up and waiting\<close>

definition SO_REUSEADDR :: int where "SO_REUSEADDR = 2"
definition SOMAXCONN :: int where "SOMAXCONN = 4096"

text \<open>The socket address of the server: family, port 8080 in network order, address 127.0.0.1.\<close>

definition server_address :: "byte list" where
  "server_address = [2, 0, 31, 144, 127, 0, 0, 1] @ replicate 8 0"

text \<open>\<^verbatim>\<open>if (call) throw std::system_error({errno, ...})\<close>.\<close>

definition checked ::
  "(exn + int) \<times> 'w env \<Rightarrow> ('w env \<Rightarrow> (exn + 'a) \<times> 'w env) \<Rightarrow> (exn + 'a) \<times> 'w env" where
  "checked call k =
     (case call of
        (Inl x, e) \<Rightarrow> (Inl x, e)
      | (Inr r, e) \<Rightarrow> if r \<noteq> 0 then (Inl (System_error (errno e)), e) else k e)"

definition make_server :: "'w os \<Rightarrow> socket_dialog \<Rightarrow> 'w env \<Rightarrow> (exn + echo_op) \<times> 'w env" where
  "make_server os server e =
     checked (io_setsockopt os (Dialog server) SOL_SOCKET SO_REUSEADDR [1, 0, 0, 0] e) (\<lambda>e1.
     checked (io_bind os (Dialog server) server_address e1) (\<lambda>e2.
     checked (io_listen os (Dialog server) SOMAXCONN e2) (\<lambda>e3.
     (Inr (acceptor server), e3))))"

text \<open>\<^verbatim>\<open>while (trigs.wait());\<close>\<close>

partial_function (option) wait_loop ::
  "'w os \<Rightarrow> ('v, 'w) receivers \<Rightarrow> ('v, 'w) sys \<Rightarrow> (unit, ('v, 'w) sys) outcome" where
  "wait_loop os rcv s =
     and_then (triggers_wait os rcv s) (\<lambda>n s'. if n \<noteq> 0 then wait_loop os rcv s' else Some (Inr (), s'))"

definition AF_INET :: int where "AF_INET = 2"
definition SOCK_STREAM :: int where "SOCK_STREAM = 1"
definition IPPROTO_TCP :: int where "IPPROTO_TCP = 6"

text \<open>
  \<^verbatim>\<open>main\<close>, with the executor \<open>ex\<close> of its triggers object. \<open>spawn\<close> connects and starts an operation in the scope of
  the program, which belongs to the sender library.
\<close>

definition echo_main ::
  "'w os \<Rightarrow> ('v, 'w) receivers \<Rightarrow> (echo_op \<Rightarrow> ('v, 'w) sys \<Rightarrow> (unit, ('v, 'w) sys) outcome) \<Rightarrow> eid \<Rightarrow> ('v, 'w) sys
     \<Rightarrow> (unit, ('v, 'w) sys) outcome" where
  "echo_main os rcv spawn ex s =
     (case triggers_emplace_socket os ex AF_INET SOCK_STREAM IPPROTO_TCP (sys_env s) of
        (Inl x, e) \<Rightarrow> Some (Inl x, s\<lparr>sys_env := e\<rparr>)
      | (Inr server, e) \<Rightarrow>
          (case make_server os server e of
             (Inl x, e') \<Rightarrow> Some (Inl x, s\<lparr>sys_env := e'\<rparr>)
           | (Inr op, e') \<Rightarrow> and_then (spawn op (s\<lparr>sys_env := e'\<rparr>)) (\<lambda>_ s'. wait_loop os rcv s')))"

section \<open>Sessions and the server\<close>

text \<open>
  The kernel completes the pending operation of a session: it stores received bytes at the first
  addresses of the message, or takes the bytes at the first addresses, or reports an error.
\<close>

datatype kernel_event = Received "byte list" int | Sent nat | Failed_with string

record session =
  ses_op :: "echo_op option"
  ses_rx :: "byte list list"
  ses_tx :: "byte list"

definition byte_at :: "char_vector \<Rightarrow> 64 word \<Rightarrow> byte" where
  "byte_at buf a = vec_bytes buf ! unat (a - vec_data buf)"

definition store_byte :: "char_vector \<Rightarrow> 64 word \<times> byte \<Rightarrow> char_vector" where
  "store_byte buf ab = buf\<lparr>vec_bytes := (vec_bytes buf)[unat (fst ab - vec_data buf) := snd ab]\<rparr>"

definition store_bytes :: "char_vector \<Rightarrow> 64 word list \<Rightarrow> byte list \<Rightarrow> char_vector" where
  "store_bytes buf as bs = foldl store_byte buf (zip as bs)"

fun session_step :: "64 word \<Rightarrow> kernel_event \<Rightarrow> session \<Rightarrow> session" where
  "session_step addr ev ses =
     (case (ses_op ses, ev) of
        (Some (Recv_op client msg buf), Received bs flags) \<Rightarrow>
          let buf = store_bytes buf (regions (sm_buffers msg)) bs;
              msg = msg\<lparr>sm_flags := flags\<rparr>
          in ses\<lparr>ses_op := (case reader_then (int (length bs)) client msg buf of [] \<Rightarrow> None | op # _ \<Rightarrow> Some op),
                 ses_rx := (if bs = [] then ses_rx ses else ses_rx ses @ [bs])\<rparr>
      | (Some (Send_op client msg buf), Sent n) \<Rightarrow>
          ses\<lparr>ses_op := Some (writer_then addr (int n) client msg buf),
              ses_tx := ses_tx ses @ map (byte_at buf) (take n (regions (sm_buffers msg)))\<rparr>
      | (Some _, Failed_with _) \<Rightarrow> ses\<lparr>ses_op := None\<rparr>
      | _ \<Rightarrow> ses)"

text \<open>A call moves at most the bytes that its message has room for.\<close>

fun possible :: "kernel_event \<Rightarrow> session \<Rightarrow> bool" where
  "possible (Received bs flags) ses =
     (case ses_op ses of Some (Recv_op _ msg _) \<Rightarrow> length bs \<le> length (regions (sm_buffers msg)) | _ \<Rightarrow> False)"
| "possible (Sent n) ses =
     (case ses_op ses of Some (Send_op _ msg _) \<Rightarrow> n \<le> length (regions (sm_buffers msg)) | _ \<Rightarrow> False)"
| "possible (Failed_with reason) ses = (ses_op ses \<noteq> None)"

fun reported :: "kernel_event \<Rightarrow> string" where
  "reported (Failed_with reason) = error_handler Error_code_type reason"
| "reported _ = []"

record echo =
  echo_accept :: "echo_op option"
  echo_sessions :: "session list"
  echo_cerr :: string

inductive echo_reach :: "socket_dialog \<Rightarrow> echo \<Rightarrow> bool" for server where
  Listening: "echo_reach server \<lparr>echo_accept = Some (acceptor server), echo_sessions = [], echo_cerr = []\<rparr>"
| Accepted: "echo_reach server s \<Longrightarrow> echo_accept s = Some (Accept_op sv) \<Longrightarrow>
    acceptor_then addr (client, a) sv = [r, next_accept] \<Longrightarrow>
    echo_reach server (s\<lparr>echo_accept := Some next_accept,
      echo_sessions := echo_sessions s @ [\<lparr>ses_op = Some r, ses_rx = [], ses_tx = []\<rparr>]\<rparr>)"
| Accept_failed: "echo_reach server s \<Longrightarrow> echo_accept s = Some op \<Longrightarrow>
    echo_reach server (s\<lparr>echo_accept := None, echo_cerr := echo_cerr s @ reported (Failed_with reason)\<rparr>)"
| Session: "echo_reach server s \<Longrightarrow> i < length (echo_sessions s) \<Longrightarrow> possible ev (echo_sessions s ! i) \<Longrightarrow>
    echo_reach server (s\<lparr>echo_sessions := (echo_sessions s)[i := session_step addr ev (echo_sessions s ! i)],
      echo_cerr := echo_cerr s @ reported ev\<rparr>)"

section \<open>What a session sends\<close>

definition padded :: "byte list \<Rightarrow> byte list" where
  "padded bs = bs @ replicate (1024 - length bs) 0"

text \<open>What is left to send, by the pending operation.\<close>

fun unsent :: "echo_op option \<Rightarrow> byte list" where
  "unsent (Some (Send_op _ msg buf)) = map (byte_at buf) (regions (sm_buffers msg))"
| "unsent _ = []"

definition whole_buffer :: "char_vector \<Rightarrow> iovec" where
  "whole_buffer buf = \<lparr>iov_base = vec_data buf, iov_len = 1024\<rparr>"

fun op_ok :: "echo_op option \<Rightarrow> bool" where
  "op_ok None = True"
| "op_ok (Some (Accept_op _)) = False"
| "op_ok (Some (Recv_op _ msg buf)) =
     (sm_buffers msg = [whole_buffer buf] \<and> vec_bytes buf = replicate 1024 0)"
| "op_ok (Some (Send_op _ msg buf)) =
     (0 < length (regions (sm_buffers msg)) \<and> length (regions (sm_buffers msg)) \<le> 1024)"

definition session_ok :: "session \<Rightarrow> bool" where
  "session_ok ses \<longleftrightarrow>
     op_ok (ses_op ses) \<and> (\<forall>c \<in> set (ses_rx ses). c \<noteq> [] \<and> length c \<le> 1024) \<and>
     (\<exists>rest. ses_tx ses @ rest = concat (map padded (ses_rx ses)) \<and>
        (ses_op ses \<noteq> None \<longrightarrow> rest = unsent (ses_op ses)))"

lemma region_whole:
  "region (whole_buffer buf) = map (\<lambda>i. vec_data buf + of_nat i) [0..<1024]"
  by (simp add: region_def whole_buffer_def)

lemma buffer_offset: "i < 1024 \<Longrightarrow> unat (b + of_nat i - b :: 64 word) = i"
  by (simp add: unat_of_nat)

lemma store_bytes_from:
  assumes "length (vec_bytes buf) = 1024" and "k + length bs \<le> 1024"
  shows "foldl store_byte buf (zip (map (\<lambda>i. vec_data buf + of_nat i) [k..<1024]) bs) =
    buf\<lparr>vec_bytes := take k (vec_bytes buf) @ bs @ drop (k + length bs) (vec_bytes buf)\<rparr>"
  using assms
proof (induction bs arbitrary: k buf)
  case (Cons b bs)
  let ?buf = "buf\<lparr>vec_bytes := (vec_bytes buf)[k := b]\<rparr>"
  have "[k..<1024] = k # [Suc k..<1024]" using Cons.prems by (simp add: upt_conv_Cons)
  moreover have "store_byte buf (vec_data buf + of_nat k, b) = ?buf"
    using Cons.prems buffer_offset [of k "vec_data buf"] by (simp add: store_byte_def)
  moreover have "foldl store_byte ?buf (zip (map (\<lambda>i. vec_data ?buf + of_nat i) [Suc k..<1024]) bs) =
      ?buf\<lparr>vec_bytes := take (Suc k) (vec_bytes ?buf) @ bs @ drop (Suc k + length bs) (vec_bytes ?buf)\<rparr>"
    using Cons.prems by (intro Cons.IH) simp_all
  moreover have "take (Suc k) ((vec_bytes buf)[k := b]) = take k (vec_bytes buf) @ [b]"
    using Cons.prems by (simp add: take_Suc_conv_app_nth)
  ultimately show ?case by simp
qed simp

lemma store_bytes_whole:
  assumes "vec_bytes buf = replicate 1024 0" and "length bs \<le> 1024"
  shows "store_bytes buf (regions [whole_buffer buf]) bs = buf\<lparr>vec_bytes := padded bs\<rparr>"
  using store_bytes_from [of buf 0 bs] assms
  by (simp add: store_bytes_def region_whole padded_def del: upt_conv_Cons)

lemma bytes_of_whole:
  assumes "length (vec_bytes buf) = 1024"
  shows "map (byte_at buf) (regions [whole_buffer buf]) = vec_bytes buf"
  using assms
  by (intro nth_equalityI) (simp_all add: region_def byte_at_def whole_buffer_def unat_of_nat del: upt_conv_Cons)

lemma reader_ok:
  "op_ok (Some (reader addr client))" "unsent (Some (reader addr client)) = []"
  by (simp_all add: reader_def push_back_range_def whole_buffer_def)

lemma writer_then_ok:
  assumes "op_ok (Some (Send_op client msg buf))" and "n \<le> length (regions (sm_buffers msg))"
  shows "op_ok (Some (writer_then addr (int n) client msg buf))"
    and "unsent (Some (writer_then addr (int n) client msg buf)) =
      drop n (unsent (Some (Send_op client msg buf)))"
proof -
  let ?bufs = "message_advance (sm_buffers msg) (of_int (int n))"
  have "unat (of_int (int n) :: 64 word) = n" using assms by (simp add: unat_of_nat)
  then have left: "regions ?bufs = drop n (regions (sm_buffers msg))" by (simp add: regions_advance)
  have full: "message_to_bool ?bufs \<longleftrightarrow> n < length (regions (sm_buffers msg))"
  proof -
    have "2 ^ 64 dvd length (regions ?bufs) \<longleftrightarrow> length (regions ?bufs) = 0"
      using assms left by (auto dest: dvd_imp_le)
    then show ?thesis using left by (auto simp: message_to_bool_def message_empty_iff_dvd)
  qed
  show "op_ok (Some (writer_then addr (int n) client msg buf))"
    using assms full left reader_ok(1) [of addr client] by (auto simp: writer_then_def writer_def Let_def)
  show "unsent (Some (writer_then addr (int n) client msg buf)) =
      drop n (unsent (Some (Send_op client msg buf)))"
    using full left reader_ok(2) [of addr client]
    by (auto simp: writer_then_def writer_def Let_def drop_map not_less)
qed

lemma session_ok_step:
  assumes "session_ok ses" and "possible ev ses"
  shows "session_ok (session_step addr ev ses)"
proof (cases "ses_op ses")
  case None
  then show ?thesis using assms by simp
next
  case (Some op)
  then obtain rest where ok: "op_ok (Some op)" "\<forall>c \<in> set (ses_rx ses). c \<noteq> [] \<and> length c \<le> 1024"
    and rest: "ses_tx ses @ unsent (Some op) = concat (map padded (ses_rx ses))"
    using assms(1) by (auto simp: session_ok_def)
  show ?thesis
  proof (cases ev)
    case (Received bs flags)
    then obtain client msg buf where op: "op = Recv_op client msg buf"
      using assms(2) Some by (auto split: echo_op.splits)
    have len: "length bs \<le> 1024" using assms(2) ok Some Received op by (simp add: whole_buffer_def)
    moreover have "unsent (Some (writer client (msg\<lparr>sm_flags := flags\<rparr>)
        (store_bytes buf (regions (sm_buffers msg)) bs))) = padded bs"
      using ok op len store_bytes_whole [of buf bs] bytes_of_whole [of "buf\<lparr>vec_bytes := padded bs\<rparr>"]
      by (simp add: writer_def padded_def whole_buffer_def)
    ultimately show ?thesis
      using Some Received op ok rest
      by (auto simp: session_ok_def reader_then_def writer_def whole_buffer_def)
  next
    case (Sent n)
    then obtain client msg buf where op: "op = Send_op client msg buf"
      using assms(2) Some by (auto split: echo_op.splits)
    have n: "n \<le> length (regions (sm_buffers msg))" using assms(2) Some Sent op by simp
    have "map (byte_at buf) (take n (regions (sm_buffers msg))) @ drop n (unsent (Some op)) = unsent (Some op)"
      by (simp add: op take_map [symmetric] drop_map [symmetric])
    then show ?thesis
      using Some Sent op ok rest writer_then_ok [OF ok(1) [unfolded op] n, of addr]
      by (auto simp: session_ok_def)
  next
    case (Failed_with reason)
    then show ?thesis using Some ok rest by (auto simp: session_ok_def split: echo_op.splits)
  qed
qed

definition echo_ok :: "echo \<Rightarrow> bool" where
  "echo_ok s \<longleftrightarrow> (\<forall>ses \<in> set (echo_sessions s). session_ok ses) \<and> echo_cerr s = []"

lemma reported_nothing [simp]: "reported ev = []"
  by (cases ev) (simp_all add: error_handler_def decltype_error_def)

lemma new_session_ok: "session_ok \<lparr>ses_op = Some (reader addr client), ses_rx = [], ses_tx = []\<rparr>"
  using reader_ok by (simp add: session_ok_def)

lemma echo_reach_ok: "echo_reach server s \<Longrightarrow> echo_ok s"
proof (induction rule: echo_reach.induct)
  case (Accepted s sv addr client a r next_accept)
  then show ?case by (auto simp: echo_ok_def acceptor_then_def new_session_ok)
next
  case (Session s i ev addr)
  then have "session_ok (session_step addr ev (echo_sessions s ! i))"
    by (intro session_ok_step) (auto simp: echo_ok_def)
  then show ?case
    using Session.IH set_update_subset_insert by (fastforce simp: echo_ok_def)
qed (simp_all add: echo_ok_def)

text \<open>Sends of the given numbers of bytes, one after the other, each of at least one byte.\<close>

fun send_all :: "(nat \<times> 64 word) list \<Rightarrow> session \<Rightarrow> session option" where
  "send_all [] ses = Some ses"
| "send_all ((n, addr) # ns) ses =
     (if 0 < n \<and> possible (Sent n) ses then send_all ns (session_step addr (Sent n) ses) else None)"

lemma sent_step:
  fixes addr
  assumes "ses_op ses = Some (Send_op client msg buf)" and "op_ok (ses_op ses)" and "possible (Sent n) ses"
  defines "ses' \<equiv> session_step addr (Sent n) ses"
  shows "unsent (ses_op ses') = drop n (unsent (ses_op ses)) \<and> ses_rx ses' = ses_rx ses \<and>
    n \<le> length (unsent (ses_op ses)) \<and>
    (if n = length (unsent (ses_op ses)) then ses_op ses' = Some (reader addr client)
     else \<exists>msg'. ses_op ses' = Some (Send_op client msg' buf))"
proof -
  have n: "n \<le> length (regions (sm_buffers msg))" using assms(1,3) by simp
  note ok = writer_then_ok [OF assms(2) [unfolded assms(1)] n, of addr]
  have "unsent (ses_op ses') = drop n (unsent (ses_op ses))" "ses_rx ses' = ses_rx ses"
    "n \<le> length (unsent (ses_op ses))"
    using ok(2) n assms(1) by (simp_all add: ses'_def)
  moreover have "ses_op ses' = Some (writer_then addr (int n) client msg buf)" using assms(1) by (simp add: ses'_def)
  moreover have "writer_then addr (int n) client msg buf = reader addr client \<or>
      (\<exists>msg'. writer_then addr (int n) client msg buf = Send_op client msg' buf)"
    by (simp add: writer_then_def writer_def Let_def)
  ultimately show ?thesis
    using ok n assms(1) reader_ok(2) [of addr client] by auto
qed

lemma send_all_progress:
  assumes "send_all ns ses = Some ses'" and "session_ok ses" and "ses_op ses = Some (Send_op client msg buf)"
    and "sent = sum_list (map fst ns)"
  shows "length ns \<le> sent \<and> sent \<le> length (unsent (ses_op ses)) \<and>
    (if sent = length (unsent (ses_op ses)) then \<exists>addr. ses_op ses' = Some (reader addr client)
     else (\<exists>msg'. ses_op ses' = Some (Send_op client msg' buf)) \<and> possible (Sent 1) ses') \<and>
    session_ok ses' \<and> ses_rx ses' = ses_rx ses"
  using assms
proof (induction ns arbitrary: ses msg sent)
  case Nil
  then show ?case by (auto simp: session_ok_def Suc_le_eq)
next
  case (Cons na ns)
  obtain n addr where na: "na = (n, addr)" by fastforce
  define ses1 where "ses1 = session_step addr (Sent n) ses"
  let ?rest = "sum_list (map fst ns)" and ?len = "length (unsent (ses_op ses))"
  have n: "0 < n" "possible (Sent n) ses" and rest: "send_all ns ses1 = Some ses'"
    using Cons.prems(1) by (auto simp: na ses1_def split: if_splits)
  have "op_ok (ses_op ses)" using Cons.prems(2) by (simp add: session_ok_def)
  note step = sent_step [OF Cons.prems(3) this n(2), of addr, folded ses1_def]
  have ok: "session_ok ses1" unfolding ses1_def by (rule session_ok_step [OF Cons.prems(2) n(2)])
  have sent: "sent = n + ?rest" using Cons.prems(4) by (simp add: na)
  show ?case
  proof (cases "n = ?len")
    case True
    then have op: "ses_op ses1 = Some (reader addr client)" using step by simp
    have "ns = []"
    proof (cases ns)
      case (Cons nb ns')
      then show ?thesis using rest op by (cases nb) (auto simp: reader_def split: if_splits)
    qed
    then show ?thesis using True sent rest ok op step n by (auto simp: Suc_le_eq)
  next
    case False
    then obtain msg' where "ses_op ses1 = Some (Send_op client msg' buf)" using step by auto
    from Cons.IH [OF rest ok this refl] show ?thesis
      using n step sent False by (auto split: if_splits)
  qed
qed

lemma padded_exact:
  assumes "\<forall>c \<in> set cs. length c \<le> 1024"
  shows "concat (map padded cs) = concat cs \<longleftrightarrow> (\<forall>c \<in> set cs. length c = 1024)"
proof
  have le: "length (concat cs) \<le> length (concat (map padded cs))" for cs
    by (induction cs) (auto simp: padded_def)
  assume "concat (map padded cs) = concat cs"
  then have "length (concat (map padded cs)) = length (concat cs)" by simp
  then show "\<forall>c \<in> set cs. length c = 1024"
    using assms
  proof (induction cs)
    case (Cons c cs)
    have "length (padded c) + length (concat (map padded cs)) = length c + length (concat cs)"
      using Cons.prems(1) by (simp only: list.map concat.simps length_append)
    moreover have "length (padded c) = 1024" "length c \<le> 1024" using Cons.prems(2) by (simp_all add: padded_def)
    ultimately have c: "length c = 1024" and cs: "length (concat (map padded cs)) = length (concat cs)"
      using le [of cs] by linarith+
    have "\<forall>d \<in> set cs. length d = 1024"
      using Cons.prems(2) by (intro Cons.IH [OF cs]) auto
    with c show ?case by (simp only: list.set ball_simps simp_thms)
  qed simp
next
  assume "\<forall>c \<in> set cs. length c = 1024"
  then have "map padded cs = cs" by (intro map_idI) (simp add: padded_def)
  then show "concat (map padded cs) = concat cs" by simp
qed

section \<open>Properties\<close>

text \<open>
  (C19) What the server sends back. In every reachable state and for every session, with the bytes
  grouped by the receive that delivered them: the bytes sent so far, together with those that the
  pending send still has to send, are the received groups in order, each filled up with zeros to the
  1024 bytes of the buffer. Nothing is lost, repeated or reordered over partial writes, but while a
  session waits for input what it sent equals what it received only if every receive filled the
  whole buffer. A session with a send pending always gets back to receiving: sends that make progress
  can follow each other at most 1024 times, the next one is possible until everything is sent, and then
  the session receives again. No error is ever reported on the error stream.
\<close>

theorem echo_stream:
  assumes "echo_reach server s" and "ses \<in> set (echo_sessions s)"
  shows "(\<exists>rest. ses_tx ses @ rest = concat (map padded (ses_rx ses)) \<and>
      (ses_op ses \<noteq> None \<longrightarrow> rest = unsent (ses_op ses))) \<and>
    (\<forall>client msg buf. ses_op ses = Some (Recv_op client msg buf) \<longrightarrow>
      (ses_tx ses = concat (ses_rx ses) \<longleftrightarrow> (\<forall>c \<in> set (ses_rx ses). length c = 1024))) \<and>
    (\<forall>client msg buf ns ses'. ses_op ses = Some (Send_op client msg buf) \<and> send_all ns ses = Some ses' \<longrightarrow>
      length ns \<le> 1024 \<and>
      (if sum_list (map fst ns) = length (unsent (ses_op ses))
       then (\<exists>addr. ses_op ses' = Some (reader addr client)) \<and> ses_tx ses' = concat (map padded (ses_rx ses))
       else possible (Sent 1) ses')) \<and>
    echo_cerr s = []"
proof -
  have ok: "session_ok ses" and cerr: "echo_cerr s = []"
    using echo_reach_ok [OF assms(1)] assms(2) by (auto simp: echo_ok_def)
  then obtain rest where rest: "ses_tx ses @ rest = concat (map padded (ses_rx ses))"
    "ses_op ses \<noteq> None \<longrightarrow> rest = unsent (ses_op ses)" and small: "\<forall>c \<in> set (ses_rx ses). length c \<le> 1024"
    by (auto simp: session_ok_def)
  have replied: "length ns \<le> 1024 \<and>
      (if sum_list (map fst ns) = length (unsent (ses_op ses))
       then (\<exists>addr. ses_op ses' = Some (reader addr client)) \<and> ses_tx ses' = concat (map padded (ses_rx ses))
       else possible (Sent 1) ses')"
    if op: "ses_op ses = Some (Send_op client msg buf)" and run: "send_all ns ses = Some ses'" for client msg buf ns ses'
  proof -
    note all = send_all_progress [OF run ok op refl]
    have "length (unsent (ses_op ses)) \<le> 1024" using ok op by (simp add: session_ok_def)
    moreover have "ses_tx ses' = concat (map padded (ses_rx ses))" if "ses_op ses' = Some (reader addr client)" for addr
      using all that reader_ok(2) [of addr client] by (auto simp: session_ok_def)
    ultimately show ?thesis using all by (auto split: if_splits)
  qed
  have "ses_tx ses = concat (ses_rx ses) \<longleftrightarrow> (\<forall>c \<in> set (ses_rx ses). length c = 1024)"
    if "ses_op ses = Some (Recv_op client msg buf)" for client msg buf
    using rest that padded_exact [OF small] by auto
  with rest cerr show ?thesis
    by (intro conjI allI impI; (elim conjE)?) (blast | rule replied [THEN conjunct1] replied [THEN conjunct2]; assumption)+
qed

theorem echo_stream_witness:
  "\<exists>s ses. echo_reach \<lparr>dlg_executor = 0, dlg_socket = Some 0\<rparr> s \<and> ses \<in> set (echo_sessions s) \<and> ses_rx ses = [[104, 105]] \<and>
     ses_tx ses = [104, 105] @ replicate 1022 0"
proof -
  let ?server = "\<lparr>dlg_executor = 0, dlg_socket = Some 0\<rparr>"
  let ?s0 = "\<lparr>echo_accept = Some (acceptor ?server), echo_sessions = [], echo_cerr = []\<rparr>"
  let ?r = "reader 4096 ?server"
  let ?n = "\<lparr>ses_op = Some ?r, ses_rx = [], ses_tx = []\<rparr>"
  let ?s1 = "?s0\<lparr>echo_accept := Some (acceptor ?server), echo_sessions := [?n]\<rparr>"
  define n1 where "n1 = session_step 0 (Received [104, 105] 0) ?n"
  define n2 where "n2 = session_step 8192 (Sent 1024) n1"
  let ?s2 = "?s1\<lparr>echo_sessions := [n1]\<rparr>"
  let ?s3 = "?s2\<lparr>echo_sessions := [n2]\<rparr>"
  have r1: "echo_reach ?server ?s1"
    using echo_reach.Accepted [OF echo_reach.Listening, of ?server ?server 4096 ?server "[]" ?r "acceptor ?server"]
    by (simp add: acceptor_def acceptor_then_def)
  have "possible (Received [104, 105] 0) ?n"
    by (simp add: reader_def push_back_range_def)
  then have r2: "echo_reach ?server ?s2"
    using echo_reach.Session [OF r1, of 0 "Received [104, 105] 0" 0] by (simp add: n1_def)
  obtain msg buf where n1: "ses_op n1 = Some (Send_op ?server msg buf)" "ses_rx n1 = [[104, 105]]"
    "length (regions (sm_buffers msg)) = 1024"
    by (auto simp: n1_def reader_def reader_then_def writer_def push_back_range_def)
  have "possible (Sent 1024) n1" using n1 by simp
  then have r3: "echo_reach ?server ?s3"
    using echo_reach.Session [OF r2, of 0 "Sent 1024" 8192] by (simp add: n2_def)
  have "regions (message_advance (sm_buffers msg) 1024) = []"
    using n1(3) by (simp add: regions_advance)
  then have "ses_op n2 = Some (reader 8192 ?server)" "ses_rx n2 = [[104, 105]]"
    using n1 by (simp_all add: n2_def writer_then_def message_to_bool_def message_empty_iff_dvd)
  then show ?thesis
    using echo_stream [OF r3, of n2] r3 reader_ok(2) [of 8192 ?server]
    by (intro exI [of _ ?s3] exI [of _ n2]) (simp add: padded_def)
qed

text \<open>
  The loop of \<^verbatim>\<open>main\<close> ends as soon as a wait finds no descriptor with an active interest, that is,
  when the accept and all sessions have ended.
\<close>

lemma wait_without_interest:
  assumes "copy_active (ilist s) = []"
  shows "triggers_wait os rcv s = Some (Inr 0, s)"
  using assms
  by (simp add: triggers_wait_def executor_wait_def executor_wait_for_def wait_for_def poll_call_def)

lemma wait_loop_ends:
  assumes "copy_active (ilist s) = []"
  shows "wait_loop os rcv s = Some (Inr (), s)"
  by (subst wait_loop.simps) (simp add: wait_without_interest [OF assms])

text \<open>
  Setting up. The three configuration calls are made in order on the server's socket; the first
  that fails ends the set-up with its error number, and the later ones are not made. When all
  succeed, one accept is pending.
\<close>

lemma make_server_outcome:
  fixes os :: "'w os" and e :: "'w env"
  assumes "dlg_socket server = Some h"
  defines "c1 \<equiv> sync_setsockopt os h SOL_SOCKET SO_REUSEADDR [1, 0, 0, 0] e"
  defines "c2 \<equiv> sync_bind os h server_address (snd c1)"
  defines "c3 \<equiv> sync_listen os h SOMAXCONN (snd c2)"
  shows "make_server os server e =
    (if fst c1 \<noteq> 0 then (Inl (System_error (errno (snd c1))), snd c1)
     else if fst c2 \<noteq> 0 then (Inl (System_error (errno (snd c2))), snd c2)
     else if fst c3 \<noteq> 0 then (Inl (System_error (errno (snd c3))), snd c3)
     else (Inr (Accept_op server), snd c3))"
  using assms
  by (auto simp: make_server_def checked_def async_setsockopt_def async_bind_def async_listen_def on_socket_def
      acceptor_def map_prod_def split: prod.splits)

text \<open>
  \<^verbatim>\<open>main\<close> ends with the error of the first call of its set-up that fails, without waiting; and it returns
  when the accept it has spawned leaves nothing to wait for.
\<close>

lemma echo_main_outcome:
  assumes "triggers_emplace_socket os ex AF_INET SOCK_STREAM IPPROTO_TCP (sys_env s) = (Inr server, e)"
  shows "make_server os server e = (Inl x, e') \<Longrightarrow> echo_main os rcv spawn ex s = Some (Inl x, s\<lparr>sys_env := e'\<rparr>)"
    and "make_server os server e = (Inr op, e') \<Longrightarrow> spawn op (s\<lparr>sys_env := e'\<rparr>) = Some (Inr (), s') \<Longrightarrow>
      copy_active (ilist s') = [] \<Longrightarrow> echo_main os rcv spawn ex s = Some (Inr (), s')"
  using assms by (simp_all add: echo_main_def wait_loop_ends)

end
