(* ===== verification/Ping_Pong.thy ===== *)
theory Ping_Pong
  imports Echo_Server
begin

text \<open>
  The client of \<^verbatim>\<open>examples/async_ping_pong_client.cpp\<close>: the class \<^verbatim>\<open>AsyncPingPongClient\<close> with its counters, the
  continuations of its connect, send and receive operations, and the loop of \<^verbatim>\<open>run\<close>.

  At most one operation is pending; \<open>pp_op\<close> is that operation with the sequence number its continuation
  captures. The counters are atomic 32-bit integers, which wrap around. \<open>pp_buf\<close> is the static array that
  all receives share.
\<close>

section \<open>The client\<close>

datatype pp_op = Connect_op | Ping_op int socket_message | Pong_op int

record ping_pong =
  pp_count :: int
  pp_sent :: "32 word"
  pp_received :: "32 word"
  pp_op :: "pp_op option"
  pp_buf :: "byte list"

definition ping_client :: "int \<Rightarrow> ping_pong" where
  "ping_client ping_count =
     \<lparr>pp_count = ping_count, pp_sent = 0, pp_received = 0, pp_op = None, pp_buf = replicate 256 0\<rparr>"

text \<open>The first part of \<^verbatim>\<open>run\<close> spawns the connect operation.\<close>

definition pp_start :: "ping_pong \<Rightarrow> ping_pong" where
  "pp_start c = c\<lparr>pp_op := Some Connect_op\<rparr>"

text \<open>\<open>lit\<close> is the address of the string literal; \<^verbatim>\<open>strnlen\<close> of it is 6.\<close>

definition send_ping :: "64 word \<Rightarrow> int \<Rightarrow> ping_pong \<Rightarrow> ping_pong" where
  "send_ping lit sequence c =
     (let message = \<lparr>sm_address = None, sm_buffers = emplace_back [] lit 6, sm_control = [], sm_flags = 0\<rparr>
      in c\<lparr>pp_op := Some (Ping_op sequence message)\<rparr>)"

definition start_ping_pong :: "64 word \<Rightarrow> int \<Rightarrow> ping_pong \<Rightarrow> ping_pong" where
  "start_ping_pong lit sequence c = (if sequence < pp_count c then send_ping lit sequence c else c)"

definition wait_for_pong :: "int \<Rightarrow> ping_pong \<Rightarrow> ping_pong" where
  "wait_for_pong sequence c = c\<lparr>pp_op := Some (Pong_op sequence)\<rparr>"

definition schedule_next_ping :: "64 word \<Rightarrow> int \<Rightarrow> ping_pong \<Rightarrow> ping_pong" where
  "schedule_next_ping lit sequence c = (if sequence < pp_count c then start_ping_pong lit sequence c else c)"

text \<open>\<^verbatim>\<open>std::string::find\<close>, as far as it is used: whether there is an occurrence.\<close>

fun found :: "byte list \<Rightarrow> byte list \<Rightarrow> bool" where
  "found pat [] \<longleftrightarrow> pat = []"
| "found pat (b # bs) \<longleftrightarrow> take (length pat) (b # bs) = pat \<or> found pat bs"

definition pong :: "byte list" where
  "pong = [112, 111, 110, 103]"

text \<open>The continuations; the operation that completed is no longer pending.\<close>

definition connect_then :: "64 word \<Rightarrow> ping_pong \<Rightarrow> ping_pong" where
  "connect_then lit c = start_ping_pong lit 0 (c\<lparr>pp_op := None\<rparr>)"

definition send_then :: "int \<Rightarrow> ping_pong \<Rightarrow> ping_pong" where
  "send_then sequence c = wait_for_pong sequence (c\<lparr>pp_sent := pp_sent c + 1, pp_op := None\<rparr>)"

definition recv_then :: "64 word \<Rightarrow> int \<Rightarrow> nat \<Rightarrow> ping_pong \<Rightarrow> ping_pong" where
  "recv_then lit sequence bytes_received c =
     (let message = take bytes_received (pp_buf c); c = c\<lparr>pp_op := None\<rparr>;
          (c, next) = (if found pong message then (c\<lparr>pp_received := pp_received c + 1\<rparr>, sequence + 1)
                       else (c, sequence))
      in schedule_next_ping lit next c)"

section \<open>Completions and the loop\<close>

text \<open>What completes the pending operation. A receive stores the bytes at the start of the array.\<close>

datatype pp_event = Connected | Ping_sent | Received_bytes "byte list" | Operation_failed

definition pp_step :: "64 word \<Rightarrow> pp_event \<Rightarrow> ping_pong \<Rightarrow> ping_pong" where
  "pp_step lit ev c =
     (case (pp_op c, ev) of
        (Some Connect_op, Connected) \<Rightarrow> connect_then lit c
      | (Some (Ping_op sequence _), Ping_sent) \<Rightarrow> send_then sequence c
      | (Some (Pong_op sequence), Received_bytes bs) \<Rightarrow>
          if length bs \<le> length (pp_buf c)
          then recv_then lit sequence (length bs) (c\<lparr>pp_buf := bs @ drop (length bs) (pp_buf c)\<rparr>)
          else c
      | (Some _, Operation_failed) \<Rightarrow> c\<lparr>pp_op := None\<rparr>
      | _ \<Rightarrow> c)"

definition pp_waiting :: "ping_pong \<Rightarrow> bool" where
  "pp_waiting c \<longleftrightarrow> sint (pp_sent c) < pp_count c \<or> sint (pp_received c) < pp_count c"

text \<open>The loop of \<^verbatim>\<open>run\<close>; \<open>client\<close> reads the object, which the continuations update.\<close>

partial_function (option) run_loop ::
  "'w os \<Rightarrow> ('v, 'w) receivers \<Rightarrow> (('v, 'w) sys \<Rightarrow> ping_pong) \<Rightarrow> ('v, 'w) sys
     \<Rightarrow> (unit, ('v, 'w) sys) outcome" where
  "run_loop os rcv client s =
     (if pp_waiting (client s)
      then and_then (triggers_wait os rcv s) (\<lambda>_ s'. run_loop os rcv client s')
      else Some (Inr (), s))"

text \<open>
  The whole of \<^verbatim>\<open>run\<close>: a socket on the executor \<open>ex\<close> of the client's triggers object, the connect operation with
  the identity \<open>t\<close>, and the loop.
\<close>

definition pp_run ::
  "(eid \<Rightarrow> bool) \<Rightarrow> 'w os \<Rightarrow> (int, 'w) receivers \<Rightarrow> eid \<Rightarrow> tid \<Rightarrow> byte list \<Rightarrow> ((int, 'w) sys \<Rightarrow> ping_pong)
     \<Rightarrow> (int, 'w) sys \<Rightarrow> (unit, (int, 'w) sys) outcome" where
  "pp_run alive os rcv ex t address client s =
     (case triggers_emplace_socket os ex AF_INET SOCK_STREAM IPPROTO_TCP (sys_env s) of
        (Inl x, e) \<Rightarrow> Some (Inl x, s\<lparr>sys_env := e\<rparr>)
      | (Inr d, e) \<Rightarrow>
          and_then (launch rcv t (async_connect alive os d address e) s) (\<lambda>_ s'. run_loop os rcv client s'))"

text \<open>\<^verbatim>\<open>main\<close>: five pings to the address of the echo server.\<close>

definition ping_server_address :: "byte list" where
  "ping_server_address = [2, 0, 31, 144, 127, 0, 0, 1] @ replicate 8 0"

definition pp_main ::
  "(eid \<Rightarrow> bool) \<Rightarrow> 'w os \<Rightarrow> (int, 'w) receivers \<Rightarrow> eid \<Rightarrow> tid \<Rightarrow> (ping_pong \<Rightarrow> (int, 'w) sys \<Rightarrow> ping_pong)
     \<Rightarrow> (int, 'w) sys \<Rightarrow> (unit, (int, 'w) sys) outcome" where
  "pp_main alive os rcv ex t client s =
     pp_run alive os rcv ex t ping_server_address (client (pp_start (ping_client 5))) s"

section \<open>Counting\<close>

fun op_sequence :: "pp_op \<Rightarrow> int" where
  "op_sequence Connect_op = 0"
| "op_sequence (Ping_op sequence _) = sequence"
| "op_sequence (Pong_op sequence) = sequence"

text \<open>
  With \<open>k\<close> completions so far: a bound on the pings, the sequence number of the pending operation, and
  a ping ahead while a pong is awaited.
\<close>

definition pp_ok :: "nat \<Rightarrow> ping_pong \<Rightarrow> bool" where
  "pp_ok k c \<longleftrightarrow>
     unat (pp_sent c) \<le> k \<and> unat (pp_received c) \<le> unat (pp_sent c) \<and> int (unat (pp_received c)) \<le> pp_count c \<and>
     length (pp_buf c) = 256 \<and>
     (case pp_op c of
        None \<Rightarrow> True
      | Some op \<Rightarrow> op_sequence op = int (unat (pp_received c)) \<and>
          (op = Connect_op \<longrightarrow> pp_received c = 0) \<and>
          (op \<noteq> Connect_op \<longrightarrow> op_sequence op < pp_count c) \<and>
          ((\<exists>sequence. op = Pong_op sequence) \<longrightarrow> unat (pp_received c) < unat (pp_sent c)))"

lemma counter_Suc:
  assumes "unat w + 1 < 2 ^ 31"
  shows "unat (w + 1 :: 32 word) = unat w + 1" and "uint (w + 1) = uint w + 1"
proof -
  show "unat (w + 1) = unat w + 1" using assms by (simp add: unat_word_ariths)
  then have "int (unat (w + 1)) = int (unat w) + 1" by simp
  then show "uint (w + 1) = uint w + 1" by simp
qed

lemma pp_ok_start: "0 \<le> n \<Longrightarrow> pp_ok 0 (pp_start (ping_client n))"
  by (simp add: pp_ok_def pp_start_def ping_client_def)

lemma pp_ok_step:
  assumes "pp_ok k c" and "Suc k < 2 ^ 31"
  shows "pp_ok (Suc k) (pp_step lit ev c)" and "pp_count (pp_step lit ev c) = pp_count c"
proof -
  note defs = pp_step_def connect_then_def send_then_def recv_then_def start_ping_pong_def send_ping_def
    wait_for_pong_def schedule_next_ping_def Let_def
  have sent: "unat (pp_sent c + 1) = unat (pp_sent c) + 1"
    using assms by (intro counter_Suc) (simp add: pp_ok_def)
  have received: "unat (pp_received c + 1) = unat (pp_received c) + 1"
    "uint (pp_received c + 1) = uint (pp_received c) + 1"
    using assms by (intro counter_Suc; simp add: pp_ok_def)+
  show "pp_ok (Suc k) (pp_step lit ev c)"
    using assms sent received
    by (auto simp: pp_ok_def defs split: option.splits pp_op.splits pp_event.splits if_splits)
  show "pp_count (pp_step lit ev c) = pp_count c"
    by (auto simp: defs split: option.splits pp_op.splits pp_event.splits)
qed

lemma pp_ok_run:
  assumes "pp_ok k c" and "k + length evs < 2 ^ 31"
  shows "pp_ok (k + length evs) (fold (pp_step lit) evs c) \<and> pp_count (fold (pp_step lit) evs c) = pp_count c"
  using assms
proof (induction evs arbitrary: k c)
  case (Cons ev evs)
  then show ?case using Cons.IH [of "Suc k" "pp_step lit ev c"] pp_ok_step [of k c lit ev] by simp
qed simp

lemma sint_small: "sint (w :: 32 word) = int (unat w)" if "unat w < 2 ^ 31"
proof -
  have "uint w < 2 ^ 31" using that by (metis of_nat_less_iff of_nat_numeral of_nat_power uint_nat)
  then have "signed_take_bit 31 (uint w) = uint w"
    by (intro signed_take_bit_int_eq_self) (simp_all add: order_trans [OF _ uint_ge_0])
  then show ?thesis by (simp add: sint_uint)
qed

lemma pp_step_idle: "pp_op c = None \<Longrightarrow> pp_step lit ev c = c"
  by (simp add: pp_step_def)

lemma pp_run_idle: "pp_op c = None \<Longrightarrow> fold (pp_step lit) evs c = c"
  by (induction evs) (simp_all add: pp_step_idle)

lemma run_loop_returns:
  assumes "run_loop os rcv client s = Some r"
  shows "pp_waiting (client s) \<longrightarrow> copy_active (ilist s) \<noteq> []"
proof (rule run_loop.raw_induct [where P = "\<lambda>os rcv client s r.
      pp_waiting (client s) \<longrightarrow> copy_active (ilist s) \<noteq> []", OF _ assms])
  fix f os rcv client s r
  assume IH: "\<And>os rcv client s r. f os rcv client s = Some r \<Longrightarrow>
      pp_waiting (client s) \<longrightarrow> copy_active (ilist s) \<noteq> []"
    and body: "(if pp_waiting (client s) then and_then (triggers_wait os rcv s) (\<lambda>_. f os rcv client)
      else Some (Inr (), s)) = Some r"
  show "pp_waiting (client s) \<longrightarrow> copy_active (ilist s) \<noteq> []"
    using IH [of os rcv client s r] body wait_without_interest [of s os rcv] by auto
qed

section \<open>Properties\<close>

text \<open>
  The counters of the client, after any completions of its operations in the order in which they can
  happen, fewer than the counters can hold: no more pongs are counted than pings sent, and no more
  than the number of pings asked for; the pending operation carries the number of pongs counted as
  its sequence number, and a ping is outstanding while a pong is awaited. The loop of \<^verbatim>\<open>run\<close> ends
  exactly when all pongs were counted.
\<close>

theorem ping_pong_counts:
  assumes "0 \<le> n" and "length evs < 2 ^ 31"
    and "c = fold (pp_step lit) evs (pp_start (ping_client n))"
  shows "0 \<le> sint (pp_received c) \<and> sint (pp_received c) \<le> sint (pp_sent c) \<and> sint (pp_received c) \<le> n \<and>
    (\<forall>op. pp_op c = Some op \<longrightarrow> op_sequence op = sint (pp_received c)) \<and>
    (\<forall>sequence. pp_op c = Some (Pong_op sequence) \<longrightarrow> sint (pp_received c) < sint (pp_sent c)) \<and>
    (pp_waiting c \<longleftrightarrow> sint (pp_received c) < n)"
proof -
  have ok: "pp_ok (length evs) c" and n: "pp_count c = n"
    using pp_ok_run [OF pp_ok_start [OF assms(1)], of evs lit] assms(2,3)
    by (simp_all add: pp_start_def ping_client_def)
  have "sint (pp_sent c) = int (unat (pp_sent c))" "sint (pp_received c) = int (unat (pp_received c))"
    using ok assms(2) by (intro sint_small; simp add: pp_ok_def)+
  then show ?thesis
    using ok n
    by (auto simp: pp_ok_def pp_waiting_def word_less_def word_le_def
        word_less_nat_alt [symmetric] word_le_nat_alt [symmetric])
qed

theorem ping_pong_counts_witness:
  "sint (pp_received (fold (pp_step 64) [Connected, Ping_sent, Received_bytes [112, 111, 110, 103, 10], Ping_sent]
     (pp_start (ping_client 2)))) = 1 \<and>
   pp_waiting (fold (pp_step 64) [Connected, Ping_sent, Received_bytes [112, 111, 110, 103, 10], Ping_sent]
     (pp_start (ping_client 2)))"
proof -
  let ?c = "fold (pp_step 64) [Connected, Ping_sent, Received_bytes [112, 111, 110, 103, 10], Ping_sent]
     (pp_start (ping_client 2))"
  have "pp_received ?c = 1"
    by (simp add: pp_step_def connect_then_def send_then_def recv_then_def start_ping_pong_def send_ping_def
        wait_for_pong_def schedule_next_ping_def pong_def pp_start_def ping_client_def)
  then show ?thesis
    using ping_pong_counts [of 2 "[Connected, Ping_sent, Received_bytes [112, 111, 110, 103, 10], Ping_sent]" ?c 64]
    by simp
qed

text \<open>
  (C27) An operation that fails ends the exchange but not the loop: the continuation for errors does
  nothing, so no operation is pending from then on, no completion changes the client any more, and
  \<^verbatim>\<open>run\<close> never returns once nothing is left in the interest list; every wait returns at once.
\<close>

theorem failed_ping_never_returns:
  assumes "pp_op c = Some op" and "sint (pp_received c) < pp_count c"
  shows "pp_op (pp_step lit Operation_failed c) = None \<and>
    fold (pp_step lit) evs (pp_step lit Operation_failed c) = pp_step lit Operation_failed c \<and>
    pp_waiting (pp_step lit Operation_failed c) \<and>
    (client s = pp_step lit Operation_failed c \<and> copy_active (ilist s) = [] \<longrightarrow>
       triggers_wait os rcv s = Some (Inr 0, s) \<and> run_loop os rcv client s = None)"
proof -
  let ?c = "pp_step lit Operation_failed c"
  have c: "?c = c\<lparr>pp_op := None\<rparr>" using assms(1) by (simp add: pp_step_def split: pp_op.splits)
  then have waiting: "pp_waiting ?c" using assms(2) by (simp add: pp_waiting_def)
  moreover have "run_loop os rcv client s = None" if "client s = ?c" "copy_active (ilist s) = []"
    using run_loop_returns [of os rcv client s] that waiting by (cases "run_loop os rcv client s") auto
  ultimately show ?thesis using c by (simp add: pp_run_idle wait_without_interest)
qed

theorem failed_ping_never_returns_witness:
  "run_loop (sending_os 5 0) no_reaction (\<lambda>_. pp_step 64 Operation_failed (pp_start (ping_client 5)))
     (initial_sys example_env :: (int, nat) sys) = None"
proof -
  have "copy_active (ilist (initial_sys example_env :: (int, nat) sys)) = []" by (simp add: initial_sys_def copy_active_def)
  then show ?thesis
    using failed_ping_never_returns [where c = "pp_start (ping_client 5)" and op = Connect_op and lit = 64
        and evs = "[]" and client = "\<lambda>_. pp_step 64 Operation_failed (pp_start (ping_client 5))"
        and s = "initial_sys example_env :: (int, nat) sys" and os = "sending_os 5 0" and rcv = no_reaction]
    by (simp add: pp_start_def ping_client_def)
qed

text \<open>
  The whole program when the connection is refused at once: the error is delivered to a continuation that
  does nothing, and \<^verbatim>\<open>run\<close> does not return.
\<close>

lemma refused_client_never_returns:
  assumes "triggers_emplace_socket os ex AF_INET SOCK_STREAM IPPROTO_TCP (sys_env s) =
      (Inr \<lparr>dlg_executor = ex, dlg_socket = Some h\<rparr>, e)"
    and "sync_connect os h address e = Some (r, e1)" and "r \<noteq> 0" and "failed (errno e1)"
    and "errno e1 \<notin> {EINPROGRESS, EAGAIN, EALREADY, EISCONN}"
    and "alive ex" and "copy_active (ilist s) = []" and "\<And>s'. pp_waiting (client s')"
  shows "pp_run alive os no_reaction ex t address client s = None"
proof -
  let ?m = "async_connect alive os \<lparr>dlg_executor = ex, dlg_socket = Some h\<rparr> address e"
  have m: "?m = Some (Inr (executor_set h WRITE (constant_functor 0)), set_error h (errno e1) e1)"
    using assms(2,3,5,6)
    by (auto simp: async_connect_def with_socket_def get_executor_def handle_connect_error_def Let_def)
  from launch_failed_socket [OF m, of no_reaction t s] assms(4) obtain s' where
    s': "launch no_reaction t ?m s = Some (Inr (), s')" "ilist s' = ilist s"
    by (auto simp: set_error_frame deliver_def no_reaction_def)
  have "run_loop os no_reaction client s' = None"
    using run_loop_returns [of os no_reaction client s'] s'(2) assms(7,8)
    by (cases "run_loop os no_reaction client s'") auto
  then show ?thesis using assms(1) s'(1) by (simp add: pp_run_def)
qed

text \<open>
  (C28) A connection that the peer has closed is not noticed. A receive that brings no whole pong, such as the
  empty one at the end of the stream, or a pong that arrives in two parts, makes the client send another
  ping with the same sequence number. While sends succeed this repeats for ever: after any number of
  empty receives as many more pings were sent, no pong was counted, and \<^verbatim>\<open>run\<close> keeps waiting.
\<close>

theorem closed_peer_pinged_again:
  assumes "pp_op c = Some (Pong_op sequence)" and "sequence < pp_count c" and "\<not> found pong bs"
    and "length bs \<le> length (pp_buf c)" and "sint (pp_received c) < pp_count c"
  shows "(\<exists>msg. pp_op (pp_step lit (Received_bytes bs) c) = Some (Ping_op sequence msg)) \<and>
    pp_received (pp_step lit (Received_bytes bs) c) = pp_received c \<and>
    (\<forall>k. pp_sent (((\<lambda>c. pp_step lit Ping_sent (pp_step lit (Received_bytes []) c)) ^^ k) c) = pp_sent c + of_nat k \<and>
         pp_received (((\<lambda>c. pp_step lit Ping_sent (pp_step lit (Received_bytes []) c)) ^^ k) c) = pp_received c \<and>
         pp_waiting (((\<lambda>c. pp_step lit Ping_sent (pp_step lit (Received_bytes []) c)) ^^ k) c))"
proof -
  let ?round = "\<lambda>c. pp_step lit Ping_sent (pp_step lit (Received_bytes []) c)"
  note defs = pp_step_def recv_then_def send_then_def schedule_next_ping_def start_ping_pong_def send_ping_def
    wait_for_pong_def Let_def
  have empty: "\<not> found pong []" by (simp add: pong_def)
  have round: "?round d = d\<lparr>pp_sent := pp_sent d + 1\<rparr>" if "pp_op d = Some (Pong_op sequence)" "sequence < pp_count d" for d
    using that empty by (simp add: defs)
  have "(?round ^^ k) c = c\<lparr>pp_sent := pp_sent c + of_nat k\<rparr>" for k
  proof (induction k)
    case (Suc k)
    then show ?case using round [of "c\<lparr>pp_sent := pp_sent c + of_nat k\<rparr>"] assms(1,2) by (simp add: add.commute)
  qed simp
  then show ?thesis
    using assms by (auto simp: defs pp_waiting_def)
qed

theorem closed_peer_pinged_again_witness:
  "pp_sent (((\<lambda>c. pp_step 64 Ping_sent (pp_step 64 (Received_bytes []) c)) ^^ 10)
     (fold (pp_step 64) [Connected, Ping_sent] (pp_start (ping_client 5)))) = 11"
proof -
  let ?c = "fold (pp_step 64) [Connected, Ping_sent] (pp_start (ping_client 5))"
  have c: "pp_op ?c = Some (Pong_op 0)" "pp_count ?c = 5" "pp_received ?c = 0" "pp_sent ?c = 1" "length (pp_buf ?c) = 256"
    by (simp_all add: pp_step_def connect_then_def send_then_def start_ping_pong_def send_ping_def wait_for_pong_def
        pp_start_def ping_client_def Let_def)
  have "\<not> found pong []" by (simp add: pong_def)
  then show ?thesis
    using closed_peer_pinged_again [of ?c 0 "[]" 64] c by simp
qed

end
