(* ===== verification/Spec2Isabelle.thy ===== *)
theory Spec2Isabelle
  imports Small_Functor Queue_Refinement Critical_Section Accept_Completion Executor_Scope Concepts
    Handle_Concurrency Windows_Platform Ping_Pong
begin

text \<open>
  A verification of AsyncBerkeley, a C++ library of synchronous and asynchronous operations on Berkeley
  sockets. The sources are under \<^verbatim>\<open>src/include/io\<close>, two programs that use them under \<^verbatim>\<open>src/examples\<close>. The
  development models the POSIX build; the layer for Windows has a theory of its own.

  \<^bold>\<open>The program.\<close> A \<^verbatim>\<open>socket_handle\<close> owns a descriptor and remembers an error number. Synchronous operations
  work on a handle and repeat system calls that a signal interrupted. An asynchronous operation works
  on a \<^verbatim>\<open>socket_dialog\<close> (a shared handle and a weak reference to an executor): it may try the system call at
  once, and otherwise returns a sender of the executor's multiplexer. Connecting that sender to a
  receiver registers interest in an event of the descriptor, starting it queues the operation on an
  intrusive queue of the descriptor, and a thread that waits calls \<^verbatim>\<open>poll\<close>, moves the queues of the ready
  descriptors to a local queue and completes the operations on it.

  \<^bold>\<open>Theories\<close>, in the order of their dependencies.
  \<^item> \<open>Prelude\<close>: widths of the C++ integers, exceptions and undefined behaviour as values (\<open>exn\<close>), outcomes of
    code that may not return (\<open>outcome\<close>), the loop combinator \<open>iterate\<close>. \<open>Three_Way\<close>: the laws of
    \<^verbatim>\<open>operator<=>\<close> as a locale.
  \<^item> \<open>Task_Queue\<close>: \<^verbatim>\<open>execution/multiplexer.hpp\<close>, the intrusive queue on an explicit heap; the locales
    \<open>fifo_queue\<close> and \<open>queue_runner\<close> are its contract, lifted to all queues of a heap. Shown: push, pop and
    move_back are the list operations and leave other queues alone; the run loop ends and is FIFO.
  \<^item> \<open>Platform\<close>: the kernel as a parameter (\<open>os\<close>, one field per system call on a world of any type), the
    library's objects (\<open>env\<close>), the loop that retries on \<^verbatim>\<open>EINTR\<close>, \<^verbatim>\<open>throw_system_error\<close> of \<^verbatim>\<open>error.hpp\<close>.
  \<^item> \<open>Socket_Handle\<close>: \<^verbatim>\<open>socket/socket_handle.hpp\<close>. Shown: no descriptor is leaked or closed twice; what
    the moves leave behind. \<open>Handle_Concurrency\<close>: \<^verbatim>\<open>swap\<close> in its single atomic accesses, run by any number of
    threads beside \<^verbatim>\<open>set_error\<close>; shown: the descriptors behave as if the swaps were done one after the other.
  \<^item> \<open>Socket_Option\<close>: \<^verbatim>\<open>socket_option.hpp\<close>, \<^verbatim>\<open>socket_address.hpp\<close>. Shown: the type invariant (the size lies
    within the storage), round trip of spans, the order, which address conversions are defined.
  \<^item> \<open>Message_Buffer\<close>: \<^verbatim>\<open>socket_message.hpp\<close>, \<^verbatim>\<open>buffer_iterator.hpp\<close>, buffer arithmetic of
    \<^verbatim>\<open>platforms/posix/socket_impl.hpp\<close>. Shown: advancing removes exactly the given bytes, partial writes
    send every byte once, the iterator laws, what the kernel is handed. \<open>Windows_Platform\<close>: the layer in
    \<^verbatim>\<open>platforms/windows\<close> and the Windows branches of the message buffers, with 32-bit lengths; shown to agree
    with the POSIX buffers.
  \<^item> \<open>Sync_Operations\<close>: \<^verbatim>\<open>socket/detail/sync_operations.hpp\<close>. Shown: interrupted calls and only those are
    retried, outcomes of accept and recvmsg including the errors.
  \<^item> \<open>Interest_List\<close>, \<open>Poll_Call\<close>, \<open>Poll_Multiplexer\<close>: \<^verbatim>\<open>execution/poll_multiplexer.hpp\<close> and its implementation.
    Shown: the sorted list of poll entries represents a map from descriptors to event sets (locale
    \<open>interest_set\<close>); what \<^verbatim>\<open>poll_\<close> returns and how it accounts for its timeout.
  \<^item> \<open>Multiplexer_Invariant\<close>: the representation invariant \<open>mux_wf\<close>, the invariant \<open>covered\<close> (every queue that
    holds a task has its event registered), the effect of the critical section and the completions of a
    wait. \<open>Queue_Refinement\<close>: the heap of \<open>Task_Queue\<close> simulates the task lists of the multiplexer.
    \<open>Interleaving\<close>: any number of threads, one step per critical section; shown: a started operation is in
    exactly one place, only moves forward (queued, taken by a waiter, completed) and completes at most once.
    \<open>Critical_Section\<close>: \<^verbatim>\<open>with_lock\<close> of \<^verbatim>\<open>execution/detail/utilities.hpp\<close> and the sections in small steps; shown, by
    the locale \<open>critical_sections\<close> and its interpretation: they are atomic, what threads take out of them
    included, and they neither lose nor duplicate a task.
  \<^item> \<open>Async_Operations\<close>: \<^verbatim>\<open>execution/executor.hpp\<close>, \<^verbatim>\<open>execution/triggers.hpp\<close>, \<^verbatim>\<open>socket/socket_dialog.hpp\<close>,
    \<^verbatim>\<open>socket/detail/async_operations.hpp\<close>. Shown: completions of send and connect on every branch,
    ownership of pushed handles, the fairness counter, the rejection of expired executors.
    \<open>Accept_Completion\<close>: accept from the call to its completion, with the path of the accepted descriptor.
    \<open>Executor_Lifetime\<close>: construction, moves and destruction of triggers objects and the shared pointers
    that keep an executor alive; shown: who owns an executor after any moves, when it goes, and that its dialogs are rejected for good.
    \<open>Executor_Scope\<close>: the scope in which the executor nests its operations, over the steps of
    \<open>Interleaving\<close>; shown: the notice that the executor is empty is given exactly when nothing is pending.
  \<^item> \<open>Customization\<close>: \<^verbatim>\<open>detail/customization.hpp\<close> and \<^verbatim>\<open>config.h\<close>, the functions \<^verbatim>\<open>io::accept\<close> to \<^verbatim>\<open>io::shutdown\<close> on
    handles and dialogs. Shown: what a receive on a dialog does in terms of the one on its socket, and that the
    operations that never wait agree.
    \<open>Concepts\<close>: \<^verbatim>\<open>detail/concepts.hpp\<close> and \<^verbatim>\<open>platforms/posix/concepts_posix.hpp\<close> as predicates on descriptions of
    types; shown: each kind of object selects one overload.
  \<^item> \<open>Small_Functor\<close>: \<^verbatim>\<open>detail/small_functor.hpp\<close>, the type-erased callable.
  \<^item> \<open>Echo_Server\<close>: \<^verbatim>\<open>examples/tcp_echo.cpp\<close>, operations with their continuations as a step relation on
    sessions. Shown: what every session has sent in terms of what it received, and that finitely many writes bring
    it back to receiving. \<open>Ping_Pong\<close>:
    \<^verbatim>\<open>examples/async_ping_pong_client.cpp\<close>. Shown: the invariant of its counters, when its loop ends,
    that it does not after a failed operation, and that it goes on pinging a closed connection.
  \<^item> This theory: receiving and connecting from the call to the completion, across all of these.

  \<^bold>\<open>Modelling choices.\<close> Exceptions, assertions, termination under \<^verbatim>\<open>noexcept\<close> and undefined behaviour are values
  of \<open>exn\<close>. Lengths are 64-bit words, event sets 16-bit words, the fairness counter an 8-bit word; a C++
  \<^verbatim>\<open>int\<close> is an \<open>int\<close> with its conversions written out. A loop that the kernel can keep running for ever is a
  partial function with result \<open>None\<close> for not returning, and the theorems say when it returns; no fuel is
  used. Receivers, completion handlers and the kernel are parameters. What the theorems assume of them
  (\<open>receivers_ok\<close>, \<open>quiet\<close>, \<open>returns\<close>, \<open>poll_keeps_fds\<close>, \<open>errors_fetched\<close>, \<open>logs_close\<close>, \<open>counts_nested\<close>) is stated where it is used,
  and the witnesses instantiate it.

  In \<open>Interleaving\<close> a connect or a start is one step together with the read of the stored error, which the source
  does just before it takes the mutex.

  \<^bold>\<open>Behaviours of the code that the theorems record.\<close> A wake-up can be lost between connecting and starting;
  an error event before the first start reads a null pointer; a wait that throws loses the tasks it has taken
  off; an error stored while its handle is swapped can disappear; a hang-up leaves its read interest behind;
  a stored error makes later successful operations fail; interruptions in quick succession never use up
  the timeout; a truncated address makes accept take a span out of range; a size given at run time is not
  checked against the storage of an option; the echo server sends its whole buffer whatever it received
  and never reports an error; the ping-pong client waits for ever after an error, and pings a closed
  connection again and again.

  \<^bold>\<open>Not modelled.\<close> The sender library itself (its scope, its adaptors and \<^verbatim>\<open>tag_invoke\<close> dispatch are parameters or
  the composition of the model's functions), the algorithm by which \<^verbatim>\<open>std::scoped_lock\<close> takes two mutexes,
  allocation failure, memory orders of single atomic accesses, an unused base class that forbids moving,
  console output and delays of the examples, tests and the benchmark. The operations templated over socket types
  are modelled on handles; on a plain descriptor they are the same code without the handle. What else of the sources
  is outside the model are declarations, type aliases and comments.
\<close>

section \<open>From an asynchronous call to its completion\<close>

lemma launch_waiting_state:
  fixes h e and s :: "('v, 'w) sys"
  defines "i \<equiv> nat (native_fd h e)"
  defines "ds \<equiv> demux s @ replicate (i + 1 - length (demux s)) empty_demultiplexer"
  assumes "m = Some (Inr (executor_set h tr f), e)" and "mux_wf s" and "tr \<noteq> EAGER"
    and "\<not> failed (get_error h e)" and "usable_fd (native_fd h e)"
  shows "launch rcv t m s = Some (Inr (), s\<lparr>sys_env := e, demux := ds[i := enqueue tr t h (ds ! i)],
    ilist := register (make_poll_event (native_fd h e) tr) (ilist s),
    ops := (ops s)(t \<mapsto> \<lparr>op_func = f, op_socket = h, op_demux = Some i, op_trigger = tr, op_armed = True\<rparr>)\<rparr>)"
proof -
  let ?s = "s\<lparr>sys_env := e\<rparr>" and ?snd = "set_sender h tr f"
  have snd: "snd_socket ?snd = h" "snd_trigger ?snd = tr" "snd_func ?snd = f"
    by (simp_all add: set_sender_def)
  have reg: "registers ?snd ?s" "usable_fd (sender_fd ?snd ?s)" "length (demux ?s) \<le> 2 ^ 31"
    using assms(4-7) by (auto simp: snd mux_wf_def)
  note con = connect_registering [OF reg, of t, unfolded snd]
  let ?op = "\<lparr>op_func = f, op_socket = h, op_demux = Some i, op_trigger = tr, op_armed = False\<rparr>"
  obtain s1 where s1: "connect ?snd t ?s = (Inr (), s1)" "s1 = ?s\<lparr>demux := ds,
      ilist := register (make_poll_event (native_fd h e) tr) (ilist s), ops := (ops s)(t \<mapsto> ?op)\<rparr>"
    using con by (simp add: i_def ds_def)
  have "startable t ?op i s1" using assms(5,6) by (simp add: startable_def s1(2))
  from start_queues [OF this, of rcv] s1 show ?thesis
    by (simp add: assms(3) launch_def executor_set_def)
qed

text \<open>What completing an operation in a given state delivers.\<close>

definition completes_with :: "('v, 'w) op_state \<Rightarrow> 'w env \<Rightarrow> 'v completion \<Rightarrow> bool" where
  "completes_with op e x \<longleftrightarrow>
     (if failed (get_error (op_socket op) e) then x = Set_error (get_error (op_socket op) e)
      else \<exists>r e'. op_func op e = Some (Inr r, e') \<and> x = (case r of Some v \<Rightarrow> Set_value v | None \<Rightarrow> Set_error (errno e')))"

text \<open>A wait that is told of one event for one task; an error event first fetches the error of the socket.\<close>

lemma wait_one_task:
  assumes poll: "poll_call os (copy_active (ilist s)) (to_int32 interval) (sys_env s) = Some (Inr [ev], e)"
    and i: "0 \<le> fd ev" "nat (fd ev) < length (demux s)"
    and ready: "ready_of (revents ev) (demux s ! nat (fd ev)) = [t]"
    and fetched: "if has_error (revents ev)
      then demux_socket (demux s ! nat (fd ev)) = Some k \<and> set_socket_error os k e = (Inr (), e1) else e1 = e"
    and op: "ops s t = Some op" "op_armed op" and x: "completes_with op e1 x" and "quiet rcv"
  shows "\<exists>s'. wait_for os rcv interval s = Some (Inr 1, s') \<and> completions s' = completions s @ [(t, x)]"
proof -
  obtain s1 where d: "dispatch os [ev] [] (s\<lparr>sys_env := e\<rparr>) = (Inr [t], s1)"
    "ops s1 = ops s" "sys_env s1 = e1" "completions s1 = completions s"
  proof (cases "has_error (revents ev)")
    case True
    have "demux_socket (demux (s\<lparr>sys_env := e, ilist := clear_event ev (ilist s)\<rparr>) ! nat (fd ev)) = Some k"
      using fetched True by simp
    from prepare_handles_error [OF True this, of os "[]"] True i ready fetched show ?thesis
      by (intro that [of "s\<lparr>ilist := clear_event ev (ilist s), sys_env := e1,
            demux := (demux s)[nat (fd ev) := drained (revents ev) (demux s ! nat (fd ev))]\<rparr>"])
        (simp_all add: Let_def)
  next
    case False
    then show ?thesis
      using i ready fetched
      by (intro that [of "s\<lparr>sys_env := e, ilist := clear_event ev (ilist s),
            demux := (demux s)[nat (fd ev) := drained (revents ev) (demux s ! nat (fd ev))]\<rparr>"])
        (simp_all add: Let_def prepare_handles_no_error)
  qed
  have "\<exists>s'. complete rcv t s1 = Some (Inr (), s') \<and> completions s' = completions s @ [(t, x)]"
    using op x assms(9) d
    by (auto simp: complete_def deliver_def quiet_def completes_with_def Let_def split: if_splits option.splits)
  then show ?thesis
    using op d(2) by (auto simp: wait_for_runs [OF poll d(1)])
qed

text \<open>
  (C4) Receiving, end to end. On a healthy socket with a usable descriptor and no earlier reader, the
  asynchronous receive without an eager attempt returns a sender whose connection and start succeed
  and complete nothing yet. When a later wait is told by \<^verbatim>\<open>poll\<close> that exactly this descriptor is
  readable, it returns one event and delivers exactly one completion, to this operation: the number
  of bytes of the \<^verbatim>\<open>recvmsg\<close> call that the wait makes on the message, or, when that call fails, its
  error number.
\<close>

theorem receive_end_to_end:
  fixes s :: "(int, 'w) sys"
  assumes "mux_wf s" and "alive ex" and "message_to_msghdr msg = Inr hdr"
    and "usable_fd (native_fd h e)" and "\<not> failed (get_error h e)" and "quiet rcv" and "poll_keeps_fds os"
    and "nat (native_fd h e) < length (demux s) \<longrightarrow> read_queue (demux s ! nat (native_fd h e)) = []"
  shows "\<exists>s1. launch rcv t
      (async_recvmsg False alive os \<lparr>dlg_executor = ex, dlg_socket = Some h\<rparr> mid msg flags e) s = Some (Inr (), s1) \<and>
    completions s1 = completions s \<and>
    (\<forall>ev e1 len hdr' e2.
       poll_call os (copy_active (ilist s1)) (to_int32 interval) (sys_env s1) = Some (Inr [ev], e1) \<and>
       fd ev = native_fd h e \<and> takes_read (revents ev) \<and> \<not> takes_write (revents ev) \<and>
       sync_recvmsg_native os h hdr flags e1 = Some (len, hdr', e2) \<longrightarrow>
       (\<exists>s2. wait_for os rcv interval s1 = Some (Inr 1, s2) \<and>
          completions s2 = completions s @ [(t, if len < 0 then Set_error (errno e2) else Set_value len)]))"
proof -
  let ?m = "async_recvmsg False alive os \<lparr>dlg_executor = ex, dlg_socket = Some h\<rparr> mid msg flags e"
  let ?f = "recvmsg_handler os h mid hdr flags" and ?i = "nat (native_fd h e)"
  let ?op = "\<lparr>op_func = ?f, op_socket = h, op_demux = Some ?i, op_trigger = READ, op_armed = True\<rparr>"
  have m: "?m = Some (Inr (executor_set h READ ?f), e)"
    using assms(2,3) by (simp add: async_recvmsg_def with_socket_def get_executor_def)
  obtain s1 where s1: "launch rcv t ?m s = Some (Inr (), s1)" "completions s1 = completions s"
    "sys_env s1 = e" "ops s1 t = Some ?op" "?i < length (demux s1)" "read_queue (demux s1 ! ?i) = [t]"
    using launch_waiting_state [OF m assms(1) _ assms(5,4), of rcv t] assms(8)
    by (auto simp: enqueue_def nth_append empty_demultiplexer_def)
  have "\<exists>s2. wait_for os rcv interval s1 = Some (Inr 1, s2) \<and>
      completions s2 = completions s @ [(t, if len < 0 then Set_error (errno e2) else Set_value len)]"
    if ev: "poll_call os (copy_active (ilist s1)) (to_int32 interval) (sys_env s1) = Some (Inr [ev], e1)"
      "fd ev = native_fd h e" "takes_read (revents ev)" "\<not> takes_write (revents ev)"
      and call: "sync_recvmsg_native os h hdr flags e1 = Some (len, hdr', e2)" for ev e1 len hdr' e2
  proof -
    let ?e = "e2\<lparr>user_flags := (user_flags e2)(mid := msg_flags hdr')\<rparr>"
    have "get_error h e1 = get_error h e"
      using same_objectsD(1) [OF poll_call_frame(3) [OF assms(7) ev(1)], of h] s1(3) by simp
    moreover have "op_func ?op e1 = Some (Inr (if len < 0 then None else Some len), ?e)"
      using call by (simp add: recvmsg_handler_def)
    ultimately have "completes_with ?op e1 (if len < 0 then Set_error (errno e2) else Set_value len)"
      using assms(5) by (simp add: completes_with_def)
    moreover have "\<not> has_error (revents ev)" using ev(4) by (auto simp: takes_write_def has_error_def)
    ultimately show ?thesis
      using wait_one_task [OF ev(1) _ _ _ _ s1(4) _ _ assms(6)] ev(2-4) s1(2,5,6) assms(4)
      by (auto simp: usable_fd_def ready_of_def)
  qed
  with s1(1,2) show ?thesis by blast
qed

theorem receive_end_to_end_witness:
  "\<exists>s1 s2. launch no_reaction 7 (async_recvmsg False (\<lambda>ex. True) (ticking_os (\<lambda>w. False))
       \<lparr>dlg_executor = 0, dlg_socket = Some 0\<rparr> 0 example_message 0 example_env) (initial_sys example_env) =
     Some (Inr (), s1) \<and>
     wait_for (ticking_os (\<lambda>w. False)) no_reaction 100 s1 = Some (Inr 1, s2) \<and>
     completions s2 = [(7, Set_value 0)]"
proof -
  let ?os = "ticking_os (\<lambda>w. False)" and ?s = "initial_sys example_env :: (int, nat) sys"
  let ?m = "async_recvmsg False (\<lambda>ex. True) ?os \<lparr>dlg_executor = 0, dlg_socket = Some 0\<rparr> 0 example_message 0 example_env"
  obtain hdr where hdr: "message_to_msghdr example_message = Inr hdr"
    by (simp add: message_to_msghdr_def message_to_header_def example_message_def)
  have ok: "usable_fd (native_fd 0 example_env)" "\<not> failed (get_error 0 example_env)"
    "nat (native_fd 0 example_env) < length (demux ?s) \<longrightarrow> read_queue (demux ?s ! nat (native_fd 0 example_env)) = []"
    by (simp_all add: example_env_facts usable_fd_def failed_def initial_sys_def)
  from receive_end_to_end [where os = ?os and alive = "\<lambda>ex. True" and ex = 0 and t = 7 and mid = 0 and flags = 0 and interval = 100,
      OF initial_sys_ok(1) TrueI hdr ok(1,2) no_reaction_ok(2) ticking_kernel(1) ok(3)]
  obtain s1 where s1: "launch no_reaction 7 ?m ?s = Some (Inr (), s1)" and
    wait: "\<And>ev e1 len hdr' e2.
       poll_call ?os (copy_active (ilist s1)) (to_int32 100) (sys_env s1) = Some (Inr [ev], e1) \<Longrightarrow>
       fd ev = 3 \<Longrightarrow> takes_read (revents ev) \<Longrightarrow> \<not> takes_write (revents ev) \<Longrightarrow>
       sync_recvmsg_native ?os 0 hdr 0 e1 = Some (len, hdr', e2) \<Longrightarrow>
       \<exists>s2. wait_for ?os no_reaction 100 s1 = Some (Inr 1, s2) \<and>
          completions s2 = completions ?s @ [(7, if len < 0 then Set_error (errno e2) else Set_value len)]"
    by (auto simp: example_env_facts)
  have "?m = Some (Inr (executor_set 0 READ (recvmsg_handler ?os 0 0 hdr 0)), example_env)"
    using hdr by (simp add: async_recvmsg_def with_socket_def get_executor_def)
  from launch_waiting_state [OF this initial_sys_ok(1) _ ok(2,1), of no_reaction 7] s1
  have "ilist s1 = [\<lparr>fd = 3, events = POLLIN, revents = 0\<rparr>]"
    by (auto simp: example_env_facts reader_interest example_facts)
  moreover have nz: "POLLIN \<noteq> 0" by (simp add: POLLIN_def)
  ultimately obtain e1 where poll: "poll_call ?os (copy_active (ilist s1)) (to_int32 100) (sys_env s1) =
      Some (Inr [\<lparr>fd = 3, events = POLLIN, revents = POLLIN\<rparr>], e1)"
    using ticking_poll_once [of "\<lambda>w. False" "sys_env s1" "[\<lparr>fd = 3, events = POLLIN, revents = 0\<rparr>]" "to_int32 100"]
    by (auto simp: copy_active_def)
  have "recvmsg_call ?os (native_fd 0 e1) 0 (hdr, e1) = (0, hdr, e1)"
    by (simp add: recvmsg_call_def ticking_os_def)
  then have "sync_recvmsg_native ?os 0 hdr 0 e1 = Some (0, hdr, e1)"
    unfolding sync_recvmsg_native_def by (subst retry_once) (auto simp: interrupted_def)
  from wait [OF poll _ _ _ this] s1 show ?thesis
    by (auto simp: pollin_event initial_sys_def)
qed

text \<open>
  (C5) Connecting, end to end. On a healthy socket with a usable descriptor and no other operation waiting on
  it, a connection that the kernel has established or is establishing gives a sender whose connection
  and start succeed and complete nothing yet. When a later wait is told that exactly this descriptor
  is writable, it completes the operation with 0. When it is told of an error instead, such as a refused
  connection, it completes the operation with the error that the kernel holds for the
  socket, and with 0 if it holds none.
\<close>

theorem connect_end_to_end:
  fixes s :: "(int, 'w) sys"
  assumes "mux_wf s" and "alive ex" and "usable_fd (native_fd h e)" and "\<not> failed (get_error h e)"
    and "quiet rcv" and "poll_keeps_fds os"
    and "sync_connect os h address e = Some (r, e0)"
    and "r = 0 \<or> errno e0 \<in> {EINPROGRESS, EAGAIN, EALREADY, EISCONN}"
    and "nat (native_fd h e) < length (demux s) \<longrightarrow>
      read_queue (demux s ! nat (native_fd h e)) = [] \<and> write_queue (demux s ! nat (native_fd h e)) = []"
  shows "\<exists>s1. launch rcv t
      (async_connect alive os \<lparr>dlg_executor = ex, dlg_socket = Some h\<rparr> address e) s = Some (Inr (), s1) \<and>
    completions s1 = completions s \<and>
    (\<forall>ev e1.
       poll_call os (copy_active (ilist s1)) (to_int32 interval) (sys_env s1) = Some (Inr [ev], e1) \<and>
       fd ev = native_fd h e \<longrightarrow>
       (takes_write (revents ev) \<and> \<not> has_error (revents ev) \<longrightarrow>
          (\<exists>s2. wait_for os rcv interval s1 = Some (Inr 1, s2) \<and> completions s2 = completions s @ [(t, Set_value 0)])) \<and>
       (\<forall>e2. has_error (revents ev) \<and> set_socket_error os h e1 = (Inr (), e2) \<longrightarrow>
          (\<exists>s2. wait_for os rcv interval s1 = Some (Inr 1, s2) \<and>
             completions s2 = completions s @
               [(t, if failed (get_error h e2) then Set_error (get_error h e2) else Set_value 0)])))"
proof -
  let ?m = "async_connect alive os \<lparr>dlg_executor = ex, dlg_socket = Some h\<rparr> address e" and ?i = "nat (native_fd h e)"
  let ?op = "\<lparr>op_func = constant_functor 0, op_socket = h, op_demux = Some ?i, op_trigger = WRITE, op_armed = True\<rparr>"
  note frame = same_objectsD [OF sync_connect_same_objects [OF assms(7)]]
  have m: "?m = Some (Inr (executor_set h WRITE (constant_functor 0)), e0)"
    using assms(2,7,8)
    by (auto simp: async_connect_def with_socket_def get_executor_def handle_connect_error_def Let_def)
  have ok: "\<not> failed (get_error h e0)" "usable_fd (native_fd h e0)" "native_fd h e0 = native_fd h e"
    using frame(1,2) assms(3,4) by simp_all
  obtain s1 where s1: "launch rcv t ?m s = Some (Inr (), s1)" "completions s1 = completions s"
    "sys_env s1 = e0" "ops s1 t = Some ?op" "?i < length (demux s1)"
    "write_queue (demux s1 ! ?i) = [t]" "read_queue (demux s1 ! ?i) = []" "demux_socket (demux s1 ! ?i) = Some h"
    using launch_waiting_state [OF m assms(1) _ ok(1,2), of rcv t] assms(9) ok(3)
    by (auto simp: enqueue_def nth_append empty_demultiplexer_def)
  have completed: "\<exists>s2. wait_for os rcv interval s1 = Some (Inr 1, s2) \<and> completions s2 = completions s @ [(t, x)]"
    if ev: "poll_call os (copy_active (ilist s1)) (to_int32 interval) (sys_env s1) = Some (Inr [ev], e1)"
      "fd ev = native_fd h e" "takes_write (revents ev)"
      and e2: "if has_error (revents ev) then set_socket_error os h e1 = (Inr (), e2) else e2 = e1"
      and x: "x = (if failed (get_error h e2) then Set_error (get_error h e2) else Set_value 0)" for ev e1 e2 x
    using wait_one_task [OF ev(1) _ _ _ _ s1(4) _ _ assms(5), of h e2 x] ev(2,3) e2 x s1 assms(3)
    by (auto simp: usable_fd_def ready_of_def completes_with_def constant_functor_def)
  have healthy: "\<not> failed (get_error h e1)"
    if "poll_call os (copy_active (ilist s1)) (to_int32 interval) (sys_env s1) = Some (Inr [ev], e1)" for ev e1
    using same_objectsD(1) [OF poll_call_frame(3) [OF assms(6) that], of h] s1(3) ok(1) by simp
  have writable: "\<exists>s2. wait_for os rcv interval s1 = Some (Inr 1, s2) \<and> completions s2 = completions s @ [(t, Set_value 0)]"
    if ev: "poll_call os (copy_active (ilist s1)) (to_int32 interval) (sys_env s1) = Some (Inr [ev], e1)"
      "fd ev = native_fd h e" "takes_write (revents ev)" "\<not> has_error (revents ev)" for ev e1
    using completed [OF ev(1-3), of e1] ev(4) healthy [OF ev(1)] by simp
  have erroneous: "\<exists>s2. wait_for os rcv interval s1 = Some (Inr 1, s2) \<and> completions s2 = completions s @
      [(t, if failed (get_error h e2) then Set_error (get_error h e2) else Set_value 0)]"
    if ev: "poll_call os (copy_active (ilist s1)) (to_int32 interval) (sys_env s1) = Some (Inr [ev], e1)"
      "fd ev = native_fd h e" "has_error (revents ev)" "set_socket_error os h e1 = (Inr (), e2)" for ev e1 e2
    using completed [OF ev(1,2), of e2] ev(3,4) by (auto simp: takes_write_def has_error_def)
  show ?thesis
    using s1(1,2) writable erroneous by (intro exI [of _ s1]) blast
qed

text \<open>A kernel that refuses a connection: it is in progress first, and then an error event says so.\<close>

definition refusing_os :: "nat os" where
  "refusing_os = (ticking_os (\<lambda>w. False))\<lparr>os_connect := (\<lambda>f a w. (- 1, EINPROGRESS, w)),
     os_getsockopt := (\<lambda>f l k b n w. (0, 0, [111, 0, 0, 0], 4, w)),
     os_poll := (\<lambda>l d w. (int (length l), 0, map (\<lambda>p. p\<lparr>revents := POLLERR\<rparr>) l, w))\<rparr>"

lemma refusing_kernel:
  "sync_connect refusing_os 0 [] example_env = Some (- 1, example_env\<lparr>errno := EINPROGRESS\<rparr>)"
  "poll_keeps_fds refusing_os"
  "\<exists>e'. poll_call refusing_os [\<lparr>fd = 3, events = POLLOUT, revents = 0\<rparr>] d e =
     Some (Inr [\<lparr>fd = 3, events = POLLOUT, revents = POLLERR\<rparr>], e')"
  "\<exists>e'. set_socket_error refusing_os 0 e = (Inr (), e') \<and> get_error 0 e' = 111"
proof -
  have "plain_call (os_connect refusing_os (native_fd 0 example_env) []) ((), example_env) =
      (- 1, (), example_env\<lparr>errno := EINPROGRESS\<rparr>)"
    by (simp add: refusing_os_def plain_call_def run_sys_def)
  then show "sync_connect refusing_os 0 [] example_env = Some (- 1, example_env\<lparr>errno := EINPROGRESS\<rparr>)"
    unfolding sync_connect_def by (subst retry_once) (auto simp: interrupted_def errno_defs)
  show "poll_keeps_fds refusing_os" by (simp add: poll_keeps_fds_def refusing_os_def comp_def)
  show "\<exists>e'. set_socket_error refusing_os 0 e = (Inr (), e') \<and> get_error 0 e' = 111"
    by (simp add: set_socket_error_def refusing_os_def sync_getsockopt_def run_buffer_sys_def subspan_def
        int_of_bytes_def to_int32_def get_error_def set_error_def)
  let ?s = "poll_start refusing_os [\<lparr>fd = 3, events = POLLOUT, revents = 0\<rparr>] d e"
  have nz: "POLLERR \<noteq> 0" by (simp add: POLLERR_def)
  obtain e' where "poll_attempt refusing_os ?s = Inl (Inr [\<lparr>fd = 3, events = POLLOUT, revents = POLLERR\<rparr>], e')"
    by (auto simp: poll_start_def poll_attempt_def refusing_os_def ticking_os_def Let_def)
  then have "iterate (poll_attempt refusing_os) ?s = Some (Inr [\<lparr>fd = 3, events = POLLOUT, revents = POLLERR\<rparr>], e')"
    using iterate_ends [of "poll_attempt refusing_os" 0 ?s] by simp
  then show "\<exists>e'. poll_call refusing_os [\<lparr>fd = 3, events = POLLOUT, revents = 0\<rparr>] d e =
      Some (Inr [\<lparr>fd = 3, events = POLLOUT, revents = POLLERR\<rparr>], e')"
    using nz by (simp add: poll_call_def)
qed

theorem connect_end_to_end_witness:
  "\<exists>s1 s2. launch no_reaction 7 (async_connect (\<lambda>ex. True) refusing_os \<lparr>dlg_executor = 0, dlg_socket = Some 0\<rparr> [] example_env)
       (initial_sys example_env) = Some (Inr (), s1) \<and>
     wait_for refusing_os no_reaction 100 s1 = Some (Inr 1, s2) \<and> completions s2 = [(7, Set_error 111)]"
proof -
  let ?s = "initial_sys example_env :: (int, nat) sys" and ?e0 = "example_env\<lparr>errno := EINPROGRESS\<rparr>"
  let ?m = "async_connect (\<lambda>ex. True) refusing_os \<lparr>dlg_executor = 0, dlg_socket = Some 0\<rparr> [] example_env"
  have ok: "usable_fd (native_fd 0 example_env)" "\<not> failed (get_error 0 example_env)"
    "- 1 = (0 :: int) \<or> errno ?e0 \<in> {EINPROGRESS, EAGAIN, EALREADY, EISCONN}"
    "nat (native_fd 0 example_env) < length (demux ?s) \<longrightarrow> read_queue (demux ?s ! nat (native_fd 0 example_env)) = [] \<and>
       write_queue (demux ?s ! nat (native_fd 0 example_env)) = []"
    by (simp_all add: example_env_facts usable_fd_def failed_def initial_sys_def)
  from connect_end_to_end [where alive = "\<lambda>ex. True" and ex = 0 and t = 7 and interval = 100,
      OF initial_sys_ok(1) TrueI ok(1,2) no_reaction_ok(2) refusing_kernel(2,1) ok(3,4)]
  obtain s1 where s1: "launch no_reaction 7 ?m ?s = Some (Inr (), s1)" and
    wait: "\<And>ev e1 e2. poll_call refusing_os (copy_active (ilist s1)) (to_int32 100) (sys_env s1) = Some (Inr [ev], e1) \<Longrightarrow>
       fd ev = 3 \<Longrightarrow> has_error (revents ev) \<Longrightarrow> set_socket_error refusing_os 0 e1 = (Inr (), e2) \<Longrightarrow>
       \<exists>s2. wait_for refusing_os no_reaction 100 s1 = Some (Inr 1, s2) \<and> completions s2 = completions ?s @
         [(7, if failed (get_error 0 e2) then Set_error (get_error 0 e2) else Set_value 0)]"
    unfolding example_env_facts(1) by blast
  have m: "?m = Some (Inr (executor_set 0 WRITE (constant_functor 0)), ?e0)"
    using refusing_kernel(1) by (simp add: async_connect_def with_socket_def get_executor_def handle_connect_error_def Let_def)
  have "register (make_poll_event 3 WRITE) [] = [\<lparr>fd = 3, events = POLLOUT, revents = 0\<rparr>]" "POLLOUT \<noteq> 0"
    by (simp_all add: register_def update_or_insert_event_def lower_bound_def lower_bound_loop.simps
        make_poll_event_def Let_def POLLOUT_def)
  then have "copy_active (ilist s1) = [\<lparr>fd = 3, events = POLLOUT, revents = 0\<rparr>]"
    using launch_waiting_state [OF m initial_sys_ok(1), of no_reaction 7] s1 ok(1,2)
    by (auto simp: native_fd_def to_native_def get_error_def copy_active_def initial_sys_def example_env_def)
  then obtain e1 where poll: "poll_call refusing_os (copy_active (ilist s1)) (to_int32 100) (sys_env s1) =
      Some (Inr [\<lparr>fd = 3, events = POLLOUT, revents = POLLERR\<rparr>], e1)"
    using refusing_kernel(3) by metis
  obtain e2 where e2: "set_socket_error refusing_os 0 e1 = (Inr (), e2)" "get_error 0 e2 = 111"
    using refusing_kernel(4) by blast
  have "has_error POLLERR" by (simp add: has_error_def POLLERR_def)
  with wait [OF poll _ _ e2(1)] e2(2) s1 show ?thesis
    by (auto simp: failed_def errno_defs initial_sys_def)
qed

end
